(* ===== verification/Prelude.thy ===== *)
theory Prelude
  imports Main "HOL-Library.Signed_Division" "HOL-Library.Multiset" "HOL-Library.Code_Target_Nat"
begin

text \<open>
  Shared vocabulary of the development.

  The Rust sources use \<open>u64\<close>, \<open>i64\<close>, \<open>u128\<close> and \<open>i128\<close>. They are modelled as
  \<open>nat\<close> and \<open>int\<close>, and every operation of the sources that can leave the width of its type
  is one of the functions below, with what Rust does at the boundary written out: saturation,
  \<open>None\<close> of a checked operation, a failed \<open>try_from\<close>, or the wrap-around of an unchecked
  operator in the release profile (\<open>Cargo.toml\<close> leaves overflow checks off there).
  That the values of the model stay inside their widths is a theorem about the state machine, not
  an assumption of the types.

  The second half collects the list facts that several components share.
\<close>

section \<open>Machine integers\<close>

type_synonym u64 = nat
type_synonym i64 = int

named_theorems machine_int \<open>definitions of the machine integer operations\<close>

definition u64_max :: nat where
  [machine_int]: "u64_max = 18446744073709551615"

definition i64_max :: int where
  [machine_int]: "i64_max = 9223372036854775807"

definition i64_min :: int where
  [machine_int]: "i64_min = - 9223372036854775808"

definition i128_max :: int where
  [machine_int]: "i128_max = 170141183460469231731687303715884105727"

definition i128_min :: int where
  [machine_int]: "i128_min = - 170141183460469231731687303715884105728"

definition u64_ok :: "nat \<Rightarrow> bool" where
  [machine_int]: "u64_ok n \<longleftrightarrow> n \<le> u64_max"

definition i64_ok :: "int \<Rightarrow> bool" where
  [machine_int]: "i64_ok x \<longleftrightarrow> i64_min \<le> x \<and> x \<le> i64_max"

definition u64_saturating_add :: "u64 \<Rightarrow> u64 \<Rightarrow> u64" where
  [machine_int]: "u64_saturating_add a b = min (a + b) u64_max"

definition u64_saturating_sub :: "u64 \<Rightarrow> u64 \<Rightarrow> u64" where
  [machine_int]: "u64_saturating_sub a b = (if b \<le> a then a - b else 0)"

definition u64_saturating_mul :: "u64 \<Rightarrow> u64 \<Rightarrow> u64" where
  [machine_int]: "u64_saturating_mul a b = min (a * b) u64_max"

definition u64_checked_add :: "u64 \<Rightarrow> u64 \<Rightarrow> u64 option" where
  [machine_int]: "u64_checked_add a b = (if u64_ok (a + b) then Some (a + b) else None)"

definition u64_wrap :: "nat \<Rightarrow> u64" where
  [machine_int]: "u64_wrap n = n mod (u64_max + 1)"

definition u64_wrapping_sub :: "u64 \<Rightarrow> u64 \<Rightarrow> u64" where
  [machine_int]: "u64_wrapping_sub a b = (if b \<le> a then a - b else a + (u64_max + 1) - b)"

definition i64_saturate :: "int \<Rightarrow> i64" where
  [machine_int]: "i64_saturate x = (if x < i64_min then i64_min else if i64_max < x then i64_max else x)"

definition i64_saturating_add :: "i64 \<Rightarrow> i64 \<Rightarrow> i64" where
  [machine_int]: "i64_saturating_add a b = i64_saturate (a + b)"

definition i64_saturating_sub :: "i64 \<Rightarrow> i64 \<Rightarrow> i64" where
  [machine_int]: "i64_saturating_sub a b = i64_saturate (a - b)"

definition i64_saturating_mul :: "i64 \<Rightarrow> i64 \<Rightarrow> i64" where
  [machine_int]: "i64_saturating_mul a b = i64_saturate (a * b)"

definition i64_checked_mul :: "i64 \<Rightarrow> i64 \<Rightarrow> i64 option" where
  [machine_int]: "i64_checked_mul a b = (if i64_ok (a * b) then Some (a * b) else None)"

definition i64_try_from :: "int \<Rightarrow> i64 option" where
  [machine_int]: "i64_try_from x = (if i64_ok x then Some x else None)"

definition u64_try_from :: "int \<Rightarrow> u64 option" where
  [machine_int]: "u64_try_from x = (if 0 \<le> x \<and> u64_ok (nat x) then Some (nat x) else None)"

definition i64_abs_diff :: "i64 \<Rightarrow> i64 \<Rightarrow> u64" where
  [machine_int]: "i64_abs_diff a b = nat \<bar>a - b\<bar>"

definition i64_unsigned_abs :: "i64 \<Rightarrow> u64" where
  [machine_int]: "i64_unsigned_abs a = nat \<bar>a\<bar>"

definition i128_saturating_mul :: "int \<Rightarrow> int \<Rightarrow> int" where
  [machine_int]: "i128_saturating_mul a b =
     (if a * b < i128_min then i128_min else if i128_max < a * b then i128_max else a * b)"

definition unwrap_or :: "'a option \<Rightarrow> 'a \<Rightarrow> 'a" where
  "unwrap_or x d = (case x of None \<Rightarrow> d | Some v \<Rightarrow> v)"

lemma unwrap_or_simps [simp]: "unwrap_or None d = d" "unwrap_or (Some v) d = v"
  by (simp_all add: unwrap_or_def)

text \<open>
  The facts the components use about these operations: what they return inside the width, that
  they never leave it, and that the saturating ones are monotone.
\<close>

lemma u64_saturating_add_exact [simp]: "a + b \<le> u64_max \<Longrightarrow> u64_saturating_add a b = a + b"
  by (simp add: u64_saturating_add_def)

lemma u64_saturating_sub_minus [simp]: "u64_saturating_sub a b = a - b"
  by (simp add: u64_saturating_sub_def)

lemma u64_saturating_mono:
  "a \<le> b \<Longrightarrow> u64_saturating_add a c \<le> u64_saturating_add b c"
  "a \<le> b \<Longrightarrow> u64_saturating_mul a c \<le> u64_saturating_mul b c"
  by (auto simp: u64_saturating_add_def u64_saturating_mul_def min_def dest: mult_le_mono1 [of _ _ c])

lemma u64_wrap_small [simp]: "n \<le> u64_max \<Longrightarrow> u64_wrap n = n"
  by (simp add: u64_wrap_def)

lemma u64_wrapping_sub_small [simp]: "b \<le> a \<Longrightarrow> u64_wrapping_sub a b = a - b"
  by (simp add: u64_wrapping_sub_def)

lemma u64_ok_intros [simp]:
  "u64_ok 0" "u64_ok (u64_saturating_add a b)" "u64_ok (u64_saturating_mul a b)" "u64_ok (u64_wrap n)"
  by (simp_all add: u64_ok_def u64_saturating_add_def u64_saturating_mul_def u64_wrap_def
      less_Suc_eq_le [symmetric])

lemma u64_ok_diff [simp]: "u64_ok a \<Longrightarrow> u64_ok (a - b)"
  by (simp add: u64_ok_def)

lemma u64_ok_mono: "u64_ok b \<Longrightarrow> a \<le> b \<Longrightarrow> u64_ok a"
  by (simp add: u64_ok_def)

lemma i64_saturate_exact [simp]: "i64_ok x \<Longrightarrow> i64_saturate x = x"
  by (auto simp: i64_saturate_def i64_ok_def)

lemma i64_saturate_ok [simp]: "i64_ok (i64_saturate x)"
  by (auto simp: machine_int)

lemma i64_saturating_ok [simp]:
  "i64_ok (i64_saturating_add a b)" "i64_ok (i64_saturating_sub a b)" "i64_ok (i64_saturating_mul a b)"
  by (simp_all add: i64_saturating_add_def i64_saturating_sub_def i64_saturating_mul_def)

lemma i64_ok_0 [simp]: "i64_ok 0"
  by (simp add: machine_int)

lemma i64_saturate_mono: "x \<le> y \<Longrightarrow> i64_saturate x \<le> i64_saturate y"
  by (auto simp: machine_int)

lemma i64_ok_between: "i64_ok a \<Longrightarrow> i64_ok b \<Longrightarrow> a \<le> x \<Longrightarrow> x \<le> b \<Longrightarrow> i64_ok x"
  by (simp add: i64_ok_def)

lemma i64_checked_mul_Some: "i64_checked_mul a b = Some c \<longleftrightarrow> c = a * b \<and> i64_ok (a * b)"
  by (auto simp: i64_checked_mul_def)

section \<open>Lists\<close>

lemma sum_list_le_each:
  fixes f g :: "'a \<Rightarrow> nat"
  shows "(\<And>x. x \<in> set xs \<Longrightarrow> f x \<le> g x) \<Longrightarrow> sum_list (map f xs) \<le> sum_list (map g xs)"
  by (induction xs) (auto intro: add_mono)

lemma sum_list_filter_split:
  fixes f :: "'a \<Rightarrow> 'b::comm_monoid_add"
  shows "sum_list (map f (filter P xs)) + sum_list (map f (filter (\<lambda>x. \<not> P x) xs)) = sum_list (map f xs)"
  by (induction xs) (auto simp: ac_simps)

lemma sum_list_mset: "mset xs = mset ys \<Longrightarrow> sum_list (map f xs) = (sum_list (map f ys) :: 'b::comm_monoid_add)"
  by (metis mset_map sum_mset_sum_list)

lemma length_dropWhile_less [simp]: "length (dropWhile P xs) < Suc (length xs)"
  by (simp add: length_dropWhile_le le_imp_less_Suc)

lemma fold_invariant_list:
  "P s \<Longrightarrow> (\<And>x s. x \<in> set xs \<Longrightarrow> P s \<Longrightarrow> P (f x s)) \<Longrightarrow> P (fold f xs s)"
  by (induction xs arbitrary: s) auto

lemma mset_takeWhile_dropWhile [simp]: "mset (takeWhile P xs) + mset (dropWhile P xs) = mset xs"
  by (metis mset_append takeWhile_dropWhile_id)

end
