(* ===== verification/Proto.thy ===== *)
theory Proto
  imports Prelude "HOL-Library.Word"
begin

text \<open>
  The crate \<open>auction-proto\<close>: identifiers (\<open>ids.rs\<close>), integral money and quantities
  (\<open>money.rs\<close>), auction time (\<open>time.rs\<close>), rejection reasons and the lifecycle status
  (\<open>lib.rs\<close>).

  The newtypes around numbers (\<open>Price\<close>, \<open>Qty\<close>, \<open>Nanos\<close>, \<open>Seq\<close>,
  \<open>FillId\<close>) are transparent, so they are type synonyms of the number inside. The identifiers
  wrap a \<open>Uuid\<close> of the \<open>uuid\<close> crate, which the sources use as an opaque 128-bit value
  that is compared and ordered.
\<close>

section \<open>Identifiers\<close>

type_synonym uuid = "128 word"

datatype auction_id = AuctionId uuid
datatype participant_id = ParticipantId uuid
datatype idempotency_key = IdempotencyKey uuid

primrec participant_uuid :: "participant_id \<Rightarrow> uuid" where
  "participant_uuid (ParticipantId u) = u"

primrec key_uuid :: "idempotency_key \<Rightarrow> uuid" where
  "key_uuid (IdempotencyKey u) = u"

instantiation participant_id :: linorder
begin

definition less_eq_participant_id :: "participant_id \<Rightarrow> participant_id \<Rightarrow> bool" where
  "less_eq_participant_id a b \<longleftrightarrow> participant_uuid a \<le> participant_uuid b"

definition less_participant_id :: "participant_id \<Rightarrow> participant_id \<Rightarrow> bool" where
  "less_participant_id a b \<longleftrightarrow> participant_uuid a < participant_uuid b"

instance
proof
  fix x y :: participant_id
  show "x \<le> y \<Longrightarrow> y \<le> x \<Longrightarrow> x = y"
    by (cases x; cases y) (simp add: less_eq_participant_id_def)
qed (auto simp: less_eq_participant_id_def less_participant_id_def)

end

instantiation idempotency_key :: linorder
begin

definition less_eq_idempotency_key :: "idempotency_key \<Rightarrow> idempotency_key \<Rightarrow> bool" where
  "less_eq_idempotency_key a b \<longleftrightarrow> key_uuid a \<le> key_uuid b"

definition less_idempotency_key :: "idempotency_key \<Rightarrow> idempotency_key \<Rightarrow> bool" where
  "less_idempotency_key a b \<longleftrightarrow> key_uuid a < key_uuid b"

instance
proof
  fix x y :: idempotency_key
  show "x \<le> y \<Longrightarrow> y \<le> x \<Longrightarrow> x = y"
    by (cases x; cases y) (simp add: less_eq_idempotency_key_def)
qed (auto simp: less_eq_idempotency_key_def less_idempotency_key_def)

end

type_synonym seq = u64

definition seq_start :: seq where
  "seq_start = 0"

text \<open>\<open>Seq::next\<close>: the panic on overflow is \<open>None\<close>.\<close>

definition seq_next :: "seq \<Rightarrow> seq option" where
  "seq_next s = u64_checked_add s 1"

section \<open>Money and quantities\<close>

type_synonym price = i64
type_synonym qty = u64

definition checked_mul_qty :: "price \<Rightarrow> qty \<Rightarrow> i64 option" where
  "checked_mul_qty p q =
     (case i64_try_from (int q) of None \<Rightarrow> None | Some q' \<Rightarrow> i64_checked_mul p q')"

text \<open>
  \<open>i64::clamp\<close> panics when its bounds are the wrong way round; \<open>None\<close> is that panic.
\<close>

definition clamp_to :: "price \<Rightarrow> price \<Rightarrow> price \<Rightarrow> price option" where
  "clamp_to p flr start =
     (if start < flr then None else Some (if p < flr then flr else if start < p then start else p))"

definition price_abs_diff :: "price \<Rightarrow> price \<Rightarrow> u64" where
  "price_abs_diff a b = i64_abs_diff a b"

definition qty_is_zero :: "qty \<Rightarrow> bool" where
  "qty_is_zero q \<longleftrightarrow> q = 0"

definition min_with :: "qty \<Rightarrow> qty \<Rightarrow> qty" where
  "min_with q available = min q available"

lemma checked_mul_qty_Some:
  "checked_mul_qty p q = Some c \<longleftrightarrow> c = p * int q \<and> i64_ok (p * int q) \<and> int q \<le> i64_max"
  by (auto simp: checked_mul_qty_def i64_try_from_def i64_checked_mul_Some i64_ok_def i64_min_def)

lemma checked_mul_qty_ok: "checked_mul_qty p q = Some c \<Longrightarrow> i64_ok c"
  by (simp add: checked_mul_qty_Some)

section \<open>Time\<close>

type_synonym nanos = u64

definition from_millis :: "u64 \<Rightarrow> nanos" where
  "from_millis ms = u64_saturating_mul ms 1000000"

definition from_secs :: "u64 \<Rightarrow> nanos" where
  "from_secs s = u64_saturating_mul s 1000000000"

definition as_millis :: "nanos \<Rightarrow> u64" where
  "as_millis t = t div 1000000"

definition as_secs :: "nanos \<Rightarrow> u64" where
  "as_secs t = t div 1000000000"

definition window_index :: "nanos \<Rightarrow> nanos \<Rightarrow> u64" where
  "window_index t width = (if width = 0 then t else t div width)"

lemma window_index_mono: "t \<le> t' \<Longrightarrow> window_index t w \<le> window_index t' w"
  by (simp add: window_index_def div_le_mono)

lemma from_secs_as_secs: "s * 1000000000 \<le> u64_max \<Longrightarrow> as_secs (from_secs s) = s"
  by (simp add: as_secs_def from_secs_def u64_saturating_mul_def)

section \<open>Rejections and status\<close>

datatype reject_reason =
    NotLive
  | PriceMoved price
  | SupplyExhausted
  | InsufficientCollateral
  | ZeroQuantity
  | RateLimited
  | Busy
  | LimitAboveClock price
  | Unfilled
  | UnknownBid

datatype status = Pending | Live | Cleared | Cancelled

definition accepts_bids :: "status \<Rightarrow> bool" where
  "accepts_bids s \<longleftrightarrow> s = Live"

definition is_terminal :: "status \<Rightarrow> bool" where
  "is_terminal s \<longleftrightarrow> s = Cleared \<or> s = Cancelled"

lemma status_cases_simps [simp]:
  "accepts_bids Live" "\<not> accepts_bids Pending" "\<not> accepts_bids Cleared" "\<not> accepts_bids Cancelled"
  "is_terminal Cleared" "is_terminal Cancelled" "\<not> is_terminal Pending" "\<not> is_terminal Live"
  by (simp_all add: accepts_bids_def is_terminal_def)

lemma accepts_bids_not_terminal: "accepts_bids s \<Longrightarrow> \<not> is_terminal s"
  by (simp add: accepts_bids_def)

end
