(* ===== verification/Schedule.thy ===== *)
theory Schedule
  imports Proto
begin

text \<open>
  The price clock, \<open>crates/auction-core/src/schedule.rs\<close>: the schedule and its two
  constructors, \<open>price_at\<close>, \<open>time_to_reach\<close> and \<open>at_floor\<close>.

  \<open>price_at_checked\<close> is \<open>PriceSchedule::price_at\<close> with the panic of \<open>i64::clamp\<close>
  as \<open>None\<close>; on the schedules the constructors build it never is
  (\<open>price_at_checked_Some\<close>), and \<open>price_at\<close> is the price that it then returns.
  The two locales state what the rest of the system relies on: a clock that only descends between
  its published bounds, and an alarm that names an instant at which a price is reached.
\<close>

section \<open>Schedules\<close>

datatype schedule_kind =
    Stepped nanos i64  \<comment> \<open>\<open>step_duration\<close>, \<open>step_size\<close>\<close>
  | Linear i64         \<comment> \<open>\<open>rate_per_sec\<close>\<close>

record price_schedule =
  ps_start_price :: price
  ps_floor_price :: price
  ps_kind :: schedule_kind

text \<open>The constructors assert their arguments; \<open>None\<close> is a failed assertion.\<close>

definition stepped :: "price \<Rightarrow> price \<Rightarrow> nanos \<Rightarrow> i64 \<Rightarrow> price_schedule option" where
  "stepped start_price floor_price step_duration step_size =
     (if \<not> floor_price \<le> start_price then None
      else if \<not> 0 \<le> step_size then None
      else Some \<lparr>ps_start_price = start_price, ps_floor_price = floor_price,
                 ps_kind = Stepped step_duration step_size\<rparr>)"

definition linear :: "price \<Rightarrow> price \<Rightarrow> i64 \<Rightarrow> price_schedule option" where
  "linear start_price floor_price rate_per_sec =
     (if \<not> floor_price \<le> start_price then None
      else if \<not> 0 \<le> rate_per_sec then None
      else Some \<lparr>ps_start_price = start_price, ps_floor_price = floor_price,
                 ps_kind = Linear rate_per_sec\<rparr>)"

definition saturating_drop :: "u64 \<Rightarrow> i64 \<Rightarrow> i64" where
  "saturating_drop steps step_size =
     i64_saturating_mul (unwrap_or (i64_try_from (int steps)) i64_max) step_size"

definition ceil_div :: "int \<Rightarrow> int \<Rightarrow> int" where
  "ceil_div numerator denominator = (numerator + denominator - 1) sdiv denominator"

definition price_at_checked :: "price_schedule \<Rightarrow> nanos \<Rightarrow> price option" where
  "price_at_checked s elapsed =
     (case ps_kind s of
        Stepped step_duration step_size \<Rightarrow>
          (if step_duration = 0 then Some (ps_floor_price s)
           else let steps = elapsed div step_duration;
                    drop = saturating_drop steps step_size
                in clamp_to (i64_saturating_sub (ps_start_price s) drop)
                     (ps_floor_price s) (ps_start_price s))
      | Linear rate_per_sec \<Rightarrow>
          (let dropped = i128_saturating_mul (int elapsed) rate_per_sec sdiv 1000000000;
               drop = unwrap_or (i64_try_from dropped) i64_max
           in clamp_to (i64_saturating_sub (ps_start_price s) drop)
                (ps_floor_price s) (ps_start_price s)))"

definition price_at :: "price_schedule \<Rightarrow> nanos \<Rightarrow> price" where
  "price_at s elapsed = unwrap_or (price_at_checked s elapsed) (ps_floor_price s)"

definition time_to_reach :: "price_schedule \<Rightarrow> price \<Rightarrow> nanos option" where
  "time_to_reach s target =
     (if target > ps_start_price s then Some 0
      else if target < ps_floor_price s then None
      else let drop_needed = i64_saturating_sub (ps_start_price s) target in
        (case ps_kind s of
           Stepped step_duration step_size \<Rightarrow>
             (if step_size = 0 then (if drop_needed = 0 then Some 0 else None)
              else let steps = ceil_div drop_needed step_size in
                Some (u64_saturating_mul (unwrap_or (u64_try_from steps) u64_max)
                        (max step_duration 1)))
         | Linear rate_per_sec \<Rightarrow>
             (if rate_per_sec = 0 then (if drop_needed = 0 then Some 0 else None)
              else let ns = ceil_div (i128_saturating_mul drop_needed 1000000000) rate_per_sec in
                Some (unwrap_or (u64_try_from ns) u64_max))))"

definition at_floor :: "price_schedule \<Rightarrow> nanos \<Rightarrow> bool" where
  "at_floor s elapsed \<longleftrightarrow> price_at s elapsed = ps_floor_price s"

section \<open>Interfaces\<close>

text \<open>What the auction relies on: the price only descends, between its published bounds.\<close>

locale price_clock =
  fixes ok :: "'s \<Rightarrow> bool"
    and price :: "'s \<Rightarrow> nanos \<Rightarrow> price"
    and flr :: "'s \<Rightarrow> price"
    and top :: "'s \<Rightarrow> price"
  assumes descends: "ok s \<Longrightarrow> t \<le> t' \<Longrightarrow> price s t' \<le> price s t"
    and above_floor: "ok s \<Longrightarrow> flr s \<le> price s t"
    and below_top: "ok s \<Longrightarrow> price s t \<le> top s"
begin

lemma floor_absorbing: "ok s \<Longrightarrow> price s t = flr s \<Longrightarrow> t \<le> t' \<Longrightarrow> price s t' = flr s"
  using descends [of s t t'] above_floor [of s t'] by simp

lemma not_yet: "ok s \<Longrightarrow> price s t' \<le> p \<Longrightarrow> p < price s t \<Longrightarrow> t < t'"
  using descends [of s t' t] by (cases "t' \<le> t") auto

end

text \<open>
  What the engine's scheduler relies on: an alarm set for a target the clock is still above
  rings strictly later, and the target has been reached when it rings, unless the alarm is at the
  end of representable time.
\<close>

locale price_alarm = price_clock ok price flr top
  for ok :: "'s \<Rightarrow> bool" and price :: "'s \<Rightarrow> nanos \<Rightarrow> price"
    and flr :: "'s \<Rightarrow> price" and top :: "'s \<Rightarrow> price" +
  fixes alarm :: "'s \<Rightarrow> price \<Rightarrow> nanos option"
  assumes reached: "ok s \<Longrightarrow> p \<le> top s \<Longrightarrow> alarm s p = Some t \<Longrightarrow> t < u64_max \<Longrightarrow> price s t \<le> p"
begin

lemma alarm_in_future:
  assumes "ok s" and "alarm s p = Some t" and "p < price s now" and "now < u64_max"
  shows "now < t"
proof (cases "t < u64_max")
  case True
  have "p \<le> top s" using assms(3) below_top [OF assms(1), of now] by simp
  then show ?thesis using not_yet [OF assms(1)] reached [OF assms(1)] assms True by blast
next
  case False
  with assms(4) show ?thesis by simp
qed

end

section \<open>Well-formed schedules\<close>

primrec kind_ok :: "schedule_kind \<Rightarrow> bool" where
  "kind_ok (Stepped d z) \<longleftrightarrow> u64_ok d \<and> 0 \<le> z \<and> i64_ok z"
| "kind_ok (Linear r) \<longleftrightarrow> 0 \<le> r \<and> i64_ok r"

definition schedule_ok :: "price_schedule \<Rightarrow> bool" where
  "schedule_ok s \<longleftrightarrow> ps_floor_price s \<le> ps_start_price s \<and> i64_ok (ps_floor_price s) \<and>
     i64_ok (ps_start_price s) \<and> kind_ok (ps_kind s)"

text \<open>The distance from start to floor fits an \<open>i64\<close>, as it does for non-negative prices.\<close>

definition span_ok :: "price_schedule \<Rightarrow> bool" where
  "span_ok s \<longleftrightarrow> ps_start_price s - ps_floor_price s \<le> i64_max"

lemma stepped_schedule_ok:
  "stepped a b d z = Some s \<Longrightarrow> i64_ok a \<Longrightarrow> i64_ok b \<Longrightarrow> u64_ok d \<Longrightarrow> i64_ok z \<Longrightarrow> schedule_ok s"
  by (auto simp: stepped_def schedule_ok_def split: if_splits)

lemma linear_schedule_ok:
  "linear a b r = Some s \<Longrightarrow> i64_ok a \<Longrightarrow> i64_ok b \<Longrightarrow> i64_ok r \<Longrightarrow> schedule_ok s"
  by (auto simp: linear_def schedule_ok_def split: if_splits)

lemma span_ok_nonneg: "schedule_ok s \<Longrightarrow> 0 \<le> ps_floor_price s \<Longrightarrow> span_ok s"
  by (simp add: schedule_ok_def span_ok_def i64_ok_def)

section \<open>The price\<close>

text \<open>The drop the schedule computes, as one function of elapsed time.\<close>

primrec drop_at :: "schedule_kind \<Rightarrow> nanos \<Rightarrow> i64" where
  "drop_at (Stepped d z) t = saturating_drop (t div d) z"
| "drop_at (Linear r) t =
     unwrap_or (i64_try_from (i128_saturating_mul (int t) r sdiv 1000000000)) i64_max"

primrec instant_drop :: "schedule_kind \<Rightarrow> bool" where
  "instant_drop (Stepped d z) \<longleftrightarrow> d = 0"
| "instant_drop (Linear r) \<longleftrightarrow> False"

lemma price_at_checked_eq:
  "price_at_checked s t =
     (if instant_drop (ps_kind s) then Some (ps_floor_price s)
      else clamp_to (i64_saturating_sub (ps_start_price s) (drop_at (ps_kind s) t))
             (ps_floor_price s) (ps_start_price s))"
  by (cases "ps_kind s") (simp_all add: price_at_checked_def Let_def)

lemma price_at_checked_Some: "schedule_ok s \<Longrightarrow> price_at_checked s t = Some (price_at s t)"
  by (simp add: price_at_def price_at_checked_eq clamp_to_def schedule_ok_def)

lemma price_at_eq:
  "schedule_ok s \<Longrightarrow> price_at s t =
     (if instant_drop (ps_kind s) then ps_floor_price s
      else max (ps_floor_price s)
             (min (ps_start_price s)
                (i64_saturating_sub (ps_start_price s) (drop_at (ps_kind s) t))))"
  by (auto simp: price_at_def price_at_checked_eq clamp_to_def schedule_ok_def)

lemma saturating_drop_mono:
  "0 \<le> z \<Longrightarrow> a \<le> b \<Longrightarrow> saturating_drop a z \<le> saturating_drop b z"
proof -
  assume z: "0 \<le> z" and ab: "a \<le> b"
  have "unwrap_or (i64_try_from (int a)) i64_max \<le> unwrap_or (i64_try_from (int b)) i64_max"
    using ab by (auto simp: i64_try_from_def i64_ok_def i64_min_def)
  then show ?thesis
    unfolding saturating_drop_def i64_saturating_mul_def
    by (intro i64_saturate_mono mult_right_mono z)
qed

lemma sdiv_nonneg: "0 \<le> a \<Longrightarrow> 0 < b \<Longrightarrow> a sdiv b = a div b" for a b :: int
  by (cases "a = 0") (simp_all add: signed_divide_int_def)

lemma i128_saturating_mul_nonneg: "0 \<le> a \<Longrightarrow> 0 \<le> b \<Longrightarrow> i128_saturating_mul a b = min (a * b) i128_max"
proof -
  assume "0 \<le> a" "0 \<le> b"
  then have "0 \<le> a * b" by simp
  then show ?thesis
    unfolding i128_saturating_mul_def i128_min_def by (simp add: min_def)
qed

lemma linear_dropped_eq:
  "0 \<le> r \<Longrightarrow> i128_saturating_mul (int t) r sdiv 1000000000 = min (int t * r) i128_max div 1000000000"
  using sdiv_nonneg [of "min (int t * r) i128_max" 1000000000]
  by (simp add: i128_saturating_mul_nonneg i128_max_def)

lemma drop_at_mono: "kind_ok k \<Longrightarrow> t \<le> t' \<Longrightarrow> drop_at k t \<le> drop_at k t'"
proof (cases k)
  case (Stepped d z)
  assume "kind_ok k" "t \<le> t'"
  then show ?thesis using Stepped by (auto intro: saturating_drop_mono div_le_mono)
next
  case (Linear r)
  assume k: "kind_ok k" and t: "t \<le> t'"
  have r: "0 \<le> r" using k Linear by simp
  have "int t * r \<le> int t' * r" using t r by (simp add: mult_right_mono)
  then have le: "min (int t * r) i128_max div 1000000000 \<le> min (int t' * r) i128_max div 1000000000"
    by (intro zdiv_mono1) auto
  have ge: "0 \<le> min (int t * r) i128_max div 1000000000"
    using r by (simp add: i128_max_def pos_imp_zdiv_nonneg_iff)
  show ?thesis
    using le ge Linear
    by (auto simp: linear_dropped_eq [OF r] i64_try_from_def i64_ok_def i64_min_def)
qed

lemma price_at_descends:
  assumes "schedule_ok s" and "t \<le> t'"
  shows "price_at s t' \<le> price_at s t"
proof -
  have "drop_at (ps_kind s) t \<le> drop_at (ps_kind s) t'"
    using assms by (simp add: drop_at_mono schedule_ok_def)
  then have "i64_saturating_sub (ps_start_price s) (drop_at (ps_kind s) t')
      \<le> i64_saturating_sub (ps_start_price s) (drop_at (ps_kind s) t)"
    by (simp add: i64_saturating_sub_def i64_saturate_mono)
  then show ?thesis using assms(1) by (auto simp: price_at_eq)
qed

lemma price_at_ge_floor: "schedule_ok s \<Longrightarrow> ps_floor_price s \<le> price_at s t"
  by (simp add: price_at_eq)

lemma price_at_le_start: "schedule_ok s \<Longrightarrow> price_at s t \<le> ps_start_price s"
  by (auto simp: price_at_eq schedule_ok_def)

interpretation clock: price_clock schedule_ok price_at ps_floor_price ps_start_price
  by unfold_locales (simp_all add: price_at_descends price_at_ge_floor price_at_le_start)

section \<open>The exact price\<close>

text \<open>
  The drop without any saturation. Within a representable span the saturations of the code are
  invisible: the price is the start price minus the exact drop, cut off at the floor.
\<close>

primrec exact_drop :: "schedule_kind \<Rightarrow> nanos \<Rightarrow> int" where
  "exact_drop (Stepped d z) t = int (t div d) * z"
| "exact_drop (Linear r) t = int t * r div 1000000000"

lemma exact_drop_nonneg: "kind_ok k \<Longrightarrow> 0 \<le> exact_drop k t"
  by (cases k) (simp_all add: pos_imp_zdiv_nonneg_iff)

lemma saturating_drop_exact:
  assumes "0 \<le> z"
  shows "saturating_drop n z = min (int n * z) i64_max"
proof (cases "int n \<le> i64_max")
  case True
  have "0 \<le> int n * z" using assms by simp
  then have "i64_saturate (int n * z) = min (int n * z) i64_max"
    unfolding i64_saturate_def i64_min_def by (simp add: min_def)
  with True show ?thesis
    by (simp add: saturating_drop_def i64_try_from_def i64_ok_def i64_min_def i64_saturating_mul_def)
next
  case False
  show ?thesis
  proof (cases "z = 0")
    case True
    then show ?thesis by (simp add: saturating_drop_def i64_saturating_mul_def i64_max_def)
  next
    case z: False
    have "i64_max * 1 \<le> i64_max * z"
      using assms z by (intro mult_left_mono) (simp_all add: i64_max_def)
    moreover have "i64_max * z \<le> int n * z"
      using False assms by (intro mult_right_mono) simp_all
    moreover have "i64_saturate x = i64_max" if "i64_max \<le> x" for x
      using that by (auto simp: machine_int)
    ultimately show ?thesis
      using False
      by (simp add: saturating_drop_def i64_try_from_def i64_ok_def i64_saturating_mul_def)
  qed
qed

lemma linear_product_fits:
  assumes "u64_ok t" and "0 \<le> r" and "i64_ok r"
  shows "int t * r \<le> i128_max"
proof -
  have "int t * r \<le> int u64_max * i64_max"
    using assms by (intro mult_mono) (simp_all add: u64_ok_def i64_ok_def)
  also have "\<dots> \<le> i128_max" by (simp add: machine_int)
  finally show ?thesis .
qed

lemma drop_at_exact:
  assumes "kind_ok k" and "u64_ok t"
  shows "drop_at k t = min (exact_drop k t) i64_max"
proof (cases k)
  case (Stepped d z)
  then show ?thesis using assms by (simp add: saturating_drop_exact)
next
  case (Linear r)
  have r: "0 \<le> r" "i64_ok r" using assms Linear by simp_all
  have "0 \<le> int t * r div 1000000000" using r by (simp add: pos_imp_zdiv_nonneg_iff)
  then show ?thesis
    using Linear linear_product_fits [OF assms(2) r]
    by (auto simp: linear_dropped_eq [OF r(1)] i64_try_from_def i64_ok_def i64_min_def min_def)
qed

lemma price_at_exact_aux:
  assumes "schedule_ok s" and "span_ok s" and "u64_ok t" and "\<not> instant_drop (ps_kind s)"
  shows "price_at s t = max (ps_floor_price s) (ps_start_price s - exact_drop (ps_kind s) t)"
proof -
  have k: "kind_ok (ps_kind s)" using assms(1) by (simp add: schedule_ok_def)
  note e = drop_at_exact [OF k assms(3)] and n = exact_drop_nonneg [OF k, of t]
  show ?thesis
    using assms n
    by (auto simp: price_at_eq e schedule_ok_def span_ok_def i64_saturating_sub_def
        i64_saturate_def i64_ok_def min_def max_def i64_max_def i64_min_def)
qed

lemma price_at_le_iff:
  assumes "schedule_ok s" and "span_ok s" and "u64_ok t" and "\<not> instant_drop (ps_kind s)"
    and "ps_floor_price s \<le> p"
  shows "price_at s t \<le> p \<longleftrightarrow> ps_start_price s - p \<le> exact_drop (ps_kind s) t"
  using price_at_exact_aux [OF assms(1-4)] assms(5) by auto

section \<open>The alarm\<close>

lemma int_div_less_iff:
  fixes a d y :: int
  assumes "0 < d"
  shows "a div d < y \<longleftrightarrow> a < y * d"
proof -
  have "y \<le> a div d \<longleftrightarrow> y * d \<le> a"
  proof
    assume "y \<le> a div d"
    then have "y * d \<le> a div d * d" using assms by simp
    also have "\<dots> \<le> a" using assms by (simp add: minus_mod_eq_div_mult [symmetric])
    finally show "y * d \<le> a" .
  next
    assume "y * d \<le> a"
    then have "(y * d) div d \<le> a div d" using assms by (rule zdiv_mono1)
    then show "y \<le> a div d" using assms by simp
  qed
  then show ?thesis by auto
qed

lemma ceil_div_le_iff:
  assumes "0 \<le> n" and "0 < d"
  shows "ceil_div n d \<le> x \<longleftrightarrow> n \<le> x * d"
proof -
  have "ceil_div n d = (n + d - 1) div d"
    unfolding ceil_div_def using assms by (intro sdiv_nonneg) auto
  moreover have "(n + d - 1) div d < x + 1 \<longleftrightarrow> n + d - 1 < (x + 1) * d"
    by (rule int_div_less_iff [OF assms(2)])
  moreover have "n + d - 1 < (x + 1) * d \<longleftrightarrow> n \<le> x * d"
    by (auto simp: algebra_simps)
  ultimately show ?thesis by auto
qed

lemma ceil_div_nonneg: "0 \<le> n \<Longrightarrow> 0 < d \<Longrightarrow> 0 \<le> ceil_div n d"
  using ceil_div_le_iff [of n d "-1"] by (cases "ceil_div n d < 0") auto

text \<open>Every case of \<open>time_to_reach\<close> that sets an alarm by dividing.\<close>

primrec alarm_for :: "schedule_kind \<Rightarrow> int \<Rightarrow> nanos" where
  "alarm_for (Stepped d z) n = min (nat (ceil_div n z) * max d 1) u64_max"
| "alarm_for (Linear r) n = min (nat (ceil_div (n * 1000000000) r)) u64_max"

primrec flat :: "schedule_kind \<Rightarrow> bool" where
  "flat (Stepped d z) \<longleftrightarrow> z = 0"
| "flat (Linear r) \<longleftrightarrow> r = 0"

lemma ceil_div_le_numerator: "0 \<le> n \<Longrightarrow> 0 < d \<Longrightarrow> ceil_div n d \<le> n"
  by (subst ceil_div_le_iff) (auto simp: mult_le_cancel_left1)

lemma time_to_reach_eq:
  assumes "schedule_ok s" and "span_ok s"
  shows "time_to_reach s p =
    (if p > ps_start_price s then Some 0
     else if p < ps_floor_price s then None
     else if flat (ps_kind s) then (if p = ps_start_price s then Some 0 else None)
     else Some (alarm_for (ps_kind s) (ps_start_price s - p)))"
proof (cases "p > ps_start_price s \<or> p < ps_floor_price s")
  case True
  then show ?thesis by (auto simp: time_to_reach_def)
next
  case False
  define n where "n = ps_start_price s - p"
  have n: "0 \<le> n" "n \<le> i64_max" using False assms(2) by (auto simp: n_def span_ok_def)
  then have drop: "i64_saturating_sub (ps_start_price s) p = n"
    by (auto simp: i64_saturating_sub_def n_def [symmetric] i64_saturate_def i64_min_def)
  have mul: "i128_saturating_mul n 1000000000 = n * 1000000000"
    using n by (simp add: i128_saturating_mul_nonneg i128_max_def i64_max_def)
  show ?thesis
  proof (cases "ps_kind s")
    case (Stepped d z)
    have "unwrap_or (u64_try_from (ceil_div n z)) u64_max = nat (ceil_div n z)" if "0 < z"
      using ceil_div_nonneg [of n z] ceil_div_le_numerator [of n z] n that
      by (simp add: u64_try_from_def u64_ok_def u64_max_def i64_max_def)
    with False n assms(1) Stepped show ?thesis
      by (auto simp: time_to_reach_def drop schedule_ok_def u64_saturating_mul_def)
        (simp_all add: n_def)
  next
    case (Linear r)
    have "unwrap_or (u64_try_from x) u64_max = min (nat x) u64_max" if "0 \<le> x" for x
      using that by (auto simp: u64_try_from_def u64_ok_def)
    with False n assms(1) Linear show ?thesis
      by (auto simp: time_to_reach_def drop mul schedule_ok_def ceil_div_nonneg) (simp_all add: n_def)
  qed
qed

text \<open>The alarm and the exact drop: before it the drop is short of \<open>n\<close>, at it no longer.\<close>

lemma alarm_not_before:
  assumes "kind_ok k" and "\<not> flat k" and "\<not> instant_drop k" and "0 \<le> n" and "t < alarm_for k n"
  shows "exact_drop k t < n"
proof (cases k)
  case (Stepped d z)
  have z: "0 < z" and d: "0 < d" using assms Stepped by auto
  have m: "max d 1 = d" using d by (simp add: max_def)
  have "t < nat (ceil_div n z) * d" using assms(5) Stepped by (simp add: m [simplified])
  then have "t div d < nat (ceil_div n z)" using d by (simp add: less_mult_imp_div_less)
  then have "\<not> ceil_div n z \<le> int (t div d)" by linarith
  then show ?thesis using ceil_div_le_iff [OF assms(4) z] Stepped by simp
next
  case (Linear r)
  have r: "0 < r" using assms Linear by auto
  have "t < nat (ceil_div (n * 1000000000) r)" using assms(5) Linear by simp
  then have "\<not> ceil_div (n * 1000000000) r \<le> int t" by linarith
  then have "int t * r < n * 1000000000"
    using ceil_div_le_iff [of "n * 1000000000" r "int t"] assms(4) r by simp
  then show ?thesis using Linear by (simp add: int_div_less_iff)
qed

lemma alarm_reached:
  assumes "kind_ok k" and "\<not> flat k" and "\<not> instant_drop k" and "0 \<le> n" and "alarm_for k n < u64_max"
  shows "n \<le> exact_drop k (alarm_for k n)"
proof (cases k)
  case (Stepped d z)
  have z: "0 < z" and d: "0 < d" using assms Stepped by auto
  have m: "max d 1 = d" using d by (simp add: max_def)
  have "alarm_for k n = nat (ceil_div n z) * d" using assms(5) Stepped by (simp add: m [simplified])
  then have "alarm_for k n div d = nat (ceil_div n z)" using d by simp
  then show ?thesis
    using ceil_div_le_iff [OF assms(4) z, of "ceil_div n z"] ceil_div_nonneg [OF assms(4) z] Stepped
    by simp
next
  case (Linear r)
  have r: "0 < r" and n: "0 \<le> n * 1000000000" using assms Linear by auto
  have "alarm_for k n = nat (ceil_div (n * 1000000000) r)" using assms(5) Linear by simp
  then have "n * 1000000000 \<le> int (alarm_for k n) * r"
    using ceil_div_le_iff [OF n r, of "ceil_div (n * 1000000000) r"] ceil_div_nonneg [OF n r] by simp
  then have "\<not> int (alarm_for k n) * r div 1000000000 < n" by (simp add: int_div_less_iff)
  then show ?thesis using Linear by simp
qed

lemma alarm_for_ok: "u64_ok (alarm_for k n)"
  by (cases k) (simp_all add: u64_ok_def)

lemma flat_price: "schedule_ok s \<Longrightarrow> span_ok s \<Longrightarrow> u64_ok t \<Longrightarrow> flat (ps_kind s) \<Longrightarrow>
    \<not> instant_drop (ps_kind s) \<Longrightarrow> price_at s t = ps_start_price s"
  by (cases "ps_kind s") (auto simp: price_at_exact_aux schedule_ok_def)

lemma time_to_reach_reaches:
  assumes "schedule_ok s \<and> span_ok s" and "p \<le> ps_start_price s"
    and "time_to_reach s p = Some t" and "t < u64_max"
  shows "price_at s t \<le> p"
proof (cases "instant_drop (ps_kind s)")
  case True
  then show ?thesis using assms by (auto simp: price_at_eq time_to_reach_eq split: if_splits)
next
  case inst: False
  have sched: "schedule_ok s" "span_ok s" and k: "kind_ok (ps_kind s)"
    using assms(1) by (auto simp: schedule_ok_def)
  show ?thesis
  proof (cases "flat (ps_kind s)")
    case True
    then show ?thesis
      using assms(2,3) price_at_le_start [OF sched(1), of t]
      by (auto simp: time_to_reach_eq [OF sched] split: if_splits)
  next
    case False
    have t: "t = alarm_for (ps_kind s) (ps_start_price s - p)" and p: "ps_floor_price s \<le> p"
      using assms(2,3) False by (auto simp: time_to_reach_eq [OF sched] split: if_splits)
    have "ps_start_price s - p \<le> exact_drop (ps_kind s) t"
      using alarm_reached [OF k False inst] assms(2,4) t by simp
    then show ?thesis
      using price_at_le_iff [OF sched _ inst p] alarm_for_ok t by simp
  qed
qed

interpretation alarm: price_alarm "\<lambda>s. schedule_ok s \<and> span_ok s" price_at ps_floor_price
    ps_start_price time_to_reach
  by unfold_locales
    (use price_at_descends price_at_ge_floor price_at_le_start time_to_reach_reaches in blast)+

lemma time_to_reach_earliest_aux:
  assumes "schedule_ok s" and "span_ok s" and "\<not> instant_drop (ps_kind s)"
    and "time_to_reach s p = Some t" and "t' < t"
  shows "p < price_at s t'"
proof -
  have k: "kind_ok (ps_kind s)" using assms(1) by (simp add: schedule_ok_def)
  have f: "\<not> flat (ps_kind s)" and t: "t = alarm_for (ps_kind s) (ps_start_price s - p)"
    and p: "ps_floor_price s \<le> p" "p \<le> ps_start_price s"
    using assms(4,5) by (auto simp: time_to_reach_eq [OF assms(1,2)] split: if_splits)
  have "exact_drop (ps_kind s) t' < ps_start_price s - p"
    using alarm_not_before [OF k f assms(3)] p(2) t assms(5) by simp
  moreover have "u64_ok t'"
    using alarm_for_ok [of "ps_kind s" "ps_start_price s - p"] assms(5) t
    by (auto intro: u64_ok_mono)
  ultimately show ?thesis
    using price_at_le_iff [OF assms(1,2) _ assms(3) p(1), of t'] by auto
qed

lemma time_to_reach_None_aux:
  assumes "schedule_ok s" and "span_ok s" and "\<not> instant_drop (ps_kind s)" and "u64_ok t"
    and "time_to_reach s p = None"
  shows "p < price_at s t"
proof (cases "p < ps_floor_price s")
  case True
  then show ?thesis using price_at_ge_floor [OF assms(1), of t] by simp
next
  case False
  then have "flat (ps_kind s)" and "p < ps_start_price s"
    using assms(5) by (auto simp: time_to_reach_eq [OF assms(1,2)] split: if_splits)
  then show ?thesis using flat_price [OF assms(1,2,4) _ assms(3)] by simp
qed

section \<open>Properties\<close>

text \<open>Two schedules for the examples: 100 a second from 1000, and a linear one of 7 a second.\<close>

definition step_example :: price_schedule where
  "step_example = \<lparr>ps_start_price = 1000, ps_floor_price = 100, ps_kind = Stepped 1000000000 100\<rparr>"

definition line_example :: price_schedule where
  "line_example = \<lparr>ps_start_price = 1000, ps_floor_price = 100, ps_kind = Linear 7\<rparr>"

lemma examples_ok:
  "schedule_ok step_example" "span_ok step_example" "\<not> instant_drop (ps_kind step_example)"
  "schedule_ok line_example" "span_ok line_example" "\<not> instant_drop (ps_kind line_example)"
  by code_simp+

text \<open>
  C31: the clock is monotone and bounded. As time passes the price never rises, never goes below the
  floor and never starts above the start price, for both kinds of schedule and at any instant.
\<close>

theorem price_descends_within_bounds:
  assumes "schedule_ok s" and "t \<le> t'"
  shows "price_at s t' \<le> price_at s t \<and> ps_floor_price s \<le> price_at s t' \<and> price_at s t \<le> ps_start_price s"
  using clock.descends [OF assms] clock.above_floor [OF assms(1)] clock.below_top [OF assms(1)] by blast

theorem price_descends_within_bounds_witness:
  "price_at step_example 2500000000 \<le> price_at step_example 999999999 \<and>
   ps_floor_price step_example \<le> price_at step_example 2500000000 \<and>
   price_at step_example 999999999 \<le> ps_start_price step_example"
  by (rule price_descends_within_bounds [OF examples_ok(1)]) simp

text \<open>
  C32: the saturating arithmetic is invisible. Whenever the span from start to floor fits a 64-bit
  integer, the price is exactly the start price minus the mathematical drop, cut off at the floor:
  the clamps of the multiplication, of the subtraction and of the conversions never change the result.
\<close>

theorem price_at_is_exact:
  assumes "schedule_ok s" and "span_ok s" and "u64_ok t" and "\<not> instant_drop (ps_kind s)"
  shows "price_at s t = max (ps_floor_price s) (ps_start_price s - exact_drop (ps_kind s) t)"
  using assms by (rule price_at_exact_aux)

theorem price_at_is_exact_witness:
  "price_at line_example 2000000000 =
     max (ps_floor_price line_example) (ps_start_price line_example - exact_drop (ps_kind line_example) 2000000000) \<and>
   price_at line_example 2000000000 = 986"
proof
  have "u64_ok 2000000000" by (simp add: machine_int)
  then show "price_at line_example 2000000000 =
     max (ps_floor_price line_example) (ps_start_price line_example - exact_drop (ps_kind line_example) 2000000000)"
    using examples_ok(6) by (intro price_at_is_exact examples_ok)
  show "price_at line_example 2000000000 = 986" by code_simp
qed

text \<open>
  C33: an alarm is neither early nor late, on a schedule whose start and floor price are at most \<open>i64::MAX\<close> apart. When
  \<open>time_to_reach\<close> names an instant below \<open>u64::MAX\<close> for a target that is not above the start price, the clock has reached the
  target at that instant. Unless the schedule is stepped with a step duration of zero, at every instant before it the
  price is still strictly above the target, and when it names none the price stays above the target at every
  representable instant. With a zero step duration the alarm is late or missing, \<open>zero_duration_alarm\<close> in \<open>Deviations\<close>.
\<close>

theorem time_to_reach_is_earliest:
  assumes "schedule_ok s" and "span_ok s" and "p \<le> ps_start_price s"
  shows "case time_to_reach s p of
      Some t \<Rightarrow> (t < u64_max \<longrightarrow> price_at s t \<le> p) \<and> (\<not> instant_drop (ps_kind s) \<longrightarrow> (\<forall>t' < t. p < price_at s t'))
    | None \<Rightarrow> \<not> instant_drop (ps_kind s) \<longrightarrow> (\<forall>t'. u64_ok t' \<longrightarrow> p < price_at s t')"
  using time_to_reach_reaches [of s p] time_to_reach_earliest_aux [OF assms(1,2)] time_to_reach_None_aux [OF assms(1,2)] assms
  by (cases "time_to_reach s p") auto

theorem time_to_reach_is_earliest_witness:
  "time_to_reach line_example 850 = Some 21428571429 \<and> price_at line_example 21428571429 \<le> 850 \<and>
   850 < price_at line_example 21428571428 \<and>
   time_to_reach step_example 99 = None \<and> 99 < price_at step_example 9000000000000"
proof -
  have t: "time_to_reach line_example 850 = Some 21428571429" "time_to_reach step_example 99 = None"
    and le: "850 \<le> ps_start_price line_example" "99 \<le> ps_start_price step_example" by code_simp+
  show ?thesis
    using time_to_reach_is_earliest [OF examples_ok(4,5) le(1)] time_to_reach_is_earliest [OF examples_ok(1,2) le(2)]
      examples_ok(3,6) by (simp add: t machine_int)
qed

text \<open>
  C34: the price never panics. \<open>i64::clamp\<close> panics when its bounds are the wrong way round; on every
  schedule that one of the two constructors accepts it never does.
\<close>

theorem constructed_schedule_never_panics:
  assumes "stepped a b d z = Some s \<or> linear a b r = Some s"
  shows "price_at_checked s t = Some (price_at s t)"
proof -
  have "ps_floor_price s \<le> ps_start_price s"
    using assms by (auto simp: stepped_def linear_def split: if_splits)
  then show ?thesis by (simp add: price_at_def price_at_checked_eq clamp_to_def)
qed

theorem constructed_schedule_never_panics_witness:
  "price_at_checked step_example 7000000000 = Some (price_at step_example 7000000000)"
  by (rule constructed_schedule_never_panics [of 1000 100 1000000000 100 _ 7])
    (simp add: stepped_def step_example_def)

end
