(* ===== verification/Messages.thy ===== *)
theory Messages
  imports Schedule
begin

text \<open>
  The alphabet of the state machine: the immutable terms of an auction (\<open>config.rs\<close>), the
  commands it reads (\<open>command.rs\<close>) and the events and outcomes it writes
  (\<open>event.rs\<close>).
\<close>

section \<open>Configuration\<close>

record auction_config =
  auction_id :: auction_id
  total_supply :: qty
  schedule :: price_schedule
  batch_window :: nanos
  price_tolerance :: u64

definition default_tolerance :: "price_schedule \<Rightarrow> u64" where
  "default_tolerance s =
     (case ps_kind s of
        Stepped _ step_size \<Rightarrow> i64_unsigned_abs step_size
      | Linear rate_per_sec \<Rightarrow> i64_unsigned_abs rate_per_sec)"

definition new_config :: "auction_id \<Rightarrow> qty \<Rightarrow> price_schedule \<Rightarrow> auction_config" where
  "new_config aid supply sched =
     \<lparr>auction_id = aid, total_supply = supply, schedule = sched,
      batch_window = from_millis 1, price_tolerance = default_tolerance sched\<rparr>"

definition with_batch_window :: "nanos \<Rightarrow> auction_config \<Rightarrow> auction_config" where
  "with_batch_window width c = c\<lparr>batch_window := width\<rparr>"

definition with_price_tolerance :: "u64 \<Rightarrow> auction_config \<Rightarrow> auction_config" where
  "with_price_tolerance tolerance c = c\<lparr>price_tolerance := tolerance\<rparr>"

definition start_price :: "auction_config \<Rightarrow> price" where
  "start_price c = ps_start_price (schedule c)"

definition floor_price :: "auction_config \<Rightarrow> price" where
  "floor_price c = ps_floor_price (schedule c)"

definition clock_price :: "auction_config \<Rightarrow> nanos \<Rightarrow> price" where
  "clock_price c elapsed = price_at (schedule c) elapsed"

text \<open>The terms every theorem about a running auction assumes: a schedule the constructors build.\<close>

definition config_ok :: "auction_config \<Rightarrow> bool" where
  "config_ok c \<longleftrightarrow> schedule_ok (schedule c) \<and> u64_ok (total_supply c) \<and> u64_ok (batch_window c)"

lemma clock_price_descends:
  "config_ok c \<Longrightarrow> t \<le> t' \<Longrightarrow> clock_price c t' \<le> clock_price c t"
  by (simp add: clock_price_def config_ok_def clock.descends)

lemma clock_price_bounds:
  "config_ok c \<Longrightarrow> floor_price c \<le> clock_price c t \<and> clock_price c t \<le> start_price c"
  by (simp add: clock_price_def config_ok_def floor_price_def start_price_def
      clock.above_floor clock.below_top)

lemma clock_price_ok: "config_ok c \<Longrightarrow> i64_ok (clock_price c t)"
  using clock_price_bounds [of c t]
  by (auto simp: config_ok_def schedule_ok_def floor_price_def start_price_def i64_ok_def)

section \<open>Commands\<close>

datatype bid_kind =
    Take price     \<comment> \<open>\<open>expected_price\<close>\<close>
  | Resting price  \<comment> \<open>\<open>limit\<close>\<close>

datatype command =
    Open
  | SetCollateral participant_id i64
  | SubmitBid participant_id idempotency_key qty bid_kind
  | CancelResting participant_id idempotency_key
  | Tick
  | Cancel

primrec priority_price :: "bid_kind \<Rightarrow> price \<Rightarrow> price" where
  "priority_price (Take _) clock = clock"
| "priority_price (Resting limit) clock = limit"

primrec is_resting :: "bid_kind \<Rightarrow> bool" where
  "is_resting (Take _) \<longleftrightarrow> False"
| "is_resting (Resting _) \<longleftrightarrow> True"

section \<open>Outcomes and events\<close>

record fill =
  f_id :: u64
  f_seq :: seq
  f_participant :: participant_id
  f_key :: idempotency_key
  f_qty :: qty
  f_price :: price

definition consideration :: "fill \<Rightarrow> i64 option" where
  "consideration f = checked_mul_qty (f_price f) (f_qty f)"

text \<open>
  \<open>Outcome\<close> and \<open>Event\<close> share several variant names; a variant of \<open>Outcome\<close> is written
  \<open>outcome.Filled\<close>, as in the source.
\<close>

datatype outcome =
    Queued qty
  | Resting qty
  | Filled qty price
  | Rejected reject_reason
  | Cancelled
  | FilledThenCancelled qty price

datatype event =
    Opened price qty
  | CollateralSet participant_id i64
  | Queued idempotency_key participant_id qty price
  | Rested idempotency_key participant_id qty price
  | RestingCancelled idempotency_key participant_id qty
  | Filled fill
  | Rejected idempotency_key reject_reason
  | Duplicate idempotency_key outcome
  | Repriced u64 price price
  | Cleared price qty qty
  | Cancelled

end
