(* ===== verification/Wal_Record.thy ===== *)
theory Wal_Record
  imports Messages "HOL-Library.Sublist"
begin

text \<open>
  Log records and their framing, \<open>crates/auction-wal/src/record.rs\<close>, and the errors of the log,
  \<open>error.rs\<close>.

  A frame is a little-endian length, a little-endian checksum and the payload. The serializer and the
  checksum belong to the crates \<open>bincode\<close> and \<open>crc32fast\<close>; they are the arguments
  \<open>enc\<close>, \<open>dec\<close> and \<open>crc\<close>, and \<open>codec_ok\<close> is what the log relies on: what was
  serialized is read back, payloads are not empty and not beyond the length bound, checksums are
  32-bit numbers. Lengths and checksums are \<open>u32\<close> values as natural numbers below \<open>2 ^ 32\<close>.
\<close>

section \<open>Bytes\<close>

type_synonym byte = "8 word"

definition to_le_bytes :: "nat \<Rightarrow> byte list" where
  "to_le_bytes n = [of_nat n, of_nat (n div 256), of_nat (n div 65536), of_nat (n div 16777216)]"

fun from_le_bytes :: "byte list \<Rightarrow> nat" where
  "from_le_bytes [] = 0"
| "from_le_bytes (b # bs) = unat b + 256 * from_le_bytes bs"

definition u32_ok :: "nat \<Rightarrow> bool" where
  "u32_ok n \<longleftrightarrow> n < 4294967296"

lemma length_to_le_bytes [simp]: "length (to_le_bytes n) = 4"
  by (simp add: to_le_bytes_def)

lemma unat_byte: "unat (of_nat n :: byte) = n mod 256"
  by (simp add: unat_of_nat)

lemma from_to_le_bytes:
  assumes "u32_ok n"
  shows "from_le_bytes (to_le_bytes n) = n"
proof -
  have a: "n div 65536 = n div 256 div 256" "n div 16777216 = n div 256 div 256 div 256"
    by (simp_all add: div_mult2_eq [symmetric])
  have "n div 16777216 < 256" using assms by (simp add: u32_ok_def div_less_iff_less_mult)
  then have "n div 256 div 256 div 256 mod 256 = n div 256 div 256 div 256" by (simp add: a(2))
  then show ?thesis
    unfolding to_le_bytes_def a
    by (simp only: from_le_bytes.simps unat_byte mod_mult_div_eq mult_0_right add_0_right)
qed

section \<open>Errors\<close>

text \<open>
  \<open>WalError\<close> without the paths it reports. \<open>Aborted\<close> is not one of its variants: it stands
  for the panic of \<open>Seq::next\<close> at the end of the sequence space, which aborts the process.
\<close>

datatype wal_error =
    Io
  | Encode
  | Corrupt nat string
  | SequenceGap seq seq
  | ManifestMismatch
  | NoManifest
  | CommitterStopped string
  | Aborted

section \<open>Records\<close>

record log_record =
  lr_seq :: seq
  lr_ts :: nanos
  lr_cmd :: command

definition header_len :: nat where
  "header_len = 8"

definition max_record_len :: nat where
  "max_record_len = 1048576"

type_synonym encoder = "log_record \<Rightarrow> byte list option"
type_synonym decoder = "byte list \<Rightarrow> string + log_record"
type_synonym checksum = "byte list \<Rightarrow> nat"

text \<open>
  \<open>encode_into\<close>: the header is written as zeros and patched once the payload is known. Returns the
  buffer with the frame appended.
\<close>

definition encode_into :: "encoder \<Rightarrow> checksum \<Rightarrow> log_record \<Rightarrow> byte list \<Rightarrow> wal_error + byte list" where
  "encode_into enc crc record out =
     (let start = length out; out = out @ replicate header_len 0 in
      case enc record of
        None \<Rightarrow> Inl Encode
      | Some payload \<Rightarrow>
          (let out = out @ payload;
               payload_len = length out - start - header_len;
               c = crc (drop (start + header_len) out)
           in if \<not> u32_ok payload_len then Inl Encode
              else let out = take start out @ to_le_bytes payload_len @ drop (start + 4) out;
                       out = take (start + 4) out @ to_le_bytes c @ drop (start + header_len) out
                   in Inr out))"

datatype decoded = Record log_record nat | Incomplete | Malformed string

definition decode :: "decoder \<Rightarrow> checksum \<Rightarrow> byte list \<Rightarrow> decoded" where
  "decode dec crc buf =
     (if length buf < header_len then Incomplete
      else let len = from_le_bytes (take 4 buf);
               c = from_le_bytes (take 4 (drop 4 buf))
           in if len = 0 \<or> len > max_record_len then Incomplete
              else let end_at = header_len + len in
                if length buf < end_at then Incomplete
                else let payload = take len (drop header_len buf) in
                  if crc payload \<noteq> c then Incomplete
                  else (case dec payload of
                          Inr record \<Rightarrow> Record record end_at
                        | Inl e \<Rightarrow> Malformed e))"

section \<open>Frames\<close>

definition codec_ok :: "encoder \<Rightarrow> decoder \<Rightarrow> checksum \<Rightarrow> bool" where
  "codec_ok enc dec crc \<longleftrightarrow>
     (\<forall>r p. enc r = Some p \<longrightarrow> dec p = Inr r \<and> 0 < length p \<and> length p \<le> max_record_len) \<and>
     (\<forall>p. u32_ok (crc p))"

definition frame_of :: "checksum \<Rightarrow> byte list \<Rightarrow> byte list" where
  "frame_of crc payload = to_le_bytes (length payload) @ to_le_bytes (crc payload) @ payload"

definition payload_ok :: "byte list \<Rightarrow> bool" where
  "payload_ok p \<longleftrightarrow> 0 < length p \<and> length p \<le> max_record_len"

lemma payload_u32: "payload_ok p \<Longrightarrow> u32_ok (length p)"
  by (simp add: payload_ok_def max_record_len_def u32_ok_def)

lemma codec_okD:
  "codec_ok enc dec crc \<Longrightarrow> enc r = Some p \<Longrightarrow> dec p = Inr r \<and> payload_ok p"
  "codec_ok enc dec crc \<Longrightarrow> u32_ok (crc q)"
  by (auto simp: codec_ok_def payload_ok_def)

lemma encode_into_frame:
  assumes "enc r = Some p" and "u32_ok (length p)"
  shows "encode_into enc crc r out = Inr (out @ frame_of crc p)"
proof -
  have z: "replicate header_len (0 :: byte) = replicate 4 0 @ replicate 4 0"
    by (simp add: header_len_def flip: replicate_add)
  show ?thesis
    using assms by (simp add: encode_into_def z frame_of_def header_len_def)
qed

lemma length_frame [simp]: "length (frame_of crc p) = header_len + length p"
  by (simp add: frame_of_def header_len_def)

text \<open>The header of anything that starts with a frame's header.\<close>

lemma decode_header:
  assumes "take 8 buf = to_le_bytes n @ to_le_bytes c" and "u32_ok n" and "u32_ok c"
  shows "decode dec crc buf =
     (if n = 0 \<or> n > max_record_len \<or> length buf < header_len + n \<or>
         crc (take n (drop header_len buf)) \<noteq> c then Incomplete
      else case dec (take n (drop header_len buf)) of
             Inr record \<Rightarrow> Record record (header_len + n) | Inl e \<Rightarrow> Malformed e)"
proof -
  have len: "8 \<le> length buf"
  proof (rule ccontr)
    assume "\<not> 8 \<le> length buf"
    then show False using arg_cong [OF assms(1), of length] by simp
  qed
  have "take 4 buf = take 4 (take 8 buf)" by (simp add: take_take)
  also have "\<dots> = to_le_bytes n" by (simp add: assms(1))
  finally have a: "take 4 buf = to_le_bytes n" .
  have "take 4 (drop 4 buf) = drop 4 (take 8 buf)" by (simp add: take_drop)
  also have "\<dots> = to_le_bytes c" by (simp add: assms(1))
  finally have b: "take 4 (drop 4 buf) = to_le_bytes c" .
  show ?thesis
    using len by (simp add: decode_def Let_def a b from_to_le_bytes assms(2,3) header_len_def
        split: sum.splits)
qed

lemma take_frame_header: "take 8 (frame_of crc p @ rest) = to_le_bytes (length p) @ to_le_bytes (crc p)"
  by (simp add: frame_of_def)

lemma decode_frame:
  assumes "codec_ok enc dec crc" and "enc r = Some p"
  shows "decode dec crc (frame_of crc p @ rest) = Record r (header_len + length p)"
proof -
  have p: "dec p = Inr r" "payload_ok p" and c: "u32_ok (crc p)"
    using codec_okD [OF assms(1)] assms(2) by auto
  have "take (length p) (drop header_len (frame_of crc p @ rest)) = p"
    by (simp add: frame_of_def header_len_def)
  with decode_header [OF take_frame_header [of crc p rest] payload_u32 [OF p(2)] c, of dec crc] p
  show ?thesis by (simp add: payload_ok_def)
qed

text \<open>A frame cut anywhere short of its end is never read as a record, nor as a malformed one.\<close>

lemma decode_torn:
  assumes "payload_ok p" and "u32_ok (crc p)" and "strict_prefix torn (frame_of crc p)"
  shows "decode dec crc torn = Incomplete"
proof (cases "length torn < 8")
  case True
  then show ?thesis by (simp add: decode_def header_len_def)
next
  case False
  obtain rest where rest: "frame_of crc p = torn @ rest" "rest \<noteq> []"
    using assms(3) by (auto simp: strict_prefix_def prefix_def)
  have "take 8 torn = take 8 (frame_of crc p @ [])" using False by (simp add: rest(1))
  then have h: "take 8 torn = to_le_bytes (length p) @ to_le_bytes (crc p)"
    by (simp only: take_frame_header)
  have "length torn < header_len + length p"
    using arg_cong [OF rest(1), of length] rest(2) by (cases rest) simp_all
  then show ?thesis
    using decode_header [OF h payload_u32 [OF assms(1)] assms(2), of dec crc] by simp
qed

text \<open>What encoding leaves in the buffer: the old contents and one frame.\<close>

lemma encoded_frame:
  assumes "codec_ok enc dec crc" and "encode_into enc crc r out = Inr buf"
  shows "\<exists>p. enc r = Some p \<and> payload_ok p \<and> u32_ok (crc p) \<and> buf = out @ frame_of crc p"
proof -
  obtain p where p: "enc r = Some p" using assms(2) by (auto simp: encode_into_def Let_def split: option.splits)
  have ok: "payload_ok p" "u32_ok (crc p)" using codec_okD [OF assms(1)] p by blast+
  from encode_into_frame [of enc r p crc out, OF p payload_u32 [OF ok(1)]] assms(2) p ok show ?thesis by auto
qed

end
