(* ===== verification/Wal_Log.thy ===== *)
theory Wal_Log
  imports Wal_Segment
begin

text \<open>
  The log, \<open>crates/auction-wal/src/wal.rs\<close>: open, append, sync, rotate, read back.

  A log directory is its manifest and its segment files in index order (\<open>log_dir\<close>), which is what \<open>segments\<close> lists; \<open>read_all\<close>
  and \<open>open_log\<close> start from that list, and \<open>Wal_Files\<close> joins them with the listing of a directory. The files
  hold what the operating system has been given; \<open>synced\<close> is how much of the active file is
  known to be on stable storage. A power loss leaves some prefix of the active file that is not
  shorter than that (\<open>crash\<close>): sealed segments were synced when they were sealed. What the system
  calls of an operation did is an argument of it; a failure is the error \<open>Io\<close>, and the log it leaves
  behind is the other half of the result. The manifest is written by \<open>serde_json\<close>, which is an argument.

  The theorems: the log reads back exactly what was appended; after a crash at any point it
  reads back a prefix that contains every record the log called durable; reopening a crashed log cuts
  the torn tail off, so what is appended next is read back as well.
\<close>

section \<open>State\<close>

record log_dir =
  manifest :: "byte list option"
  files :: "(nat \<times> byte list) list"

record wal =
  sealed :: "(nat \<times> byte list) list"
  active :: "byte list"
  active_file :: nat
  synced :: nat
  active_index :: nat
  active_bytes :: u64
  appended :: "seq option"
  durable :: "seq option"
  segment_bytes :: u64

text \<open>
  \<open>active\<close> is everything written to the \<open>BufWriter\<close>, \<open>active_file\<close> the index of the segment it writes to. That is
  \<open>active_index\<close>, except after \<open>rotate\<close> failed to create the next segment.
\<close>

text \<open>What a power loss leaves of the files when \<open>n\<close> bytes of the active one survive.\<close>

definition crash :: "nat \<Rightarrow> wal \<Rightarrow> (nat \<times> byte list) list" where
  "crash n w = sealed w @ [(active_file w, take n (active w))]"

definition disk_files :: "wal \<Rightarrow> (nat \<times> byte list) list" where
  "disk_files w = sealed w @ [(active_file w, active w)]"

section \<open>Appending\<close>

text \<open>
  \<open>rotate\<close> can fail when it flushes and syncs the old segment, or when it creates the new one, by then with the
  index already advanced.
\<close>

datatype rotate_io = RotateDone | SealFails | OpenFails

primrec rotate :: "rotate_io \<Rightarrow> wal \<Rightarrow> wal \<times> wal_error option" where
  "rotate RotateDone w =
     (w\<lparr>sealed := sealed w @ [(active_file w, active w)], active := [], active_file := active_index w + 1,
        synced := 0, active_index := active_index w + 1, active_bytes := 0\<rparr>, None)"
| "rotate SealFails w = (w, Some Io)"
| "rotate OpenFails w = (w\<lparr>synced := length (active w), active_index := active_index w + 1\<rparr>, Some Io)"

text \<open>A \<open>write_all\<close> that fails may have written any number of bytes of the frame.\<close>

datatype write_io = Written | CutAt nat

type_synonym append_io = "rotate_io \<times> write_io"

abbreviation append_fine :: append_io where
  "append_fine \<equiv> (RotateDone, Written)"

definition append_checked ::
  "encoder \<Rightarrow> checksum \<Rightarrow> append_io \<Rightarrow> log_record \<Rightarrow> wal \<Rightarrow> wal \<times> wal_error option" where
  "append_checked enc crc io record w =
     (case encode_into enc crc record [] of
        Inl e \<Rightarrow> (w, Some e)
      | Inr scratch \<Rightarrow>
          (case (if active_bytes w > 0 \<and> u64_wrap (active_bytes w + length scratch) > segment_bytes w
                 then rotate (fst io) w else (w, None)) of
             (w, Some e) \<Rightarrow> (w, Some e)
           | (w, None) \<Rightarrow>
               (case snd io of
                  CutAt n \<Rightarrow> (w\<lparr>active := active w @ take n scratch\<rparr>, Some Io)
                | Written \<Rightarrow>
                    (w\<lparr>active := active w @ scratch,
                       active_bytes := u64_wrap (active_bytes w + length scratch),
                       appended := Some (lr_seq record)\<rparr>, None))))"

definition wal_append ::
  "encoder \<Rightarrow> checksum \<Rightarrow> append_io \<Rightarrow> log_record \<Rightarrow> wal \<Rightarrow> wal \<times> wal_error option" where
  "wal_append enc crc io record w =
     (case appended w of
        None \<Rightarrow> append_checked enc crc io record w
      | Some prev \<Rightarrow>
          (case seq_next prev of
             None \<Rightarrow> (w, Some Aborted)
           | Some next \<Rightarrow>
               if lr_seq record \<noteq> next then (w, Some (SequenceGap prev (lr_seq record)))
               else append_checked enc crc io record w))"

definition wal_sync :: "bool \<Rightarrow> wal \<Rightarrow> wal_error + (wal \<times> seq option)" where
  "wal_sync io w =
     (if \<not> io then Inl Io
      else let w = w\<lparr>synced := length (active w), durable := appended w\<rparr> in Inr (w, durable w))"

section \<open>Reading back\<close>

text \<open>The inner loop of \<open>read_all\<close>: one segment's records onto those read before.\<close>

fun push_records :: "log_record list \<Rightarrow> log_record list \<Rightarrow> wal_error + log_record list" where
  "push_records all [] = Inr all"
| "push_records all (record # rest) =
     (if all = [] then push_records (all @ [record]) rest
      else (case seq_next (lr_seq (last all)) of
              None \<Rightarrow> Inl Aborted
            | Some next \<Rightarrow>
                if lr_seq record \<noteq> next then Inl (SequenceGap (lr_seq (last all)) (lr_seq record))
                else push_records (all @ [record]) rest))"

fun read_all_from ::
  "decoder \<Rightarrow> checksum \<Rightarrow> log_record list \<Rightarrow> (nat \<times> byte list) list \<Rightarrow> wal_error + log_record list" where
  "read_all_from dec crc all [] = Inr all"
| "read_all_from dec crc all (f # fs) =
     (case read_segment dec crc (snd f) of
        Inl e \<Rightarrow> Inl e
      | Inr contents \<Rightarrow>
          if sc_trailing_bytes contents > 0 \<and> fs \<noteq> []
          then Inl (Corrupt 0 (show_nat (sc_trailing_bytes contents) @ '' unreadable trailing bytes in a sealed segment''))
          else (case push_records all (sc_records contents) of
                  Inl e \<Rightarrow> Inl e
                | Inr all' \<Rightarrow> read_all_from dec crc all' fs))"

definition read_all :: "decoder \<Rightarrow> checksum \<Rightarrow> (nat \<times> byte list) list \<Rightarrow> wal_error + log_record list" where
  "read_all dec crc segs = read_all_from dec crc [] segs"

definition last_seq_in :: "decoder \<Rightarrow> checksum \<Rightarrow> (nat \<times> byte list) list \<Rightarrow> wal_error + seq option" where
  "last_seq_in dec crc segs =
     (case read_all dec crc segs of
        Inl e \<Rightarrow> Inl e
      | Inr rs \<Rightarrow> Inr (if rs = [] then None else Some (lr_seq (last rs))))"

definition truncate_torn_tail :: "decoder \<Rightarrow> checksum \<Rightarrow> byte list \<Rightarrow> wal_error + byte list" where
  "truncate_torn_tail dec crc content =
     (case read_segment dec crc content of
        Inl e \<Rightarrow> Inl e
      | Inr contents \<Rightarrow>
          if sc_trailing_bytes contents = 0 then Inr content
          else Inr (take (length content - sc_trailing_bytes contents) content))"

section \<open>Opening\<close>

type_synonym json_reader = "byte list \<Rightarrow> string + auction_config"
type_synonym json_writer = "auction_config \<Rightarrow> byte list"

definition read_manifest :: "json_reader \<Rightarrow> log_dir \<Rightarrow> wal_error + auction_config" where
  "read_manifest from_json d =
     (case manifest d of
        None \<Rightarrow> Inl NoManifest
      | Some bytes \<Rightarrow> (case from_json bytes of Inl e \<Rightarrow> Inl (Corrupt 0 e) | Inr c \<Rightarrow> Inr c))"

definition write_manifest :: "json_writer \<Rightarrow> auction_config \<Rightarrow> log_dir \<Rightarrow> log_dir" where
  "write_manifest to_json c d = d\<lparr>manifest := Some (to_json c)\<rparr>"

text \<open>\<open>Wal::open\<close>: the directory afterwards, and the log.\<close>

definition check_manifest ::
  "json_reader \<Rightarrow> json_writer \<Rightarrow> auction_config \<Rightarrow> log_dir \<Rightarrow> wal_error + log_dir" where
  "check_manifest from_json to_json c d =
     (case read_manifest from_json d of
        Inr existing \<Rightarrow> if existing = c then Inr d else Inl ManifestMismatch
      | Inl NoManifest \<Rightarrow> Inr (write_manifest to_json c d)
      | Inl e \<Rightarrow> Inl e)"

text \<open>
  The rest of \<open>Wal::open\<close>. \<open>on_disk\<close> is how much of the last file is on stable storage when the log
  is opened: all of it after a power loss, perhaps less after a mere process crash. Only cutting off a
  torn tail syncs the file.
\<close>

definition open_log ::
  "decoder \<Rightarrow> checksum \<Rightarrow> u64 \<Rightarrow> nat \<Rightarrow> (nat \<times> byte list) list \<Rightarrow> wal_error + wal" where
  "open_log dec crc limit on_disk existing =
     (let index = (if existing = [] then 0 else fst (last existing));
          content = (if existing = [] then [] else snd (last existing))
      in case last_seq_in dec crc existing of
           Inl e \<Rightarrow> Inl e
         | Inr found \<Rightarrow>
             (case truncate_torn_tail dec crc content of
                Inl e \<Rightarrow> Inl e
              | Inr kept \<Rightarrow>
                  Inr \<lparr>sealed = butlast existing, active = kept, active_file = index,
                       synced = (if kept = content then min on_disk (length kept) else length kept),
                       active_index = index,
                       active_bytes = length kept, appended = found, durable = found,
                       segment_bytes = limit\<rparr>))"

definition wal_open ::
  "json_reader \<Rightarrow> json_writer \<Rightarrow> decoder \<Rightarrow> checksum \<Rightarrow> auction_config \<Rightarrow> u64 \<Rightarrow> nat \<Rightarrow> log_dir \<Rightarrow>
   wal_error + (log_dir \<times> wal)" where
  "wal_open from_json to_json dec crc c limit on_disk d =
     (case check_manifest from_json to_json c d of
        Inl e \<Rightarrow> Inl e
      | Inr d \<Rightarrow>
          (case open_log dec crc limit on_disk (files d) of
             Inl e \<Rightarrow> Inl e
           | Inr w \<Rightarrow> Inr (d\<lparr>files := disk_files w\<rparr>, w)))"


section \<open>What a log holds\<close>

fun gapless :: "log_record list \<Rightarrow> bool" where
  "gapless [] \<longleftrightarrow> True"
| "gapless [r] \<longleftrightarrow> True"
| "gapless (r # r' # rs) \<longleftrightarrow> seq_next (lr_seq r) = Some (lr_seq r') \<and> gapless (r' # rs)"

definition last_seq_of :: "log_record list \<Rightarrow> seq option" where
  "last_seq_of rs = (if rs = [] then None else Some (lr_seq (last rs)))"

lemma gapless_append:
  "gapless (xs @ ys) \<longleftrightarrow> gapless xs \<and> gapless ys \<and>
     (xs \<noteq> [] \<longrightarrow> ys \<noteq> [] \<longrightarrow> seq_next (lr_seq (last xs)) = Some (lr_seq (hd ys)))"
  by (induction xs rule: gapless.induct) (cases ys, auto)+

lemma gapless_snoc:
  "gapless rs \<Longrightarrow> last_seq_of rs = None \<or> seq_next (the (last_seq_of rs)) = Some (lr_seq r) \<Longrightarrow> gapless (rs @ [r])"
  by (simp add: gapless_append last_seq_of_def split: if_splits)

lemma gapless_take: "gapless rs \<Longrightarrow> gapless (take k rs)"
  by (metis append_take_drop_id gapless_append)

lemma push_records_gapless: "gapless (all @ rs) \<Longrightarrow> push_records all rs = Inr (all @ rs)"
proof (induction rs arbitrary: all)
  case (Cons r rs)
  have "gapless ((all @ [r]) @ rs)" using Cons.prems by simp
  moreover have "all \<noteq> [] \<Longrightarrow> seq_next (lr_seq (last all)) = Some (lr_seq r)"
    using Cons.prems by (simp add: gapless_append)
  ultimately show ?case using Cons.IH [of "all @ [r]"] by (cases "all = []") simp_all
qed simp

lemma seq_next_less: "seq_next a = Some b \<Longrightarrow> b = a + 1"
  by (auto simp: seq_next_def u64_checked_add_def split: if_splits)

lemma gapless_sorted: "gapless rs \<Longrightarrow> sorted_wrt (<) (map lr_seq rs)"
proof (induction rs rule: gapless.induct)
  case (3 r r' rs)
  then have "lr_seq r < lr_seq r'" using seq_next_less by fastforce
  with 3 show ?case by fastforce
qed simp_all

lemma read_all_chunks:
  assumes "codec_ok enc dec crc" and "list_all (encodable enc) (concat chunks @ act)"
    and "gapless (all @ concat chunks @ act)" and "map snd fs = map (frames enc crc) chunks"
    and "torn = [] \<or> decode dec crc torn = Incomplete"
  shows "read_all_from dec crc all (fs @ [(i, frames enc crc act @ torn)]) = Inr (all @ concat chunks @ act)"
  using assms(2-4)
proof (induction chunks arbitrary: all fs)
  case Nil
  then show ?case
    using read_segment_frames [OF assms(1) _ assms(5), of act] push_records_gapless [of all act] by simp
next
  case (Cons c chunks)
  obtain f fs' where fs: "fs = f # fs'" "snd f = frames enc crc c" "map snd fs' = map (frames enc crc) chunks"
    using Cons.prems(3) by (cases fs) auto
  have "push_records all c = Inr (all @ c)"
    using Cons.prems(2) by (intro push_records_gapless) (simp add: gapless_append)
  moreover have "read_segment dec crc (frames enc crc c) = Inr \<lparr>sc_records = c, sc_trailing_bytes = 0\<rparr>"
    using read_segment_frames [OF assms(1), of c "[]"] Cons.prems(1) by simp
  ultimately show ?case
    using Cons.IH [of "all @ c" fs'] Cons.prems(1,2) fs by simp
qed

text \<open>
  The log \<open>w\<close> holds the records of \<open>chunks\<close> in its sealed files and \<open>act\<close> in its active one, of
  which the first \<open>m\<close> are on stable storage; nothing beyond them is called durable.
\<close>

fun not_after :: "seq \<Rightarrow> seq option \<Rightarrow> bool" where
  "not_after d None \<longleftrightarrow> False"
| "not_after d (Some a) \<longleftrightarrow> d \<le> a"

definition wal_holds ::
  "encoder \<Rightarrow> checksum \<Rightarrow> wal \<Rightarrow> log_record list list \<Rightarrow> log_record list \<Rightarrow> nat \<Rightarrow> bool" where
  "wal_holds enc crc w chunks act m \<longleftrightarrow>
     map snd (sealed w) = map (frames enc crc) chunks \<and> active w = frames enc crc act \<and>
     list_all (encodable enc) (concat chunks @ act) \<and> gapless (concat chunks @ act) \<and>
     appended w = last_seq_of (concat chunks @ act) \<and>
     m \<le> length act \<and> length (frames enc crc (take m act)) \<le> synced w \<and> synced w \<le> length (active w) \<and>
     (\<forall>d. durable w = Some d \<longrightarrow> not_after d (appended w) \<and> (\<forall>r \<in> set (drop m act). d < lr_seq r))"

lemma holds_read_all:
  assumes "codec_ok enc dec crc" and "wal_holds enc crc w chunks act m"
  shows "read_all dec crc (disk_files w) = Inr (concat chunks @ act)"
  using read_all_chunks [OF assms(1), of chunks act "[]" "sealed w" "[]"] assms(2)
  by (simp add: read_all_def disk_files_def wal_holds_def)

lemma holds_rotate:
  assumes "wal_holds enc crc w chunks act m" and "rotate io w = (w', None)"
  shows "wal_holds enc crc w' (chunks @ [act]) [] 0 \<and> appended w' = appended w"
  using assms by (cases io) (auto simp: wal_holds_def)

lemma holds_write:
  assumes "wal_holds enc crc w chunks act m" and "enc r = Some p"
    and "appended w = None \<or> seq_next (the (appended w)) = Some (lr_seq r)"
  shows "wal_holds enc crc (w\<lparr>active := active w @ frame_of crc p, active_bytes := b,
      appended := Some (lr_seq r)\<rparr>) chunks (act @ [r]) m"
proof -
  let ?rs = "concat chunks @ act"
  have h: "map snd (sealed w) = map (frames enc crc) chunks" "active w = frames enc crc act"
    "list_all (encodable enc) ?rs" "gapless ?rs" "appended w = last_seq_of ?rs" "m \<le> length act"
    "length (frames enc crc (take m act)) \<le> synced w" "synced w \<le> length (active w)"
    and d: "\<And>d. durable w = Some d \<Longrightarrow> not_after d (appended w) \<and> (\<forall>r \<in> set (drop m act). d < lr_seq r)"
    using assms(1) by (auto simp: wal_holds_def)
  have "gapless (?rs @ [r])"
    using h(4,5) assms(3) by (intro gapless_snoc) simp_all
  moreover have "d < lr_seq r \<and> d \<le> lr_seq r" if "durable w = Some d" for d
    using d [OF that] assms(3) seq_next_less by (cases "appended w") fastforce+
  ultimately show ?thesis
    using h d assms(2) by (auto simp: wal_holds_def frame_def encodable_def last_seq_of_def)
qed

lemma holds_append:
  assumes "codec_ok enc dec crc" and "wal_holds enc crc w chunks act m" and "wal_append enc crc io r w = (w', None)"
  obtains chunks' act' m' where "wal_holds enc crc w' chunks' act' m'"
    "concat chunks' @ act' = (concat chunks @ act) @ [r]"
proof -
  have c: "append_checked enc crc io r w = (w', None)"
    and n: "appended w = None \<or> seq_next (the (appended w)) = Some (lr_seq r)"
    using assms(3) by (auto simp: wal_append_def split: option.splits if_splits)
  obtain p where p: "enc r = Some p"
    using c by (cases "enc r") (auto simp: append_checked_def encode_into_def)
  have e: "encode_into enc crc r [] = Inr (frame_of crc p)"
    using encode_into_frame [of enc r p crc "[]"] payload_u32 [of p] codec_okD(1) [OF assms(1) p] p by simp
  show ?thesis
  proof (cases "active_bytes w > 0 \<and> u64_wrap (active_bytes w + length (frame_of crc p)) > segment_bytes w")
    case True
    obtain w1 where w1: "rotate (fst io) w = (w1, None)"
      and w': "w' = w1\<lparr>active := active w1 @ frame_of crc p,
          active_bytes := u64_wrap (active_bytes w1 + length (frame_of crc p)), appended := Some (lr_seq r)\<rparr>"
      using c e True by (auto simp: append_checked_def split: prod.splits option.splits write_io.splits)
    with holds_write [OF conjunct1 [OF holds_rotate [OF assms(2) w1]] p] holds_rotate [OF assms(2) w1] n
    show ?thesis by (intro that [of "chunks @ [act]" "[r]" 0]) simp_all
  next
    case False
    then have "w' = w\<lparr>active := active w @ frame_of crc p,
          active_bytes := u64_wrap (active_bytes w + length (frame_of crc p)), appended := Some (lr_seq r)\<rparr>"
      using c e by (auto simp: append_checked_def split: write_io.splits)
    with holds_write [OF assms(2) p n] show ?thesis by (intro that [of chunks "act @ [r]" m]) simp_all
  qed
qed

lemma holds_sync:
  assumes "wal_holds enc crc w chunks act m" and "wal_sync io w = Inr (w', d)"
  shows "wal_holds enc crc w' chunks act (length act) \<and> d = last_seq_of (concat chunks @ act)"
proof -
  have "w' = w\<lparr>synced := length (active w), durable := appended w\<rparr>" and "d = appended w"
    using assms(2) by (auto simp: wal_sync_def split: if_splits)
  then show ?thesis using assms(1) by (simp add: wal_holds_def)
qed


text \<open>A power loss, and the log read back and reopened after it.\<close>

lemma holds_crash:
  assumes "codec_ok enc dec crc" and "wal_holds enc crc w chunks act m" and "synced w \<le> n"
  obtains k torn where "m \<le> k" "k \<le> length act"
    "take n (active w) = frames enc crc (take k act) @ torn"
    "torn = [] \<or> decode dec crc torn = Incomplete"
    "read_all dec crc (crash n w) = Inr (concat chunks @ take k act)"
proof -
  have h: "map snd (sealed w) = map (frames enc crc) chunks" "active w = frames enc crc act"
    "list_all (encodable enc) (concat chunks @ act)" "gapless (concat chunks @ act)"
    "m \<le> length act" "length (frames enc crc (take m act)) \<le> n"
    using assms(2,3) by (auto simp: wal_holds_def)
  obtain k torn where k: "k \<le> length act" "take n (frames enc crc act) = frames enc crc (take k act) @ torn"
    "torn = [] \<or> decode dec crc torn = Incomplete"
    "\<And>j. j \<le> length act \<Longrightarrow> length (frames enc crc (take j act)) \<le> n \<Longrightarrow> j \<le> k"
    using take_frames [OF assms(1), of act n] h(3) by auto
  have "list_all (encodable enc) (concat chunks @ take k act)"
    using h(3) by (auto simp: list_all_iff dest: in_set_takeD)
  moreover have "gapless ([] @ concat chunks @ take k act)"
    using gapless_take [OF h(4), of "length (concat chunks) + k"] by simp
  ultimately have "read_all dec crc (crash n w) = Inr (concat chunks @ take k act)"
    using read_all_chunks [OF assms(1) _ _ h(1) k(3), of "take k act" "[]" "active_file w"]
    by (simp add: read_all_def crash_def h(2) k(2))
  then show ?thesis using that k h(2) k(4) [OF h(5,6)] by simp
qed

lemma holds_reopen:
  assumes "codec_ok enc dec crc" and "wal_holds enc crc w chunks act m" and "synced w \<le> n"
  obtains w' k where "open_log dec crc limit (length (take n (active w))) (crash n w) = Inr w'"
    "m \<le> k" "k \<le> length act" "wal_holds enc crc w' chunks (take k act) k"
    "read_all dec crc (crash n w) = Inr (concat chunks @ take k act)"
    "durable w' = last_seq_of (concat chunks @ take k act)"
proof -
  obtain k torn where k: "m \<le> k" "k \<le> length act"
    "take n (active w) = frames enc crc (take k act) @ torn"
    "torn = [] \<or> decode dec crc torn = Incomplete"
    "read_all dec crc (crash n w) = Inr (concat chunks @ take k act)"
    using holds_crash [OF assms] by blast
  have h: "map snd (sealed w) = map (frames enc crc) chunks"
    "list_all (encodable enc) (concat chunks @ act)" "gapless (concat chunks @ act)"
    using assms(2) by (auto simp: wal_holds_def)
  let ?rs = "concat chunks @ take k act" and ?kept = "frames enc crc (take k act)"
  have enc: "list_all (encodable enc) ?rs"
    using h(2) by (auto simp: list_all_iff dest: in_set_takeD)
  have gap: "gapless ?rs" using gapless_take [OF h(3), of "length (concat chunks) + k"] by simp
  have cut: "truncate_torn_tail dec crc (take n (active w)) = Inr ?kept"
    using read_segment_frames [OF assms(1) _ k(4), of "take k act"] enc by (simp add: truncate_torn_tail_def k(3))
  have last: "last_seq_in dec crc (crash n w) = Inr (last_seq_of ?rs)"
    by (simp add: last_seq_in_def k(5) last_seq_of_def)
  define w' where "w' = \<lparr>sealed = sealed w, active = ?kept, active_file = active_file w, synced = length ?kept, active_index = active_file w,
     active_bytes = length ?kept, appended = last_seq_of ?rs, durable = last_seq_of ?rs, segment_bytes = limit\<rparr>"
  have "open_log dec crc limit (length (take n (active w))) (crash n w) = Inr w'"
    using cut last k(3) by (simp add: open_log_def crash_def w'_def Let_def)
  moreover have "wal_holds enc crc w' chunks (take k act) k"
    using h(1) enc gap k(2) by (auto simp: wal_holds_def w'_def)
  ultimately show ?thesis using that k by (simp add: w'_def)
qed

section \<open>Histories\<close>

text \<open>
  Every log that can arise: a new one, then appends, syncs, and restarts after a power loss. The list
  is what was appended and, after a restart, what was read back.
\<close>

inductive log_history :: "encoder \<Rightarrow> decoder \<Rightarrow> checksum \<Rightarrow> wal \<Rightarrow> log_record list \<Rightarrow> bool"
  for enc dec crc where
  log_new: "open_log dec crc limit 0 [] = Inr w \<Longrightarrow> log_history enc dec crc w []"
| log_append: "log_history enc dec crc w rs \<Longrightarrow> wal_append enc crc io r w = (w', None) \<Longrightarrow>
    log_history enc dec crc w' (rs @ [r])"
| log_sync: "log_history enc dec crc w rs \<Longrightarrow> wal_sync io w = Inr (w', d) \<Longrightarrow> log_history enc dec crc w' rs"
| log_restart: "log_history enc dec crc w rs \<Longrightarrow> synced w \<le> n \<Longrightarrow>
    read_all dec crc (crash n w) = Inr rs' \<Longrightarrow>
    open_log dec crc limit (length (take n (active w))) (crash n w) = Inr w' \<Longrightarrow>
    log_history enc dec crc w' rs'"

lemma history_holds:
  assumes "log_history enc dec crc w rs" and "codec_ok enc dec crc"
  shows "\<exists>chunks act m. wal_holds enc crc w chunks act m \<and> rs = concat chunks @ act"
  using assms(1)
proof (induction rule: log_history.induct)
  case (log_new limit w)
  have "read_segment dec crc [] = Inr \<lparr>sc_records = [], sc_trailing_bytes = 0\<rparr>"
    by (simp add: read_segment_def read_from.simps)
  then have "wal_holds enc crc w [] [] 0"
    using log_new
    by (auto simp: open_log_def last_seq_in_def read_all_def truncate_torn_tail_def wal_holds_def last_seq_of_def)
  then show ?case by fastforce
next
  case (log_append w rs io r w')
  then show ?case using holds_append [OF assms(2)] by metis
next
  case (log_sync w rs io w' d)
  then show ?case using holds_sync by blast
next
  case (log_restart w rs n rs' limit w')
  then obtain chunks act m where h: "wal_holds enc crc w chunks act m" by blast
  obtain w1 k where k: "open_log dec crc limit (length (take n (active w))) (crash n w) = Inr w1"
    "wal_holds enc crc w1 chunks (take k act) k" "read_all dec crc (crash n w) = Inr (concat chunks @ take k act)"
    by (rule holds_reopen [OF assms(2) h log_restart(2)])
  then show ?case using log_restart(3,4) by auto
qed


lemma history_reads_back:
  assumes "log_history enc dec crc w rs" and "codec_ok enc dec crc"
  shows "read_all dec crc (disk_files w) = Inr rs" and "gapless rs" and "appended w = last_seq_of rs"
  using history_holds [OF assms] holds_read_all [OF assms(2)] by (auto simp: wal_holds_def)

lemma history_durable_le:
  assumes "log_history enc dec crc w rs" and "codec_ok enc dec crc" and "durable w = Some d"
  shows "not_after d (appended w)"
  using history_holds [OF assms(1,2)] assms(3) by (auto simp: wal_holds_def)

lemma history_crash:
  assumes "log_history enc dec crc w rs" and "codec_ok enc dec crc" and "synced w \<le> n"
  shows "\<exists>k. read_all dec crc (crash n w) = Inr (take k rs) \<and>
     (\<forall>d. durable w = Some d \<longrightarrow> (\<forall>r \<in> set rs. lr_seq r \<le> d \<longrightarrow> r \<in> set (take k rs))) \<and>
     (\<forall>limit. \<exists>w'. open_log dec crc limit (length (take n (active w))) (crash n w) = Inr w' \<and>
        log_history enc dec crc w' (take k rs) \<and> durable w' = last_seq_of (take k rs))"
proof -
  obtain chunks act m where h: "wal_holds enc crc w chunks act m" and rs: "rs = concat chunks @ act"
    using history_holds [OF assms(1,2)] by blast
  obtain k torn where k: "m \<le> k" "k \<le> length act" "read_all dec crc (crash n w) = Inr (concat chunks @ take k act)"
    by (rule holds_crash [OF assms(2) h assms(3)])
  let ?k = "length (concat chunks) + k"
  have kept: "take ?k rs = concat chunks @ take k act" by (simp add: rs)
  have "r \<in> set (take ?k rs)" if "durable w = Some d" "r \<in> set rs" "lr_seq r \<le> d" for d r
  proof -
    have "r \<notin> set (drop m act)" using h that by (auto simp: wal_holds_def)
    moreover have "r \<in> set (concat chunks) \<or> r \<in> set (take m act) \<or> r \<in> set (drop m act)"
      using that(2) unfolding rs by (metis Un_iff append_take_drop_id set_append)
    ultimately show ?thesis unfolding kept using set_take_subset_set_take [OF k(1), of act] by auto
  qed
  moreover have "\<exists>w'. open_log dec crc limit (length (take n (active w))) (crash n w) = Inr w' \<and>
      log_history enc dec crc w' (take ?k rs) \<and> durable w' = last_seq_of (take ?k rs)" for limit
  proof -
    obtain w' k' where w': "open_log dec crc limit (length (take n (active w))) (crash n w) = Inr w'"
      "read_all dec crc (crash n w) = Inr (concat chunks @ take k' act)"
      "durable w' = last_seq_of (concat chunks @ take k' act)"
      by (rule holds_reopen [OF assms(2) h assms(3)])
    have same: "concat chunks @ take k' act = take ?k rs" using w'(2) k(3) kept by simp
    then show ?thesis
      using w' log_restart [OF assms(1,3) w'(2) w'(1)] unfolding same by blast
  qed
  ultimately show ?thesis using k(3) kept by (intro exI [of _ ?k]) auto
qed

section \<open>Failed writes\<close>

text \<open>
  Whatever a power loss can leave of \<open>w\<close>, it can leave of \<open>w0\<close>. A log that a failed append has left behind is
  covered by the log before the append, or by the log the append would have given.
\<close>

definition crash_covered :: "wal \<Rightarrow> wal \<Rightarrow> bool" where
  "crash_covered w w0 \<longleftrightarrow> (\<forall>n \<ge> synced w. \<exists>n' \<ge> synced w0. crash n w = crash n' w0)"

lemma crash_covered_refl [simp]: "crash_covered w w"
  by (auto simp: crash_covered_def)

lemma cut_write_covered:
  assumes "synced w \<le> length (active w)"
  shows "crash_covered (w\<lparr>active := active w @ take j xs\<rparr>) (w\<lparr>active := active w @ xs, active_bytes := b, appended := a\<rparr>)"
  unfolding crash_covered_def
proof (intro allI impI)
  fix n assume n: "synced (w\<lparr>active := active w @ take j xs\<rparr>) \<le> n"
  let ?n = "min n (length (active w) + j)"
  have "take n (active w @ take j xs) = take ?n (active w @ xs)"
    by (cases "n \<le> length (active w) + j") (auto simp: min_def)
  then show "\<exists>n' \<ge> synced (w\<lparr>active := active w @ xs, active_bytes := b, appended := a\<rparr>).
      crash n (w\<lparr>active := active w @ take j xs\<rparr>) = crash n' (w\<lparr>active := active w @ xs, active_bytes := b, appended := a\<rparr>)"
    using assms n by (intro exI [of _ ?n]) (simp add: crash_def)
qed

lemma append_failed:
  assumes "wal_append enc crc io r w = (w', Some e)" and "synced w \<le> length (active w)"
  shows "durable w' = durable w \<and> (crash_covered w' w \<or>
     (\<exists>w1. wal_append enc crc append_fine r w = (w1, None) \<and> durable w1 = durable w \<and> crash_covered w' w1))"
proof (cases "\<exists>xs. append_checked enc crc io r w = (w', Some e) \<and> encode_into enc crc r [] = Inr xs \<and>
    wal_append enc crc append_fine r w = append_checked enc crc append_fine r w")
  case False
  then have "w' = w"
    using assms(1) by (auto simp: wal_append_def append_checked_def split: option.splits if_splits sum.splits)
  then show ?thesis by simp
next
  case True
  then obtain xs where c: "append_checked enc crc io r w = (w', Some e)" "encode_into enc crc r [] = Inr xs"
    "wal_append enc crc append_fine r w = append_checked enc crc append_fine r w" by blast
  let ?roll = "active_bytes w > 0 \<and> u64_wrap (active_bytes w + length xs) > segment_bytes w"
  consider "?roll" "fst io = SealFails" | "?roll" "fst io = OpenFails" | "?roll" "fst io = RotateDone" | "\<not> ?roll"
    by (cases "fst io"; cases "?roll") simp_all
  then show ?thesis
  proof cases
    case 1
    then show ?thesis using c by (auto simp: append_checked_def)
  next
    case 2
    then show ?thesis using c assms(2) by (auto simp: append_checked_def crash_covered_def crash_def)
  next
    case 3
    then show ?thesis using c cut_write_covered [of "fst (rotate RotateDone w)"]
      by (auto simp: append_checked_def split: write_io.splits)
  next
    case 4
    then show ?thesis using c cut_write_covered [OF assms(2)]
      by (auto simp: append_checked_def split: write_io.splits)
  qed
qed

lemma history_synced: "log_history enc dec crc w rs \<Longrightarrow> codec_ok enc dec crc \<Longrightarrow> synced w \<le> length (active w)"
  using history_holds [of enc dec crc w rs] by (auto simp: wal_holds_def)

text \<open>With nothing failing, the next record in sequence is appended.\<close>

lemma append_succeeds:
  assumes "log_history enc dec crc w rs" and "codec_ok enc dec crc" and "gapless (rs @ [r])" and "encodable enc r"
  shows "\<exists>w'. wal_append enc crc append_fine r w = (w', None)"
proof -
  obtain p where p: "enc r = Some p" using assms(4) by (auto simp: encodable_def)
  have "encode_into enc crc r [] = Inr (frame_of crc p)"
    using encode_into_frame [of enc r p crc "[]"] payload_u32 [of p] codec_okD(1) [OF assms(2) p] p by simp
  moreover have "appended w = None \<or> seq_next (the (appended w)) = Some (lr_seq r)"
    using assms(3) history_reads_back(3) [OF assms(1,2)] by (auto simp: gapless_append last_seq_of_def)
  ultimately show ?thesis by (cases "appended w") (auto simp: wal_append_def append_checked_def)
qed

end
