(* ===== verification/Wal_Commit.thy ===== *)
theory Wal_Commit
  imports Wal_Log
begin

text \<open>
  Group commit, \<open>crates/auction-wal/src/commit.rs\<close>: the published watermark, one batch of the
  writer, and the writer with its queue and its waiters as a step relation.

  The locale \<open>watermark\<close> is the contract of a published sequence number: it never goes down, and
  a waiter is released exactly when it has reached theirs. The committer's watermark keeps it, and
  so does the one the standby publishes (\<open>replication.rs\<close>). On top of it the last section
  proves that nothing is acknowledged before it is durable (invariant I6): after a power loss at
  any moment, every acknowledged record is read back.
\<close>

section \<open>Watermarks\<close>

text \<open>The order on \<open>Option<Seq>\<close>: \<open>None\<close> is below everything.\<close>

fun opt_le :: "seq option \<Rightarrow> seq option \<Rightarrow> bool" where
  "opt_le None y \<longleftrightarrow> True"
| "opt_le (Some a) None \<longleftrightarrow> False"
| "opt_le (Some a) (Some b) \<longleftrightarrow> a \<le> b"

lemma opt_le_refl [simp]: "opt_le x x"
  by (cases x) simp_all

lemma opt_le_trans: "opt_le x y \<Longrightarrow> opt_le y z \<Longrightarrow> opt_le x z"
  by (cases x; cases y; cases z) simp_all

lemma opt_le_linear: "opt_le x y \<or> opt_le y x"
  by (cases x; cases y) auto

locale watermark =
  fixes mark :: "'w \<Rightarrow> seq option"
    and publish :: "seq option \<Rightarrow> 'w \<Rightarrow> 'w"
    and released :: "seq \<Rightarrow> 'w \<Rightarrow> bool"
  assumes publish_up: "opt_le (mark w) (mark (publish q w))"
    and publish_choice: "mark (publish q w) = mark w \<or> mark (publish q w) = q"
    and released_iff: "released t w \<longleftrightarrow> opt_le (Some t) (mark w)"
begin

lemma released_stays: "released t w \<Longrightarrow> released t (publish q w)"
  using opt_le_trans publish_up by (auto simp: released_iff)

lemma released_folds: "released t w \<Longrightarrow> released t (fold publish qs w)"
  by (induction qs arbitrary: w) (auto intro: released_stays)

lemma released_bound: "released t w \<Longrightarrow> opt_le (mark w) d \<Longrightarrow> opt_le (Some t) d"
  using opt_le_trans by (auto simp: released_iff)

lemma publish_bound: "opt_le (mark w) d \<Longrightarrow> opt_le q d \<Longrightarrow> opt_le (mark (publish q w)) d"
  using publish_choice [of q w] by auto

end

datatype mark_state = MarkLive "seq option" | MarkClosed "seq option" string

primrec mark_durable :: "mark_state \<Rightarrow> seq option" where
  "mark_durable (MarkLive d) = d"
| "mark_durable (MarkClosed d reason) = d"

primrec mark_publish :: "seq option \<Rightarrow> mark_state \<Rightarrow> mark_state" where
  "mark_publish sq (MarkLive d) = (if opt_le sq d then MarkLive d else MarkLive sq)"
| "mark_publish sq (MarkClosed d reason) = MarkClosed d reason"

definition mark_close :: "string \<Rightarrow> mark_state \<Rightarrow> mark_state" where
  "mark_close reason st = MarkClosed (mark_durable st) reason"

text \<open>
  One look of \<open>wait_for\<close> at the state: return, wait for the next change, or fail. The loop in the
  source looks again after every change.
\<close>

datatype wait_result = Released | Parked | Stopped string

primrec wait_for :: "seq \<Rightarrow> mark_state \<Rightarrow> wait_result" where
  "wait_for target (MarkLive d) =
     (case d of None \<Rightarrow> Parked | Some x \<Rightarrow> if target \<le> x then Released else Parked)"
| "wait_for target (MarkClosed d reason) =
     (if opt_le (Some target) d then Released else Stopped reason)"

interpretation commit_mark: watermark mark_durable mark_publish "\<lambda>t st. wait_for t st = Released"
proof
  fix w q t
  show "opt_le (mark_durable w) (mark_durable (mark_publish q w))"
    using opt_le_linear by (cases w) auto
  show "mark_durable (mark_publish q w) = mark_durable w \<or> mark_durable (mark_publish q w) = q"
    by (cases w) auto
  show "wait_for t w = Released \<longleftrightarrow> opt_le (Some t) (mark_durable w)"
    by (cases w) (auto split: option.splits)
qed

text \<open>A closed watermark leaves nobody waiting, and takes nothing back.\<close>

lemma close_decides: "wait_for t (mark_close reason st) \<noteq> Parked"
  by (simp add: mark_close_def)

lemma mark_durable_close [simp]: "mark_durable (mark_close reason st) = mark_durable st"
  by (simp add: mark_close_def)

lemma close_keeps: "wait_for t (mark_close reason st) = Released \<longleftrightarrow> wait_for t st = Released"
  by (simp add: commit_mark.released_iff mark_close_def)

text \<open>The standby's watermark, \<open>replication.rs\<close>: a plain optional sequence number.\<close>

definition replica_publish :: "seq \<Rightarrow> seq option \<Rightarrow> seq option" where
  "replica_publish sq current =
     (case current of None \<Rightarrow> Some sq | Some confirmed \<Rightarrow> if sq \<le> confirmed then current else Some sq)"

definition replica_confirmed :: "seq \<Rightarrow> seq option \<Rightarrow> bool" where
  "replica_confirmed target current \<longleftrightarrow> (case current of None \<Rightarrow> False | Some c \<Rightarrow> target \<le> c)"

interpretation replica_mark: watermark "\<lambda>w. w" "\<lambda>q w. case q of None \<Rightarrow> w | Some sq \<Rightarrow> replica_publish sq w"
    replica_confirmed
proof
  fix w q t
  show "opt_le w (case q of None \<Rightarrow> w | Some sq \<Rightarrow> replica_publish sq w)"
    by (cases w) (auto simp: replica_publish_def split: option.splits)
  show "(case q of None \<Rightarrow> w | Some sq \<Rightarrow> replica_publish sq w) = w \<or>
      (case q of None \<Rightarrow> w | Some sq \<Rightarrow> replica_publish sq w) = q"
    by (auto simp: replica_publish_def split: option.splits)
  show "replica_confirmed t w \<longleftrightarrow> opt_le (Some t) w"
    by (cases w) (auto simp: replica_confirmed_def)
qed

section \<open>One batch\<close>

fun append_all ::
  "encoder \<Rightarrow> checksum \<Rightarrow> (log_record \<Rightarrow> append_io) \<Rightarrow> log_record list \<Rightarrow> wal \<Rightarrow> wal \<times> wal_error option" where
  "append_all enc crc io [] w = (w, None)"
| "append_all enc crc io (r # rs) w =
     (case wal_append enc crc (io r) r w of
        (w', Some e) \<Rightarrow> (w', Some e)
      | (w', None) \<Rightarrow> append_all enc crc io rs w')"

text \<open>
  What the operating system and the other threads contribute to one batch: the system calls of each append, the
  sync, and how many more records arrive while the writer lingers.
\<close>

record batch_io =
  bi_append :: "log_record \<Rightarrow> append_io"
  bi_sync :: bool
  bi_polls :: nat

text \<open>
  \<open>write_batch\<close>: append every record, sync, and only then publish. Returns the log, the watermark and the error if
  there was one.
\<close>

definition write_batch ::
  "encoder \<Rightarrow> checksum \<Rightarrow> batch_io \<Rightarrow> log_record list \<Rightarrow> wal \<Rightarrow> mark_state \<Rightarrow>
   wal \<times> mark_state \<times> wal_error option" where
  "write_batch enc crc io batch w st =
     (case append_all enc crc (bi_append io) batch w of
        (w', Some e) \<Rightarrow> (w', st, Some e)
      | (w', None) \<Rightarrow>
          (case wal_sync (bi_sync io) w' of
             Inl e \<Rightarrow> (w', st, Some e)
           | Inr (w'', d) \<Rightarrow> (w'', mark_publish d st, None)))"

section \<open>The writer and its waiters\<close>

datatype msg = Msg_Record log_record | Msg_Stop

fun records_in :: "msg list \<Rightarrow> log_record list" where
  "records_in [] = []"
| "records_in (Msg_Record r # q) = r # records_in q"
| "records_in (Msg_Stop # q) = records_in q"

text \<open>
  Where the commit thread is: in its loop, past the loop, done with its watermark closed, or gone, with the
  receiving end of the channel dropped.
\<close>

datatype phase = Writing | Draining | Closed | Gone

record wal_options =
  segment_limit :: u64
  linger :: nanos
  max_batch :: nat
  submit_queue_depth :: nat

definition default_wal_options :: wal_options where
  "default_wal_options = \<lparr>segment_limit = 64 * 1024 * 1024, linger = 500000, max_batch = 4096,
     submit_queue_depth = 16384\<rparr>"

text \<open>
  The commit thread and its channel. \<open>cs_submitted\<close> and \<open>cs_acked\<close> record what the engine submitted and which
  sequence numbers a waiter was released for.
\<close>

record commit_sys =
  cs_options :: wal_options
  cs_wal :: wal
  cs_mark :: mark_state
  cs_queue :: "msg list"
  cs_phase :: phase
  cs_submitted :: "log_record list"
  cs_acked :: "seq list"

definition spawn :: "wal_options \<Rightarrow> wal \<Rightarrow> log_record list \<Rightarrow> commit_sys" where
  "spawn options w rs = \<lparr>cs_options = options, cs_wal = w, cs_mark = MarkLive (durable w), cs_queue = [],
     cs_phase = Writing, cs_submitted = rs, cs_acked = []\<rparr>"

text \<open>
  \<open>Committer::submit\<close>: sending fails once the receiver is gone, and blocks while the channel is full (\<open>queue_full\<close>).
\<close>

definition queue_full :: "commit_sys \<Rightarrow> bool" where
  "queue_full cs \<longleftrightarrow> length (cs_queue cs) \<ge> submit_queue_depth (cs_options cs)"

definition submit_record :: "log_record \<Rightarrow> commit_sys \<Rightarrow> wal_error + commit_sys" where
  "submit_record r cs =
     (if cs_phase cs = Gone then Inl (CommitterStopped ''the commit thread is gone'')
      else Inr (cs\<lparr>cs_queue := cs_queue cs @ [Msg_Record r], cs_submitted := cs_submitted cs @ [r]\<rparr>))"

definition send_stop :: "commit_sys \<Rightarrow> commit_sys" where
  "send_stop cs = (if cs_phase cs = Gone then cs else cs\<lparr>cs_queue := cs_queue cs @ [Msg_Stop]\<rparr>)"

text \<open>
  The linger: up to \<open>polls\<close> more messages, as many as arrive before the deadline, until the batch is full or a
  stop is seen.
\<close>

fun gather :: "nat \<Rightarrow> nat \<Rightarrow> log_record list \<Rightarrow> msg list \<Rightarrow> log_record list \<times> bool \<times> msg list" where
  "gather limit polls batch [] = (batch, False, [])"
| "gather limit polls batch (m # q) =
     (if polls = 0 \<or> limit \<le> length batch then (batch, False, m # q)
      else (case m of
              Msg_Record r \<Rightarrow> gather limit (polls - 1) (batch @ [r]) q
            | Msg_Stop \<Rightarrow> (batch, True, q)))"

text \<open>Write a batch and go on, or poison the watermark and stop. \<open>describe\<close> is the error's \<open>to_string\<close>.\<close>

definition commit_batch ::
  "encoder \<Rightarrow> checksum \<Rightarrow> (wal_error \<Rightarrow> string) \<Rightarrow> batch_io \<Rightarrow> log_record list \<Rightarrow> phase \<Rightarrow> commit_sys \<Rightarrow> commit_sys" where
  "commit_batch enc crc describe io batch after cs =
     (case write_batch enc crc io batch (cs_wal cs) (cs_mark cs) of
        (w, st, None) \<Rightarrow> cs\<lparr>cs_wal := w, cs_mark := st, cs_phase := after\<rparr>
      | (w, st, Some e) \<Rightarrow> cs\<lparr>cs_wal := w, cs_mark := mark_close (describe e) st, cs_phase := Closed\<rparr>)"

text \<open>One iteration of the writer's loop, on a queue that is not empty; on an empty one it blocks.\<close>

definition writer_round ::
  "encoder \<Rightarrow> checksum \<Rightarrow> (wal_error \<Rightarrow> string) \<Rightarrow> batch_io \<Rightarrow> commit_sys \<Rightarrow> commit_sys" where
  "writer_round enc crc describe io cs =
     (case cs_queue cs of
        [] \<Rightarrow> cs
      | Msg_Stop # q \<Rightarrow> cs\<lparr>cs_queue := q, cs_phase := Draining\<rparr>
      | Msg_Record r # q \<Rightarrow>
          (let (batch, stopping, rest) = gather (max_batch (cs_options cs)) (bi_polls io) [r] q
           in commit_batch enc crc describe io batch (if stopping then Draining else Writing)
                (cs\<lparr>cs_queue := rest\<rparr>)))"

text \<open>After the loop: the leftovers in one batch, then the watermark is closed.\<close>

definition writer_drain ::
  "encoder \<Rightarrow> checksum \<Rightarrow> (wal_error \<Rightarrow> string) \<Rightarrow> batch_io \<Rightarrow> commit_sys \<Rightarrow> commit_sys" where
  "writer_drain enc crc describe io cs =
     (let leftovers = records_in (cs_queue cs);
          cs = cs\<lparr>cs_queue := []\<rparr>;
          cs = (if leftovers = [] then cs else commit_batch enc crc describe io leftovers Draining cs)
      in if cs_phase cs = Closed then cs
         else cs\<lparr>cs_mark := mark_close ''the commit thread has shut down'' (cs_mark cs), cs_phase := Closed\<rparr>)"

text \<open>Everything that can happen, in any order: the writer, those who submit to it and those who wait for it.\<close>

inductive commit_step ::
  "encoder \<Rightarrow> checksum \<Rightarrow> (wal_error \<Rightarrow> string) \<Rightarrow> commit_sys \<Rightarrow> commit_sys \<Rightarrow> bool" for enc crc describe where
  step_submit: "\<not> queue_full cs \<Longrightarrow> submit_record r cs = Inr cs' \<Longrightarrow> gapless (cs_submitted cs @ [r]) \<Longrightarrow>
    commit_step enc crc describe cs cs'"
| step_stop: "\<not> queue_full cs \<Longrightarrow> commit_step enc crc describe cs (send_stop cs)"
| step_round: "cs_phase cs = Writing \<Longrightarrow> cs_queue cs \<noteq> [] \<Longrightarrow>
    commit_step enc crc describe cs (writer_round enc crc describe io cs)"
| step_disconnected: "cs_phase cs = Writing \<Longrightarrow> cs_queue cs = [] \<Longrightarrow>
    commit_step enc crc describe cs (cs\<lparr>cs_phase := Draining\<rparr>)"
| step_drain: "cs_phase cs = Draining \<Longrightarrow> commit_step enc crc describe cs (writer_drain enc crc describe io cs)"
| step_gone: "cs_phase cs = Closed \<Longrightarrow> commit_step enc crc describe cs (cs\<lparr>cs_phase := Gone\<rparr>)"
| step_ack: "wait_for t (cs_mark cs) = Released \<Longrightarrow>
    commit_step enc crc describe cs (cs\<lparr>cs_acked := t # cs_acked cs\<rparr>)"

section \<open>The log behind the watermark\<close>

lemma append_all_history:
  assumes "log_history enc dec crc w rs" and "codec_ok enc dec crc" and "append_all enc crc io batch w = (w', e)"
  shows "\<exists>don rest w0. batch = don @ rest \<and> log_history enc dec crc w0 (rs @ don) \<and> durable w0 = durable w \<and>
     crash_covered w' w0 \<and> (e = None \<longrightarrow> rest = [] \<and> w0 = w')"
  using assms(1,3)
proof (induction batch arbitrary: w rs)
  case Nil
  then show ?case by (intro exI [of _ "[]"] exI [of _ "[]"] exI [of _ w]) auto
next
  case (Cons r batch)
  obtain w1 e1 where a: "wal_append enc crc (io r) r w = (w1, e1)" by fastforce
  show ?case
  proof (cases e1)
    case None
    have d: "durable w1 = durable w"
      using a None by (cases "fst (io r)")
        (auto simp: wal_append_def append_checked_def split: option.splits if_splits sum.splits prod.splits write_io.splits)
    have "log_history enc dec crc w1 (rs @ [r])" using Cons.prems(1) a None log_append by blast
    with Cons.IH [of w1 "rs @ [r]"] Cons.prems(2) a None obtain don rest w0 where
      "batch = don @ rest" "log_history enc dec crc w0 ((rs @ [r]) @ don)" "durable w0 = durable w1"
      "crash_covered w' w0" "e = None \<longrightarrow> rest = [] \<and> w0 = w'" by auto
    then show ?thesis using d by (intro exI [of _ "r # don"] exI [of _ rest] exI [of _ w0]) auto
  next
    case (Some err)
    then have e: "e = Some err" "w' = w1" using Cons.prems(2) a by auto
    from append_failed [OF a [unfolded Some] history_synced [OF Cons.prems(1) assms(2)]]
    consider "crash_covered w1 w" | w2 where "wal_append enc crc append_fine r w = (w2, None)"
        "durable w2 = durable w" "crash_covered w1 w2" by blast
    then show ?thesis
    proof cases
      case 1
      then show ?thesis
        using Cons.prems(1) e by (intro exI [of _ "[]"] exI [of _ "r # batch"] exI [of _ w]) auto
    next
      case 2
      then show ?thesis
        using log_append [OF Cons.prems(1) 2(1)] e by (intro exI [of _ "[r]"] exI [of _ batch] exI [of _ w2]) auto
    qed
  qed
qed

lemma write_batch_history:
  assumes "log_history enc dec crc w rs" and "codec_ok enc dec crc" and "opt_le (mark_durable st) (durable w)"
    and "write_batch enc crc io batch w st = (w', st', e)"
  shows "\<exists>don rest w0. batch = don @ rest \<and> log_history enc dec crc w0 (rs @ don) \<and> crash_covered w' w0 \<and>
     opt_le (mark_durable st') (durable w0) \<and> opt_le (mark_durable st) (mark_durable st') \<and>
     (e = None \<longrightarrow> rest = [] \<and> w0 = w' \<and> st' = mark_publish (last_seq_of (rs @ batch)) st)"
proof -
  obtain w1 e1 where a: "append_all enc crc (bi_append io) batch w = (w1, e1)" by fastforce
  obtain don rest w0 where d: "batch = don @ rest" "log_history enc dec crc w0 (rs @ don)" "durable w0 = durable w"
    "crash_covered w1 w0" "e1 = None \<longrightarrow> rest = [] \<and> w0 = w1"
    using append_all_history [OF assms(1,2) a] by blast
  show ?thesis
  proof (cases "e1 = None \<and> (\<exists>r. wal_sync (bi_sync io) w1 = Inr r)")
    case False
    then have "w' = w1 \<and> st' = st \<and> e \<noteq> None"
      using assms(4) a by (auto simp: write_batch_def split: option.splits sum.splits)
    then show ?thesis using d assms(3) by (intro exI [of _ don] exI [of _ rest] exI [of _ w0]) auto
  next
    case True
    then obtain w2 q where s: "wal_sync (bi_sync io) w1 = Inr (w2, q)" and e1: "e1 = None" by auto
    have w0: "w0 = w1" "rest = []" using d(5) e1 by simp_all
    have w': "w' = w2" "st' = mark_publish q st" "e = None"
      using assms(4) a s e1 by (auto simp: write_batch_def)
    have q: "durable w2 = appended w1" "q = durable w2" using s by (auto simp: wal_sync_def split: if_splits)
    have app: "appended w1 = last_seq_of (rs @ don)" using history_reads_back(3) [OF d(2) assms(2)] w0 by simp
    have "opt_le (durable w1) (appended w1)"
      using history_durable_le [OF d(2) assms(2)] w0 by (cases "durable w1"; cases "appended w1") auto
    then have "opt_le (mark_durable st) q" using assms(3) d(3) q w0 opt_le_trans by auto
    then have "opt_le (mark_durable (mark_publish q st)) q"
      by (intro commit_mark.publish_bound) simp_all
    then show ?thesis
      using d w0 w' q app log_sync [OF d(2) [unfolded w0] s] commit_mark.publish_up
      by (intro exI [of _ don] exI [of _ rest] exI [of _ w2]) auto
  qed
qed

text \<open>
  The records \<open>rs\<close> are what can be found in the log, which is \<open>w0\<close> as long as nothing failed. While the thread works,
  what was submitted is what was written and what is queued, and all that was written is published.
\<close>

definition log_behind ::
  "encoder \<Rightarrow> decoder \<Rightarrow> checksum \<Rightarrow> commit_sys \<Rightarrow> wal \<Rightarrow> log_record list \<Rightarrow> bool" where
  "log_behind enc dec crc cs w0 rs \<longleftrightarrow>
     log_history enc dec crc w0 rs \<and> crash_covered (cs_wal cs) w0 \<and> prefix rs (cs_submitted cs) \<and>
     opt_le (mark_durable (cs_mark cs)) (durable w0) \<and>
     (cs_phase cs = Writing \<or> cs_phase cs = Draining \<longrightarrow>
        w0 = cs_wal cs \<and> cs_mark cs = MarkLive (last_seq_of rs) \<and>
        cs_submitted cs = rs @ records_in (cs_queue cs))"

definition commit_inv :: "encoder \<Rightarrow> decoder \<Rightarrow> checksum \<Rightarrow> commit_sys \<Rightarrow> bool" where
  "commit_inv enc dec crc cs \<longleftrightarrow> gapless (cs_submitted cs) \<and> (\<exists>w0 rs. log_behind enc dec crc cs w0 rs) \<and>
     (\<forall>t \<in> set (cs_acked cs). wait_for t (cs_mark cs) = Released)"

lemma records_in_append [simp]: "records_in (q @ q') = records_in q @ records_in q'"
  by (induction q rule: records_in.induct) simp_all

lemma gather_records:
  "gather limit polls batch q = (batch', stopping, rest) \<Longrightarrow> batch' @ records_in rest = batch @ records_in q"
  by (induction limit polls batch q rule: gather.induct) (auto split: if_splits msg.splits)

lemma gather_shorter:
  "gather limit polls batch q = (batch', stopping, rest) \<Longrightarrow>
   length rest \<le> length q \<and> (\<not> stopping \<longrightarrow> Msg_Stop \<in> set q \<longrightarrow> Msg_Stop \<in> set rest)"
  by (induction limit polls batch q rule: gather.induct) (auto split: if_splits msg.splits)

lemma gapless_split: "gapless (xs @ ys) \<Longrightarrow> a \<in> set xs \<Longrightarrow> b \<in> set ys \<Longrightarrow> lr_seq a < lr_seq b"
  using gapless_sorted [of "xs @ ys"] by (auto simp: sorted_wrt_append)

lemma gapless_below_last:
  "gapless (xs @ ys) \<Longrightarrow> r \<in> set ys \<Longrightarrow> xs \<noteq> [] \<Longrightarrow> lr_seq (last xs) < lr_seq r"
  by (rule gapless_split [where xs = xs]) auto

lemma gapless_le_last:
  assumes "gapless rs" and "r \<in> set rs"
  shows "lr_seq r \<le> lr_seq (last rs)"
proof -
  obtain xs ys where "rs = (xs @ [r]) @ ys" using assms(2) by (auto simp: in_set_conv_decomp)
  then show ?thesis using gapless_below_last [of "xs @ [r]" ys "last ys"] assms(1) by (cases "ys = []") auto
qed

lemma publish_next:
  assumes "gapless (rs @ batch)"
  shows "mark_publish (last_seq_of (rs @ batch)) (MarkLive (last_seq_of rs)) = MarkLive (last_seq_of (rs @ batch))"
  using gapless_below_last [OF assms, of "last batch"] by (cases "batch = []") (auto simp: last_seq_of_def)

text \<open>Writing the next records of the queue, whether it succeeds or not.\<close>

lemma commit_batch_inv:
  assumes "codec_ok enc dec crc" and "gapless (cs_submitted cs)" and "log_history enc dec crc (cs_wal cs) rs"
    and "cs_submitted cs = rs @ batch @ records_in (cs_queue cs)"
    and "opt_le (mark_durable (cs_mark cs)) (durable (cs_wal cs))"
    and "\<forall>t \<in> set (cs_acked cs). wait_for t (cs_mark cs) = Released"
    and "cs_mark cs = MarkLive (last_seq_of rs)"
  shows "commit_inv enc dec crc (commit_batch enc crc describe io batch after cs)"
proof -
  obtain w st e where b: "write_batch enc crc io batch (cs_wal cs) (cs_mark cs) = (w, st, e)"
    by (metis prod_cases3)
  obtain don rest w0 where d: "batch = don @ rest" "log_history enc dec crc w0 (rs @ don)" "crash_covered w w0"
    "opt_le (mark_durable st) (durable w0)" "opt_le (mark_durable (cs_mark cs)) (mark_durable st)"
    "e = None \<longrightarrow> rest = [] \<and> w0 = w \<and> st = mark_publish (last_seq_of (rs @ batch)) (cs_mark cs)"
    using write_batch_history [OF assms(3,1,5) b] by blast
  have live: "mark_publish (last_seq_of (rs @ batch)) (cs_mark cs) = MarkLive (last_seq_of (rs @ batch))"
    using publish_next [of rs batch] assms(2,4,7) by (simp add: gapless_append)
  have acks: "\<forall>t \<in> set (cs_acked cs). wait_for t st = Released"
    using assms(6) d(5) opt_le_trans by (auto simp: commit_mark.released_iff)
  have "log_behind enc dec crc (commit_batch enc crc describe io batch after cs) w0 (rs @ don)"
    using b d assms(4) live by (cases e) (auto simp: commit_batch_def log_behind_def)
  moreover have "\<forall>t \<in> set (cs_acked cs). wait_for t (cs_mark (commit_batch enc crc describe io batch after cs)) = Released"
    using b acks by (cases e) (auto simp: commit_batch_def close_keeps)
  ultimately show ?thesis
    using b assms(2) by (cases e) (auto simp: commit_inv_def commit_batch_def)
qed

lemma commit_inv_working:
  assumes "commit_inv enc dec crc cs" and "cs_phase cs = Writing \<or> cs_phase cs = Draining"
  obtains rs where "log_history enc dec crc (cs_wal cs) rs" "cs_submitted cs = rs @ records_in (cs_queue cs)"
    "gapless (cs_submitted cs)" "opt_le (mark_durable (cs_mark cs)) (durable (cs_wal cs))"
    "\<forall>t \<in> set (cs_acked cs). wait_for t (cs_mark cs) = Released" "cs_mark cs = MarkLive (last_seq_of rs)"
  using assms by (auto simp: commit_inv_def log_behind_def)

lemma commit_inv_close:
  "commit_inv enc dec crc cs \<Longrightarrow> commit_inv enc dec crc (cs\<lparr>cs_mark := mark_close reason (cs_mark cs), cs_phase := Closed\<rparr>)"
  by (force simp: commit_inv_def log_behind_def close_keeps)

lemma commit_inv_round:
  assumes "commit_inv enc dec crc cs" and "codec_ok enc dec crc" and "cs_phase cs = Writing"
  shows "commit_inv enc dec crc (writer_round enc crc describe io cs)"
proof -
  obtain rs where i: "log_history enc dec crc (cs_wal cs) rs" "cs_submitted cs = rs @ records_in (cs_queue cs)"
    "gapless (cs_submitted cs)" "opt_le (mark_durable (cs_mark cs)) (durable (cs_wal cs))"
    "\<forall>t \<in> set (cs_acked cs). wait_for t (cs_mark cs) = Released" "cs_mark cs = MarkLive (last_seq_of rs)"
    using commit_inv_working [OF assms(1)] assms(3) by blast
  consider "cs_queue cs = []" | q where "cs_queue cs = Msg_Stop # q" | r q where "cs_queue cs = Msg_Record r # q"
    by (metis list.exhaust msg.exhaust)
  then show ?thesis
  proof cases
    case 1
    then show ?thesis using assms(1) by (simp add: writer_round_def)
  next
    case 2
    then have "log_behind enc dec crc (cs\<lparr>cs_queue := q, cs_phase := Draining\<rparr>) (cs_wal cs) rs"
      using i by (simp add: log_behind_def)
    then show ?thesis using 2 i by (auto simp: writer_round_def commit_inv_def)
  next
    case 3
    obtain batch stopping rest where g: "gather (max_batch (cs_options cs)) (bi_polls io) [r] q = (batch, stopping, rest)"
      by (metis prod_cases3)
    show ?thesis
      using commit_batch_inv [OF assms(2), of "cs\<lparr>cs_queue := rest\<rparr>" rs batch] i 3 g gather_records [OF g]
      by (simp add: writer_round_def)
  qed
qed

lemma commit_inv_drain:
  assumes "commit_inv enc dec crc cs" and "codec_ok enc dec crc" and "cs_phase cs = Draining"
  shows "commit_inv enc dec crc (writer_drain enc crc describe io cs)"
proof -
  obtain rs where i: "log_history enc dec crc (cs_wal cs) rs" "cs_submitted cs = rs @ records_in (cs_queue cs)"
    "gapless (cs_submitted cs)" "opt_le (mark_durable (cs_mark cs)) (durable (cs_wal cs))"
    "\<forall>t \<in> set (cs_acked cs). wait_for t (cs_mark cs) = Released" "cs_mark cs = MarkLive (last_seq_of rs)"
    using commit_inv_working [OF assms(1)] assms(3) by blast
  let ?cs = "cs\<lparr>cs_queue := []\<rparr>"
  define cs1 where "cs1 = (if records_in (cs_queue cs) = [] then ?cs
    else commit_batch enc crc describe io (records_in (cs_queue cs)) Draining ?cs)"
  have "commit_inv enc dec crc cs1"
  proof (cases "records_in (cs_queue cs) = []")
    case True
    then have "log_behind enc dec crc ?cs (cs_wal cs) rs" using i by (simp add: log_behind_def)
    then show ?thesis using True i by (auto simp: cs1_def commit_inv_def)
  next
    case False
    then show ?thesis
      using commit_batch_inv [OF assms(2), of ?cs rs "records_in (cs_queue cs)"] i by (simp add: cs1_def)
  qed
  moreover have "writer_drain enc crc describe io cs = (if cs_phase cs1 = Closed then cs1
      else cs1\<lparr>cs_mark := mark_close ''the commit thread has shut down'' (cs_mark cs1), cs_phase := Closed\<rparr>)"
    by (simp add: writer_drain_def cs1_def Let_def)
  ultimately show ?thesis using commit_inv_close by simp
qed

lemma commit_inv_step:
  assumes "commit_step enc crc describe cs cs'" and "codec_ok enc dec crc" and "commit_inv enc dec crc cs"
  shows "commit_inv enc dec crc cs'"
  using assms(1)
proof cases
  case (step_submit r)
  then show ?thesis
    using assms(3) by (force simp: commit_inv_def log_behind_def submit_record_def split: if_splits)
next
  case step_stop
  then show ?thesis using assms(3) by (force simp: commit_inv_def log_behind_def send_stop_def)
next
  case (step_round io)
  then show ?thesis using commit_inv_round [OF assms(3,2)] by simp
next
  case step_disconnected
  then show ?thesis using assms(3) by (force simp: commit_inv_def log_behind_def)
next
  case (step_drain io)
  then show ?thesis using commit_inv_drain [OF assms(3,2)] by simp
next
  case step_gone
  then show ?thesis using assms(3) by (force simp: commit_inv_def log_behind_def)
next
  case (step_ack t)
  then show ?thesis using assms(3) by (force simp: commit_inv_def log_behind_def)
qed

lemma commit_inv_spawn:
  "log_history enc dec crc w rs \<Longrightarrow> durable w = last_seq_of rs \<Longrightarrow> codec_ok enc dec crc \<Longrightarrow>
   commit_inv enc dec crc (spawn options w rs)"
  using history_reads_back(2) [of enc dec crc w rs]
  by (auto simp: commit_inv_def log_behind_def spawn_def intro!: exI [of _ w] exI [of _ rs])

lemma commit_inv_steps:
  "(commit_step enc crc describe)\<^sup>*\<^sup>* cs cs' \<Longrightarrow> codec_ok enc dec crc \<Longrightarrow> commit_inv enc dec crc cs \<Longrightarrow>
   commit_inv enc dec crc cs'"
  by (induction rule: rtranclp_induct) (auto intro: commit_inv_step)

text \<open>
  Released waiters are durable: whatever a power loss leaves is a prefix of what was submitted, with everything in
  it that a waiter can have been released for.
\<close>

lemma released_in_log:
  assumes "log_behind enc dec crc cs w0 rs" and "codec_ok enc dec crc" and "gapless (cs_submitted cs)"
    and "r \<in> set (cs_submitted cs)" and "wait_for (lr_seq r) (cs_mark cs) = Released"
  shows "r \<in> set rs \<and> (\<exists>d. durable w0 = Some d \<and> lr_seq r \<le> d)"
proof -
  have h: "log_history enc dec crc w0 rs" and le: "opt_le (Some (lr_seq r)) (durable w0)"
    using assms(1,5) commit_mark.released_bound by (auto simp: log_behind_def)
  obtain d where d: "durable w0 = Some d" "lr_seq r \<le> d" using le by (cases "durable w0") auto
  have "not_after d (last_seq_of rs)"
    using history_durable_le [OF h assms(2) d(1)] history_reads_back(3) [OF h assms(2)] by simp
  then have ne: "rs \<noteq> []" and top: "d \<le> lr_seq (last rs)"
    by (auto simp: last_seq_of_def split: if_splits)
  obtain rest where rest: "cs_submitted cs = rs @ rest"
    using assms(1) by (auto simp: log_behind_def prefix_def)
  have "r \<notin> set rest"
    using gapless_below_last [of rs rest r] assms(3) rest ne top d(2) by auto
  then show ?thesis using assms(4) rest d by auto
qed

lemma commit_crash:
  assumes "commit_inv enc dec crc cs" and "codec_ok enc dec crc" and "synced (cs_wal cs) \<le> n"
  shows "\<exists>kept. read_all dec crc (crash n (cs_wal cs)) = Inr kept \<and> prefix kept (cs_submitted cs) \<and>
    (\<forall>r \<in> set (cs_submitted cs). wait_for (lr_seq r) (cs_mark cs) = Released \<longrightarrow> r \<in> set kept) \<and>
    (\<exists>w'. open_log dec crc limit (length (take n (active (cs_wal cs)))) (crash n (cs_wal cs)) = Inr w' \<and>
       log_history enc dec crc w' kept \<and> durable w' = last_seq_of kept)"
proof -
  obtain w0 rs where b: "log_behind enc dec crc cs w0 rs" and g: "gapless (cs_submitted cs)"
    using assms(1) by (auto simp: commit_inv_def)
  then have h: "log_history enc dec crc w0 rs" and pre: "prefix rs (cs_submitted cs)"
    and cov: "crash_covered (cs_wal cs) w0" by (simp_all add: log_behind_def)
  obtain n' where n': "synced w0 \<le> n'" "crash n (cs_wal cs) = crash n' w0"
    using cov assms(3) by (auto simp: crash_covered_def)
  then have same: "take n (active (cs_wal cs)) = take n' (active w0)" by (simp add: crash_def)
  obtain k where k: "read_all dec crc (crash n' w0) = Inr (take k rs)"
    "\<And>d r. durable w0 = Some d \<Longrightarrow> r \<in> set rs \<Longrightarrow> lr_seq r \<le> d \<Longrightarrow> r \<in> set (take k rs)"
    "\<exists>w'. open_log dec crc limit (length (take n' (active w0))) (crash n' w0) = Inr w' \<and>
        log_history enc dec crc w' (take k rs) \<and> durable w' = last_seq_of (take k rs)"
    using history_crash [OF h assms(2) n'(1)] by blast
  have "r \<in> set (take k rs)" if "r \<in> set (cs_submitted cs)" "wait_for (lr_seq r) (cs_mark cs) = Released" for r
    using released_in_log [OF b assms(2) g that] k(2) by blast
  moreover have "prefix (take k rs) (cs_submitted cs)"
    using pre take_is_prefix prefix_order.trans by blast
  ultimately show ?thesis using k(1,3) unfolding n'(2) same by blast
qed

text \<open>No step takes a release back.\<close>

lemma commit_batch_up:
  "opt_le (mark_durable (cs_mark cs)) (mark_durable (cs_mark (commit_batch enc crc describe io batch after cs)))"
  by (auto simp: commit_batch_def write_batch_def commit_mark.publish_up split: prod.splits option.splits sum.splits)

lemma commit_step_up:
  assumes "commit_step enc crc describe cs cs'"
  shows "opt_le (mark_durable (cs_mark cs)) (mark_durable (cs_mark cs'))"
  using assms
proof cases
  case (step_submit r)
  then show ?thesis by (auto simp: submit_record_def split: if_splits)
next
  case (step_round io)
  then show ?thesis
    using commit_batch_up [where cs = "cs\<lparr>cs_queue := _\<rparr>"]
    by (auto simp: writer_round_def split: list.splits msg.splits prod.splits)
next
  case (step_drain io)
  then show ?thesis
    using commit_batch_up [of "cs\<lparr>cs_queue := []\<rparr>" enc crc describe io "records_in (cs_queue cs)" Draining]
    by (simp add: writer_drain_def Let_def)
qed (simp_all add: send_stop_def)

lemma commit_step_released:
  "commit_step enc crc describe cs cs' \<Longrightarrow> wait_for t (cs_mark cs) = Released \<Longrightarrow> wait_for t (cs_mark cs') = Released"
  using commit_step_up opt_le_trans by (auto simp: commit_mark.released_iff)

section \<open>Shutting down\<close>

text \<open>The thread on its own, with nothing more submitted, for as many rounds as there are in the list.\<close>

fun writer_run ::
  "encoder \<Rightarrow> checksum \<Rightarrow> (wal_error \<Rightarrow> string) \<Rightarrow> batch_io list \<Rightarrow> commit_sys \<Rightarrow> commit_sys" where
  "writer_run enc crc describe [] cs = cs"
| "writer_run enc crc describe (io # ios) cs =
     writer_run enc crc describe ios
       (case cs_phase cs of
          Writing \<Rightarrow> writer_round enc crc describe io cs
        | Draining \<Rightarrow> writer_drain enc crc describe io cs
        | _ \<Rightarrow> cs)"

definition batch_fine :: "batch_io \<Rightarrow> bool" where
  "batch_fine io \<longleftrightarrow> bi_append io = (\<lambda>r. append_fine) \<and> bi_sync io"

lemma append_all_fine:
  assumes "codec_ok enc dec crc" and "log_history enc dec crc w rs" and "gapless (rs @ batch)"
    and "list_all (encodable enc) batch"
  shows "\<exists>w'. append_all enc crc (\<lambda>r. append_fine) batch w = (w', None)"
  using assms(2-4)
proof (induction batch arbitrary: w rs)
  case (Cons r batch)
  have "gapless ((rs @ [r]) @ batch)" using Cons.prems(2) by simp
  then have g: "gapless (rs @ [r])" unfolding gapless_append [of "rs @ [r]"] by blast
  obtain w1 where w1: "wal_append enc crc append_fine r w = (w1, None)"
    using append_succeeds [OF Cons.prems(1) assms(1) g] Cons.prems(3) by auto
  then show ?case
    using Cons.IH [of w1 "rs @ [r]"] log_append [OF Cons.prems(1) w1] Cons.prems(2,3) by simp
qed simp

text \<open>Without I/O failures a batch is written, synced and published.\<close>

lemma commit_batch_fine:
  assumes "codec_ok enc dec crc" and "log_history enc dec crc (cs_wal cs) rs" and "gapless (rs @ batch)"
    and "list_all (encodable enc) batch" and "batch_fine io"
  shows "\<exists>w st. commit_batch enc crc describe io batch after cs = cs\<lparr>cs_wal := w, cs_mark := st, cs_phase := after\<rparr>"
proof -
  obtain w' where "append_all enc crc (bi_append io) batch (cs_wal cs) = (w', None)"
    using append_all_fine [OF assms(1-4)] assms(5) by (auto simp: batch_fine_def)
  then show ?thesis
    using assms(5) by (auto simp: commit_batch_def write_batch_def wal_sync_def batch_fine_def Let_def)
qed

text \<open>Each round leaves the queue shorter and the thread in its loop, or past it.\<close>

lemma round_fine:
  assumes "codec_ok enc dec crc" and "commit_inv enc dec crc cs" and "cs_phase cs = Writing" and "cs_queue cs \<noteq> []"
    and "list_all (encodable enc) (cs_submitted cs)" and "batch_fine io"
  shows "\<exists>w st q ph. writer_round enc crc describe io cs = cs\<lparr>cs_wal := w, cs_mark := st, cs_queue := q, cs_phase := ph\<rparr> \<and>
     length q < length (cs_queue cs) \<and> (ph = Draining \<or> ph = Writing \<and> (Msg_Stop \<in> set (cs_queue cs) \<longrightarrow> Msg_Stop \<in> set q))"
proof -
  obtain rs where i: "log_history enc dec crc (cs_wal cs) rs" "cs_submitted cs = rs @ records_in (cs_queue cs)"
    "gapless (cs_submitted cs)"
    using commit_inv_working [OF assms(2)] assms(3) by blast
  consider q where "cs_queue cs = Msg_Stop # q" | r q where "cs_queue cs = Msg_Record r # q"
    using assms(4) by (metis list.exhaust msg.exhaust)
  then show ?thesis
  proof cases
    case 1
    then show ?thesis
      by (intro exI [of _ "cs_wal cs"] exI [of _ "cs_mark cs"] exI [of _ q] exI [of _ Draining]) (simp add: writer_round_def)
  next
    case 2
    obtain batch stopping rest where g: "gather (max_batch (cs_options cs)) (bi_polls io) [r] q = (batch, stopping, rest)"
      by (metis prod_cases3)
    have all: "cs_submitted cs = (rs @ batch) @ records_in rest"
      using i(2) 2 gather_records [OF g] by simp
    have "gapless (rs @ batch)" using i(3) unfolding all gapless_append [of "rs @ batch"] by blast
    moreover have "list_all (encodable enc) batch" using assms(5) all by simp
    ultimately obtain w st where "commit_batch enc crc describe io batch (if stopping then Draining else Writing)
        (cs\<lparr>cs_queue := rest\<rparr>) = cs\<lparr>cs_queue := rest, cs_wal := w, cs_mark := st, cs_phase := if stopping then Draining else Writing\<rparr>"
      using commit_batch_fine [OF assms(1), of "cs\<lparr>cs_queue := rest\<rparr>" rs batch io] i(1) assms(6) by force
    then show ?thesis
      using g 2 gather_shorter [OF g]
      by (intro exI [of _ w] exI [of _ st] exI [of _ rest] exI [of _ "if stopping then Draining else Writing"])
        (auto simp: writer_round_def)
  qed
qed

lemma drain_fine:
  assumes "codec_ok enc dec crc" and "commit_inv enc dec crc cs" and "cs_phase cs = Draining"
    and "list_all (encodable enc) (cs_submitted cs)" and "batch_fine io"
  shows "cs_phase (writer_drain enc crc describe io cs) = Closed \<and>
     mark_durable (cs_mark (writer_drain enc crc describe io cs)) = last_seq_of (cs_submitted cs)"
proof -
  obtain rs where i: "log_history enc dec crc (cs_wal cs) rs" "cs_submitted cs = rs @ records_in (cs_queue cs)"
    "gapless (cs_submitted cs)" "opt_le (mark_durable (cs_mark cs)) (durable (cs_wal cs))"
    "\<forall>t \<in> set (cs_acked cs). wait_for t (cs_mark cs) = Released" "cs_mark cs = MarkLive (last_seq_of rs)"
    using commit_inv_working [OF assms(2)] assms(3) by blast
  let ?l = "records_in (cs_queue cs)" and ?cs = "cs\<lparr>cs_queue := []\<rparr>"
  show ?thesis
  proof (cases "?l = []")
    case True
    then show ?thesis using i(2,6) assms(3) by (simp add: writer_drain_def)
  next
    case False
    obtain w st where b: "commit_batch enc crc describe io ?l Draining ?cs = ?cs\<lparr>cs_wal := w, cs_mark := st, cs_phase := Draining\<rparr>"
      using commit_batch_fine [OF assms(1), of ?cs rs ?l io describe Draining] i assms(4,5) by auto
    have "commit_inv enc dec crc (commit_batch enc crc describe io ?l Draining ?cs)"
      using commit_batch_inv [OF assms(1), of ?cs rs ?l] i by simp
    then obtain rs' where "cs_submitted cs = rs'" "st = MarkLive (last_seq_of rs')"
      unfolding b by (auto simp: commit_inv_def log_behind_def)
    then show ?thesis using False b by (simp add: writer_drain_def)
  qed
qed

lemma writer_run_closed: "cs_phase cs = Closed \<Longrightarrow> writer_run enc crc describe ios cs = cs"
  by (induction ios) simp_all

lemma writer_run_flushes:
  assumes "codec_ok enc dec crc" and "commit_inv enc dec crc cs" and "list_all (encodable enc) (cs_submitted cs)"
    and "list_all batch_fine ios"
    and "cs_phase cs = Draining \<and> 0 < length ios \<or>
      cs_phase cs = Writing \<and> Msg_Stop \<in> set (cs_queue cs) \<and> length (cs_queue cs) < length ios"
  shows "cs_phase (writer_run enc crc describe ios cs) = Closed \<and>
     mark_durable (cs_mark (writer_run enc crc describe ios cs)) = last_seq_of (cs_submitted cs)"
  using assms(2-5)
proof (induction ios arbitrary: cs)
  case (Cons io ios)
  then have io: "batch_fine io" and ios: "list_all batch_fine ios" by simp_all
  show ?case
  proof (cases "cs_phase cs = Draining")
    case True
    then show ?thesis
      using drain_fine [OF assms(1) Cons.prems(1) True Cons.prems(2) io] by (simp add: writer_run_closed)
  next
    case False
    then have ph: "cs_phase cs = Writing" and st: "Msg_Stop \<in> set (cs_queue cs)"
      and len: "length (cs_queue cs) < length (io # ios)" using Cons.prems(4) by auto
    then have ne: "cs_queue cs \<noteq> []" by auto
    obtain w st q p where r: "writer_round enc crc describe io cs = cs\<lparr>cs_wal := w, cs_mark := st, cs_queue := q, cs_phase := p\<rparr>"
      "length q < length (cs_queue cs)" "p = Draining \<or> p = Writing \<and> Msg_Stop \<in> set q"
      using round_fine [OF assms(1) Cons.prems(1) ph ne Cons.prems(2) io] st by blast
    have "commit_inv enc dec crc (writer_round enc crc describe io cs)"
      using commit_inv_round [OF Cons.prems(1) assms(1) ph] .
    moreover have "ios \<noteq> []" using len r(2) by auto
    ultimately show ?thesis
      using Cons.IH [of "writer_round enc crc describe io cs"] Cons.prems(2) ios ph r(2,3) len
      by (auto simp: r(1))
  qed
qed simp

section \<open>Properties\<close>

text \<open>
  The watermark only moves forward. A waiter that a watermark releases is released after any further
  publications and after the watermark is closed; a closed watermark releases exactly the same
  waiters as before and leaves nobody parked.
\<close>

lemma released_stays_released:
  assumes "wait_for t st = Released"
  shows "wait_for t (mark_close reason (fold mark_publish qs st)) = Released \<and>
    wait_for t' (mark_close reason st) \<noteq> Parked \<and>
    (wait_for t' (mark_close reason st) = Released \<longleftrightarrow> wait_for t' st = Released)"
  using commit_mark.released_folds [OF assms] by (simp add: close_keeps close_decides)

end
