(* ===== verification/BTree_Map.thy ===== *)
theory BTree_Map
  imports Prelude
begin

text \<open>
  The part of Rust's \<open>std::collections::BTreeMap\<close> that the price ladder relies on: a map that
  iterates in key order. It is an association list with strictly increasing keys;
  \<open>bt_entry\<close> is \<open>entry(k).or_default()\<close> followed by an update of the slot,
  \<open>bt_split_off\<close> is \<open>split_off\<close>, \<open>bt_last_key\<close> is \<open>keys().next_back()\<close> and
  \<open>bt_retain\<close> is \<open>retain\<close> on the values.
\<close>

type_synonym ('k, 'v) btree = "('k \<times> 'v) list"

definition bt_ok :: "('k::linorder, 'v) btree \<Rightarrow> bool" where
  "bt_ok m \<longleftrightarrow> sorted_wrt (<) (map fst m)"

fun bt_entry :: "'k::linorder \<Rightarrow> 'v \<Rightarrow> ('v \<Rightarrow> 'v) \<Rightarrow> ('k, 'v) btree \<Rightarrow> ('k, 'v) btree" where
  "bt_entry k d f [] = [(k, f d)]"
| "bt_entry k d f ((k', v) # m) =
     (if k < k' then (k, f d) # (k', v) # m
      else if k = k' then (k, f v) # m
      else (k', v) # bt_entry k d f m)"

text \<open>\<open>split_off(k)\<close> keeps the keys below \<open>k\<close> and returns the others.\<close>

definition bt_split_off :: "'k::linorder \<Rightarrow> ('k, 'v) btree \<Rightarrow> ('k, 'v) btree \<times> ('k, 'v) btree" where
  "bt_split_off k m = (filter (\<lambda>e. fst e < k) m, filter (\<lambda>e. k \<le> fst e) m)"

definition bt_last_key :: "('k, 'v) btree \<Rightarrow> 'k option" where
  "bt_last_key m = (if m = [] then None else Some (fst (last m)))"

definition bt_retain :: "('v \<Rightarrow> bool) \<Rightarrow> ('k, 'v) btree \<Rightarrow> ('k, 'v) btree" where
  "bt_retain P m = filter (\<lambda>e. P (snd e)) m"

lemma bt_ok_Nil [simp]: "bt_ok []"
  by (simp add: bt_ok_def)

lemma bt_ok_Cons: "bt_ok ((k, v) # m) \<longleftrightarrow> (\<forall>e \<in> set m. k < fst e) \<and> bt_ok m"
  by (auto simp: bt_ok_def)

lemma bt_ok_filter [intro]: "bt_ok m \<Longrightarrow> bt_ok (filter P m)"
  by (induction m) (auto simp: bt_ok_Cons)

lemma bt_ok_retain [intro]: "bt_ok m \<Longrightarrow> bt_ok (bt_retain P m)"
  by (auto simp: bt_retain_def)

lemma set_bt_entry:
  "e \<in> set (bt_entry k d f m) \<Longrightarrow> e \<in> set m \<or> fst e = k"
  by (induction k d f m rule: bt_entry.induct) (auto split: if_splits)

lemma bt_ok_entry [intro]: "bt_ok m \<Longrightarrow> bt_ok (bt_entry k d f m)"
proof (induction k d f m rule: bt_entry.induct)
  case (2 k d f k' v m)
  then show ?case
    by (fastforce simp: bt_ok_Cons dest!: set_bt_entry)
qed (simp add: bt_ok_Cons)

text \<open>Lookup after an entry update: the only slot that changes is the one updated.\<close>

lemma bt_entry_lookup:
  "bt_ok m \<Longrightarrow> map_of (bt_entry k d f m) =
     (map_of m)(k \<mapsto> f (case map_of m k of None \<Rightarrow> d | Some v \<Rightarrow> v))"
proof (induction k d f m rule: bt_entry.induct)
  case (2 k d f k' v m)
  have "map_of m k = None" if "k < k'"
    using 2(2) that by (fastforce simp: bt_ok_Cons map_of_eq_None_iff)
  with 2 show ?case
    by (auto simp: bt_ok_Cons fun_eq_iff)
qed simp

lemma bt_last_key_max:
  "bt_ok m \<Longrightarrow> bt_last_key m = Some k \<Longrightarrow> e \<in> set m \<Longrightarrow> fst e \<le> k"
  by (induction m) (fastforce simp: bt_ok_Cons bt_last_key_def less_imp_le split: if_splits)+

end
