(* ===== verification/Ladder.thy ===== *)
theory Ladder
  imports Messages BTree_Map
begin

text \<open>
  The resting-bid ladder, \<open>crates/auction-core/src/ladder.rs\<close>: bids indexed by limit price in a
  \<open>BTreeMap\<close> of queues, with the total quantity kept beside the map.

  \<open>ladder_bids\<close> is the abstract content: every bid, highest limit first and in queue order
  within a limit. The locale \<open>resting_book\<close> states what each operation does to that list, and
  is what the state machine's proofs use; its interpretation shows that the code's data structure
  keeps those promises.
\<close>

section \<open>The data structure\<close>

record resting_bid =
  rb_seq :: seq
  rb_participant :: participant_id
  rb_key :: idempotency_key
  rb_qty :: qty
  rb_limit :: price

record price_ladder =
  levels :: "(price, resting_bid list) btree"
  total_qty :: qty

definition ladder_new :: price_ladder where
  "ladder_new = \<lparr>levels = [], total_qty = 0\<rparr>"

definition ladder_is_empty :: "price_ladder \<Rightarrow> bool" where
  "ladder_is_empty l \<longleftrightarrow> levels l = []"

definition ladder_len :: "price_ladder \<Rightarrow> nat" where
  "ladder_len l = sum_list (map (\<lambda>e. length (snd e)) (levels l))"

definition next_trigger :: "price_ladder \<Rightarrow> price option" where
  "next_trigger l = bt_last_key (levels l)"

definition ladder_insert :: "resting_bid \<Rightarrow> price_ladder \<Rightarrow> price_ladder" where
  "ladder_insert b l =
     l\<lparr>total_qty := u64_saturating_add (total_qty l) (rb_qty b),
       levels := bt_entry (rb_limit b) [] (\<lambda>q. q @ [b]) (levels l)\<rparr>"

definition drain_triggered :: "price \<Rightarrow> price_ladder \<Rightarrow> price_ladder \<times> resting_bid list" where
  "drain_triggered p l =
     (let (kept, triggered) = bt_split_off p (levels l);
          out = concat (map snd (rev triggered))
      in (l\<lparr>levels := kept,
            total_qty := fold (\<lambda>b n. u64_saturating_sub n (rb_qty b)) out (total_qty l)\<rparr>, out))"

definition drain_all :: "price_ladder \<Rightarrow> price_ladder \<times> resting_bid list" where
  "drain_all l = (l\<lparr>total_qty := 0, levels := []\<rparr>, concat (map snd (rev (levels l))))"

text \<open>\<open>position\<close> followed by \<open>VecDeque::remove\<close> on one level.\<close>

fun take_first :: "('a \<Rightarrow> bool) \<Rightarrow> 'a list \<Rightarrow> ('a \<times> 'a list) option" where
  "take_first P [] = None"
| "take_first P (x # xs) =
     (if P x then Some (x, xs)
      else case take_first P xs of None \<Rightarrow> None | Some (y, ys) \<Rightarrow> Some (y, x # ys))"

text \<open>The loop over the levels, in ascending order, that stops at the first match.\<close>

fun remove_in_levels ::
  "(resting_bid \<Rightarrow> bool) \<Rightarrow> (price, resting_bid list) btree \<Rightarrow>
   (resting_bid \<times> (price, resting_bid list) btree) option" where
  "remove_in_levels P [] = None"
| "remove_in_levels P ((k, q) # m) =
     (case take_first P q of
        Some (b, q') \<Rightarrow> Some (b, (k, q') # m)
      | None \<Rightarrow> (case remove_in_levels P m of None \<Rightarrow> None | Some (b, m') \<Rightarrow> Some (b, (k, q) # m')))"

definition ladder_remove ::
  "participant_id \<Rightarrow> idempotency_key \<Rightarrow> price_ladder \<Rightarrow> price_ladder \<times> resting_bid option" where
  "ladder_remove participant key l =
     (case remove_in_levels (\<lambda>b. rb_key b = key \<and> rb_participant b = participant) (levels l) of
        None \<Rightarrow> (l, None)
      | Some (bid, lv) \<Rightarrow>
          (l\<lparr>total_qty := u64_saturating_sub (total_qty l) (rb_qty bid),
             levels := bt_retain (\<lambda>q. q \<noteq> []) lv\<rparr>, Some bid))"

definition ladder_requeue :: "resting_bid \<Rightarrow> price_ladder \<Rightarrow> price_ladder" where
  "ladder_requeue b l =
     (if qty_is_zero (rb_qty b) then l
      else l\<lparr>total_qty := u64_saturating_add (total_qty l) (rb_qty b),
             levels := bt_entry (rb_limit b) [] (\<lambda>q. b # q) (levels l)\<rparr>)"

section \<open>The contract\<close>

text \<open>Where a bid goes in priority order: behind, or in front of, the bids at its own limit.\<close>

definition place_last :: "resting_bid \<Rightarrow> resting_bid list \<Rightarrow> resting_bid list" where
  "place_last b bs =
     takeWhile (\<lambda>x. rb_limit b \<le> rb_limit x) bs @ b # dropWhile (\<lambda>x. rb_limit b \<le> rb_limit x) bs"

definition place_first :: "resting_bid \<Rightarrow> resting_bid list \<Rightarrow> resting_bid list" where
  "place_first b bs =
     takeWhile (\<lambda>x. rb_limit b < rb_limit x) bs @ b # dropWhile (\<lambda>x. rb_limit b < rb_limit x) bs"

lemma mset_place [simp]:
  "mset (place_last b bs) = add_mset b (mset bs)" "mset (place_first b bs) = add_mset b (mset bs)"
  by (simp_all add: place_last_def place_first_def)

lemma set_place [simp]:
  "set (place_last b bs) = insert b (set bs)" "set (place_first b bs) = insert b (set bs)"
  by (simp_all flip: set_mset_mset)

locale resting_book =
  fixes inv :: "'l \<Rightarrow> bool"
    and bids :: "'l \<Rightarrow> resting_bid list"
    and empty :: 'l
    and put :: "resting_bid \<Rightarrow> 'l \<Rightarrow> 'l"
    and put_back :: "resting_bid \<Rightarrow> 'l \<Rightarrow> 'l"
    and fire :: "price \<Rightarrow> 'l \<Rightarrow> 'l \<times> resting_bid list"
    and fire_all :: "'l \<Rightarrow> 'l \<times> resting_bid list"
    and withdraw :: "participant_id \<Rightarrow> idempotency_key \<Rightarrow> 'l \<Rightarrow> 'l \<times> resting_bid option"
    and best :: "'l \<Rightarrow> price option"
  assumes inv_empty: "inv empty" and bids_empty: "bids empty = []"
    and inv_put: "inv l \<Longrightarrow> inv (put b l)"
    and bids_put: "inv l \<Longrightarrow> bids (put b l) = place_last b (bids l)"
    and inv_put_back: "inv l \<Longrightarrow> inv (put_back b l)"
    and bids_put_back: "inv l \<Longrightarrow> 0 < rb_qty b \<Longrightarrow> bids (put_back b l) = place_first b (bids l)"
    and inv_fire: "inv l \<Longrightarrow> inv (fst (fire p l))"
    and bids_fire: "inv l \<Longrightarrow> bids (fst (fire p l)) = filter (\<lambda>b. rb_limit b < p) (bids l)"
    and fired: "inv l \<Longrightarrow> snd (fire p l) = filter (\<lambda>b. p \<le> rb_limit b) (bids l)"
    and inv_fire_all: "inv l \<Longrightarrow> inv (fst (fire_all l))"
    and bids_fire_all: "inv l \<Longrightarrow> bids (fst (fire_all l)) = []"
    and fired_all: "inv l \<Longrightarrow> snd (fire_all l) = bids l"
    and inv_withdraw: "inv l \<Longrightarrow> inv (fst (withdraw pt k l))"
    and withdraw_Some: "inv l \<Longrightarrow> snd (withdraw pt k l) = Some b \<Longrightarrow>
       rb_key b = k \<and> rb_participant b = pt \<and>
       (\<exists>xs ys. bids l = xs @ b # ys \<and> bids (fst (withdraw pt k l)) = xs @ ys)"
    and withdraw_None: "inv l \<Longrightarrow> snd (withdraw pt k l) = None \<longleftrightarrow>
       (\<forall>b \<in> set (bids l). \<not> (rb_key b = k \<and> rb_participant b = pt))"
    and withdraw_None_same: "snd (withdraw pt k l) = None \<Longrightarrow> fst (withdraw pt k l) = l"
    and priority: "inv l \<Longrightarrow> sorted_wrt (\<lambda>x y. rb_limit y \<le> rb_limit x) (bids l)"
    and best_None: "inv l \<Longrightarrow> best l = None \<longleftrightarrow> bids l = []"
    and best_Some: "inv l \<Longrightarrow> best l = Some p \<Longrightarrow> bids l \<noteq> [] \<and> p = rb_limit (hd (bids l))"
begin

lemma fire_conserves:
  "inv l \<Longrightarrow> mset (bids (fst (fire p l))) + mset (snd (fire p l)) = mset (bids l)"
  by (simp add: bids_fire fired) (metis (no_types, lifting) linorder_not_le multiset_partition
      add.commute mset_filter filter_mset_cong)

lemma withdraw_conserves:
  assumes "inv l" and "snd (withdraw pt k l) = Some b"
  shows "mset (bids l) = add_mset b (mset (bids (fst (withdraw pt k l))))"
  using withdraw_Some [OF assms] by auto

lemma best_is_max:
  assumes "inv l" and "best l = Some p" and "b \<in> set (bids l)"
  shows "rb_limit b \<le> p"
proof -
  obtain x xs where "bids l = x # xs" and "p = rb_limit x"
    using best_Some [OF assms(1,2)] by (cases "bids l") auto
  then show ?thesis using priority [OF assms(1)] assms(3) by auto
qed

text \<open>After the clock has fired everything it reached, the best bid left is strictly below it.\<close>

lemma best_after_fire:
  assumes "inv l" and "best (fst (fire p l)) = Some q"
  shows "q < p"
proof -
  have "bids (fst (fire p l)) \<noteq> []" and q: "q = rb_limit (hd (bids (fst (fire p l))))"
    using best_Some [OF inv_fire [OF assms(1)] assms(2)] by auto
  then have "hd (bids (fst (fire p l))) \<in> set (filter (\<lambda>b. rb_limit b < p) (bids l))"
    using bids_fire [OF assms(1)] by (metis hd_in_set)
  with q show ?thesis by simp
qed

end

section \<open>The code keeps the contract\<close>

abbreviation bids_of :: "(price, resting_bid list) btree \<Rightarrow> resting_bid list" where
  "bids_of m \<equiv> concat (map snd (rev m))"

definition ladder_bids :: "price_ladder \<Rightarrow> resting_bid list" where
  "ladder_bids l = bids_of (levels l)"

definition levels_ok :: "(price, resting_bid list) btree \<Rightarrow> bool" where
  "levels_ok m \<longleftrightarrow> bt_ok m \<and> (\<forall>e \<in> set m. snd e \<noteq> [] \<and> (\<forall>b \<in> set (snd e). rb_limit b = fst e))"

definition ladder_ok :: "price_ladder \<Rightarrow> bool" where
  "ladder_ok l \<longleftrightarrow> levels_ok (levels l)"

lemma levels_ok_Nil [simp]: "levels_ok []"
  by (simp add: levels_ok_def)

lemma levels_ok_Cons: "levels_ok ((k, q) # m) \<longleftrightarrow>
    levels_ok m \<and> q \<noteq> [] \<and> (\<forall>b \<in> set q. rb_limit b = k) \<and> (\<forall>e \<in> set m. k < fst e)"
  by (auto simp: levels_ok_def bt_ok_Cons)

lemma levels_ok_above: "levels_ok ((k, q) # m) \<Longrightarrow> b \<in> set (bids_of m) \<Longrightarrow> k < rb_limit b"
  by (auto simp: levels_ok_def bt_ok_Cons)

lemma levels_ok_filter: "levels_ok m \<Longrightarrow> levels_ok (filter P m)"
  by (auto simp: levels_ok_def)

lemma takeWhile_stops:
  assumes "\<forall>x \<in> set ys. \<not> P x"
  shows "takeWhile P (xs @ ys) = takeWhile P xs" and "dropWhile P (xs @ ys) = dropWhile P xs @ ys"
proof -
  have "takeWhile P ys = []" and "dropWhile P ys = ys"
    using assms by (cases ys; auto)+
  then show "takeWhile P (xs @ ys) = takeWhile P xs" and "dropWhile P (xs @ ys) = dropWhile P xs @ ys"
    by (induction xs) auto
qed

lemma takeWhile_goes_on:
  "\<forall>x \<in> set xs. P x \<Longrightarrow> takeWhile P xs = xs \<and> dropWhile P xs = []"
  by (induction xs) auto

lemma bids_of_entry_last:
  "levels_ok m \<Longrightarrow> bids_of (bt_entry (rb_limit b) [] (\<lambda>q. q @ [b]) m) = place_last b (bids_of m)"
proof (induction m)
  case Nil
  then show ?case by (simp add: place_last_def)
next
  case (Cons e m)
  obtain k q where e: "e = (k, q)" by (cases e)
  have q: "\<forall>x \<in> set q. rb_limit x = k" and m: "\<forall>x \<in> set (bids_of m). k < rb_limit x"
    using Cons.prems levels_ok_above e by (auto simp: levels_ok_Cons)
  show ?case
  proof (cases "rb_limit b \<le> k")
    case True
    then have "\<forall>x \<in> set (bids_of m @ q). rb_limit b \<le> rb_limit x" using q m by fastforce
    then show ?thesis using True e by (auto simp: place_last_def takeWhile_goes_on)
  next
    case False
    then have "\<forall>x \<in> set q. \<not> rb_limit b \<le> rb_limit x" using q by simp
    then show ?thesis
      using False e Cons by (simp add: place_last_def takeWhile_stops levels_ok_Cons)
  qed
qed

lemma bids_of_entry_first:
  "levels_ok m \<Longrightarrow> bids_of (bt_entry (rb_limit b) [] (\<lambda>q. b # q) m) = place_first b (bids_of m)"
proof (induction m)
  case Nil
  then show ?case by (simp add: place_first_def)
next
  case (Cons e m)
  obtain k q where e: "e = (k, q)" by (cases e)
  have q: "\<forall>x \<in> set q. rb_limit x = k" and m: "\<forall>x \<in> set (bids_of m). k < rb_limit x"
    using Cons.prems levels_ok_above e by (auto simp: levels_ok_Cons)
  consider "rb_limit b < k" | "rb_limit b = k" | "k < rb_limit b" by linarith
  then show ?case
  proof cases
    case 1
    then have "\<forall>x \<in> set (bids_of m @ q). rb_limit b < rb_limit x" using q m by fastforce
    then show ?thesis using 1 e by (auto simp: place_first_def takeWhile_goes_on)
  next
    case 2
    then have "\<forall>x \<in> set q. \<not> rb_limit b < rb_limit x" and "\<forall>x \<in> set (bids_of m). rb_limit b < rb_limit x"
      using q m by auto
    then show ?thesis using 2 e by (simp add: place_first_def takeWhile_stops takeWhile_goes_on)
  next
    case 3
    then have "\<forall>x \<in> set q. \<not> rb_limit b < rb_limit x" using q by simp
    then show ?thesis
      using 3 e Cons by (simp add: place_first_def takeWhile_stops levels_ok_Cons)
  qed
qed

lemma levels_ok_entry:
  assumes "levels_ok m" and "\<And>q. f q \<noteq> []"
    and "\<And>q x. \<forall>y \<in> set q. rb_limit y = k \<Longrightarrow> x \<in> set (f q) \<Longrightarrow> rb_limit x = k"
  shows "levels_ok (bt_entry k [] f m)"
  using assms(1)
proof (induction m)
  case Nil
  then show ?case using assms(2,3) [of "[]"] by (simp add: levels_ok_def bt_ok_Cons)
next
  case (Cons e m)
  obtain k' q where e: "e = (k', q)" by (cases e)
  have "\<forall>e \<in> set (bt_entry k [] f m). k' < fst e" if "k' < k"
    using Cons.prems that e by (fastforce simp: levels_ok_Cons dest!: set_bt_entry)
  moreover have "\<forall>x \<in> set (f []). rb_limit x = k" using assms(3) [of "[]"] by simp
  ultimately show ?case
    using Cons assms(2,3) e by (auto simp: levels_ok_Cons)
qed

lemma concat_filter_levels:
  assumes "levels_ok m" and "\<And>e b. e \<in> set m \<Longrightarrow> b \<in> set (snd e) \<Longrightarrow> P (fst e) \<longleftrightarrow> Q b"
  shows "bids_of (filter (\<lambda>e. P (fst e)) m) = filter Q (bids_of m)"
  using assms
proof (induction m)
  case (Cons e m)
  obtain k q where e: "e = (k, q)" by (cases e)
  have "filter Q q = (if P k then q else [])"
    using Cons.prems(2) [of e] e by (auto simp: filter_empty_conv intro!: filter_True)
  then show ?case using Cons e by (auto simp: levels_ok_Cons)
qed simp

lemma take_first_Some:
  "take_first P q = Some (b, q') \<Longrightarrow> P b \<and> (\<exists>xs ys. q = xs @ b # ys \<and> q' = xs @ ys)"
proof (induction q arbitrary: q')
  case (Cons x q)
  show ?case
  proof (cases "P x")
    case True
    then show ?thesis using Cons.prems by (auto intro: exI [of _ "[]"])
  next
    case False
    then obtain ys where "take_first P q = Some (b, ys)" and q': "q' = x # ys"
      using Cons.prems by (auto split: option.splits)
    then obtain us vs where "P b" "q = us @ b # vs" "ys = us @ vs" using Cons.IH by blast
    then have "x # q = (x # us) @ b # vs" "q' = (x # us) @ vs" using q' by simp_all
    then show ?thesis using \<open>P b\<close> by blast
  qed
qed simp

lemma take_first_None: "take_first P q = None \<longleftrightarrow> (\<forall>x \<in> set q. \<not> P x)"
  by (induction q) (auto split: option.splits)

lemma remove_in_levels_None:
  "remove_in_levels P m = None \<longleftrightarrow> (\<forall>b \<in> set (bids_of m). \<not> P b)"
proof (induction P m rule: remove_in_levels.induct)
  case (2 P k q m)
  show ?case
  proof (cases "take_first P q")
    case None
    then have "\<forall>x \<in> set q. \<not> P x" by (simp add: take_first_None)
    with None 2 show ?thesis by (auto split: option.splits)
  next
    case (Some r)
    then obtain b q' where r: "take_first P q = Some (b, q')" by (cases r) auto
    then have "P b \<and> b \<in> set q" using take_first_Some by fastforce
    with r show ?thesis by auto
  qed
qed simp

lemma bids_of_retain: "bids_of (bt_retain (\<lambda>q. q \<noteq> []) m) = bids_of m"
  by (induction m) (auto simp: bt_retain_def)

lemma remove_in_levels_Some:
  "remove_in_levels P m = Some (b, m') \<Longrightarrow>
     P b \<and> (\<exists>xs ys. bids_of m = xs @ b # ys \<and> bids_of m' = xs @ ys)"
proof (induction P m arbitrary: m' rule: remove_in_levels.induct)
  case (2 P k q m)
  show ?case
  proof (cases "take_first P q")
    case (Some r)
    then obtain q' where r: "take_first P q = Some (b, q')" "m' = (k, q') # m"
      using 2(2) by (auto split: prod.splits)
    from take_first_Some [OF r(1)] obtain xs ys where "P b" "q = xs @ b # ys" "q' = xs @ ys"
      by auto
    then have "bids_of ((k, q) # m) = (bids_of m @ xs) @ b # ys" "bids_of m' = (bids_of m @ xs) @ ys"
      using r by simp_all
    with \<open>P b\<close> show ?thesis by blast
  next
    case None
    then obtain n where n: "remove_in_levels P m = Some (b, n)" "m' = (k, q) # n"
      using 2(2) by (auto split: option.splits)
    from 2(1) [OF None n(1)] obtain xs ys
      where "P b" "bids_of m = xs @ b # ys" "bids_of n = xs @ ys"
      by auto
    then have "bids_of ((k, q) # m) = xs @ b # (ys @ q)" "bids_of m' = xs @ (ys @ q)"
      using n by simp_all
    then show ?thesis using \<open>P b\<close> by blast
  qed
qed simp

lemma take_first_set: "take_first P q = Some (b, q') \<Longrightarrow> set q' \<subseteq> set q"
  using take_first_Some [of P q b q'] by auto

lemma remove_in_levels_keys:
  "remove_in_levels P m = Some (b, m') \<Longrightarrow> map fst m' = map fst m \<and>
     (\<forall>e \<in> set m'. \<exists>e' \<in> set m. fst e' = fst e \<and> set (snd e) \<subseteq> set (snd e'))"
proof (induction P m arbitrary: m' rule: remove_in_levels.induct)
  case (2 P k q m)
  show ?case
  proof (cases "take_first P q")
    case (Some r)
    then obtain q' where r: "take_first P q = Some (b, q')" "m' = (k, q') # m"
      using 2(2) by (auto split: prod.splits)
    have "\<exists>e' \<in> set m. fst e' = fst e \<and> set (snd e) \<subseteq> set (snd e')" if "e \<in> set m" for e
      using that by blast
    then show ?thesis using r take_first_set [OF r(1)] by auto
  next
    case None
    then obtain n where n: "remove_in_levels P m = Some (b, n)" "m' = (k, q) # n"
      using 2(2) by (auto split: option.splits)
    show ?thesis using 2(1) [OF None n(1)] n(2) by auto
  qed
qed simp

lemma levels_ok_remove:
  assumes "levels_ok m" and "remove_in_levels P m = Some (b, m')"
  shows "levels_ok (bt_retain (\<lambda>q. q \<noteq> []) m')"
proof -
  have "bt_ok m'" using assms remove_in_levels_keys [OF assms(2)] by (simp add: bt_ok_def levels_ok_def)
  moreover have "\<forall>x \<in> set (snd e). rb_limit x = fst e" if "e \<in> set m'" for e
    using remove_in_levels_keys [OF assms(2)] assms(1) that unfolding levels_ok_def by fastforce
  ultimately show ?thesis
    unfolding levels_ok_def by (auto simp: bt_retain_def)
qed

lemma bids_of_priority: "levels_ok m \<Longrightarrow> sorted_wrt (\<lambda>x y. rb_limit y \<le> rb_limit x) (bids_of m)"
proof (induction m)
  case (Cons e m)
  obtain k q where e: "e = (k, q)" by (cases e)
  have q: "\<forall>x \<in> set q. rb_limit x = k" and m: "\<forall>x \<in> set (bids_of m). k < rb_limit x"
    using Cons.prems levels_ok_above e by (auto simp: levels_ok_Cons)
  have "sorted_wrt (\<lambda>x y. rb_limit y \<le> rb_limit x) q"
    using q by (induction q) auto
  then show ?case using Cons q m e by (auto simp: sorted_wrt_append levels_ok_Cons) fastforce
qed simp

lemma bids_of_Nil_iff: "levels_ok m \<Longrightarrow> bids_of m = [] \<longleftrightarrow> m = []"
  by (cases m rule: rev_cases) (auto simp: levels_ok_def)

lemma last_level_best:
  assumes "levels_ok m" and "m \<noteq> []"
  shows "fst (last m) = rb_limit (hd (bids_of m))"
proof -
  obtain m' e where m: "m = m' @ [e]" using assms(2) by (cases m rule: rev_cases) auto
  then have "snd e \<noteq> []" "\<forall>b \<in> set (snd e). rb_limit b = fst e" using assms(1) by (auto simp: levels_ok_def)
  then show ?thesis using m by (simp add: hd_append)
qed

lemmas ladder_op_defs = ladder_ok_def ladder_bids_def ladder_new_def ladder_insert_def
  ladder_requeue_def drain_triggered_def drain_all_def next_trigger_def
  bt_split_off_def bt_last_key_def qty_is_zero_def

lemma ladder_remove_Some:
  assumes "snd (ladder_remove pt k l) = Some b"
  shows "rb_key b = k \<and> rb_participant b = pt \<and>
    (\<exists>xs ys. ladder_bids l = xs @ b # ys \<and> ladder_bids (fst (ladder_remove pt k l)) = xs @ ys)"
proof -
  let ?P = "\<lambda>b. rb_key b = k \<and> rb_participant b = pt"
  obtain m where m: "remove_in_levels ?P (levels l) = Some (b, m)"
    using assms by (auto simp: ladder_remove_def split: option.splits)
  then show ?thesis
    using remove_in_levels_Some [OF m]
    by (simp add: ladder_remove_def ladder_bids_def bids_of_retain)
qed

lemma ladder_remove_None:
  "snd (ladder_remove pt k l) = None \<longleftrightarrow>
     (\<forall>b \<in> set (ladder_bids l). \<not> (rb_key b = k \<and> rb_participant b = pt))"
  unfolding ladder_bids_def remove_in_levels_None [symmetric]
  by (auto simp: ladder_remove_def split: option.splits)

lemma ladder_ok_remove: "ladder_ok l \<Longrightarrow> ladder_ok (fst (ladder_remove pt k l))"
  by (auto simp: ladder_remove_def ladder_ok_def levels_ok_remove split: option.splits)

lemma drain_triggered_bids:
  assumes "ladder_ok l"
  shows "ladder_bids (fst (drain_triggered p l)) = filter (\<lambda>b. rb_limit b < p) (ladder_bids l)"
    and "snd (drain_triggered p l) = filter (\<lambda>b. p \<le> rb_limit b) (ladder_bids l)"
proof -
  have l: "levels_ok (levels l)" using assms by (simp add: ladder_ok_def)
  then have lim: "e \<in> set (levels l) \<Longrightarrow> b \<in> set (snd e) \<Longrightarrow> rb_limit b = fst e" for e b
    by (auto simp: levels_ok_def)
  show "ladder_bids (fst (drain_triggered p l)) = filter (\<lambda>b. rb_limit b < p) (ladder_bids l)"
    using concat_filter_levels [OF l, of "\<lambda>k. k < p" "\<lambda>b. rb_limit b < p"] lim
    by (simp add: ladder_op_defs Let_def)
  show "snd (drain_triggered p l) = filter (\<lambda>b. p \<le> rb_limit b) (ladder_bids l)"
    using concat_filter_levels [OF l, of "\<lambda>k. p \<le> k" "\<lambda>b. p \<le> rb_limit b"] lim
    by (simp add: ladder_op_defs Let_def)
qed

interpretation ladder: resting_book ladder_ok ladder_bids ladder_new ladder_insert ladder_requeue
  drain_triggered drain_all ladder_remove next_trigger
proof (unfold_locales, goal_cases)
  case (3 l b)
  then show ?case by (auto simp: ladder_op_defs intro!: levels_ok_entry)
next
  case (5 l b)
  then show ?case by (auto simp: ladder_op_defs intro!: levels_ok_entry)
next
  case (7 l p)
  then show ?case by (simp add: ladder_op_defs Let_def levels_ok_filter)
next
  case (16 l pt k)
  then show ?case by (auto simp: ladder_remove_def split: option.splits)
next
  case (19 l p)
  then have ok: "levels_ok (levels l)" and ne: "levels l \<noteq> []" and p: "p = fst (last (levels l))"
    by (auto simp: ladder_op_defs split: if_splits)
  show ?case
    using bids_of_Nil_iff [OF ok] last_level_best [OF ok ne] ne p
    by (simp add: ladder_bids_def)
next
  case (18 l)
  then have "levels_ok (levels l)" by (simp add: ladder_ok_def)
  then show ?case using bids_of_Nil_iff by (auto simp: next_trigger_def bt_last_key_def ladder_bids_def)
next
  case (15 l pt k)
  show ?case by (rule ladder_remove_None)
next
  case (14 l pt k b)
  then show ?case by (intro ladder_remove_Some)
qed (simp_all add: drain_triggered_bids ladder_ok_remove,
    simp_all add: ladder_op_defs bids_of_entry_last bids_of_entry_first bids_of_priority bids_of_Nil_iff)

section \<open>Properties\<close>

definition sample_rest :: "seq \<Rightarrow> qty \<Rightarrow> price \<Rightarrow> resting_bid" where
  "sample_rest sq q p =
     \<lparr>rb_seq = sq, rb_participant = ParticipantId (of_nat sq), rb_key = IdempotencyKey (of_nat sq), rb_qty = q,
      rb_limit = p\<rparr>"

definition sample_ladder :: price_ladder where
  "sample_ladder = ladder_insert (sample_rest 3 1 800) (ladder_insert (sample_rest 2 1 900)
     (ladder_insert (sample_rest 1 1 800) ladder_new))"

lemma sample_ladder_ok: "ladder_ok sample_ladder"
  by (simp add: sample_ladder_def ladder.inv_put ladder.inv_empty)

text \<open>
  C35: the ladder fires what the clock has reached. Draining the ladder at a price returns exactly the bids
  with a limit at or above it, best limit first and in queue order within a limit, leaves exactly the
  others, loses no bid, and leaves the next trigger strictly below the price.
\<close>

theorem drain_fires_what_is_reached:
  assumes "ladder_ok l" and "drain_triggered p l = (l', fired)"
  shows "fired = filter (\<lambda>b. p \<le> rb_limit b) (ladder_bids l) \<and>
    ladder_bids l' = filter (\<lambda>b. rb_limit b < p) (ladder_bids l) \<and> ladder_ok l' \<and>
    sorted_wrt (\<lambda>x y. rb_limit y \<le> rb_limit x) fired \<and>
    mset (ladder_bids l') + mset fired = mset (ladder_bids l) \<and>
    (case next_trigger l' of None \<Rightarrow> ladder_bids l' = [] | Some q \<Rightarrow> q < p)"
proof -
  have l': "l' = fst (drain_triggered p l)" "fired = snd (drain_triggered p l)" using assms(2) by simp_all
  have "sorted_wrt (\<lambda>x y. rb_limit y \<le> rb_limit x) fired"
    unfolding l' ladder.fired [OF assms(1)] using ladder.priority [OF assms(1)] by (rule sorted_wrt_filter)
  moreover have "case next_trigger l' of None \<Rightarrow> ladder_bids l' = [] | Some q \<Rightarrow> q < p"
    unfolding l' using ladder.best_None [OF ladder.inv_fire [OF assms(1)], of p] ladder.best_after_fire [OF assms(1)]
    by (auto split: option.splits)
  ultimately show ?thesis
    using ladder.fired [OF assms(1), of p] ladder.bids_fire [OF assms(1), of p] ladder.inv_fire [OF assms(1), of p]
      ladder.fire_conserves [OF assms(1), of p] unfolding l' by auto
qed

theorem drain_fires_what_is_reached_witness:
  "map rb_seq (snd (drain_triggered 800 sample_ladder)) = [2, 1, 3] \<and>
   ladder_ok (fst (drain_triggered 850 sample_ladder)) \<and>
   map rb_seq (snd (drain_triggered 850 sample_ladder)) = [2]"
proof -
  have "ladder_ok (fst (drain_triggered 850 sample_ladder))"
    using drain_fires_what_is_reached [OF sample_ladder_ok, of 850] by (cases "drain_triggered 850 sample_ladder") auto
  moreover have "map rb_seq (snd (drain_triggered 800 sample_ladder)) = [2, 1, 3]"
    and "map rb_seq (snd (drain_triggered 850 sample_ladder)) = [2]" by code_simp+
  ultimately show ?thesis by blast
qed

text \<open>
  Withdrawing is exact. Removing a bid by participant and key either finds a bid of that
  participant with that key, takes this one bid out and keeps the order of all others, or there is no such
  bid and the ladder is unchanged.
\<close>

lemma remove_takes_one_bid:
  assumes "ladder_ok l" and "ladder_remove pt key l = (l', found)"
  shows "ladder_ok l' \<and>
    (case found of
       Some b \<Rightarrow> rb_key b = key \<and> rb_participant b = pt \<and>
         (\<exists>xs ys. ladder_bids l = xs @ b # ys \<and> ladder_bids l' = xs @ ys)
     | None \<Rightarrow> l' = l \<and> \<not> (\<exists>b \<in> set (ladder_bids l). rb_key b = key \<and> rb_participant b = pt))"
proof -
  have l': "l' = fst (ladder_remove pt key l)" "found = snd (ladder_remove pt key l)" using assms(2) by simp_all
  show ?thesis
  proof (cases found)
    case None
    then have "snd (ladder_remove pt key l) = None" by (simp add: l')
    then show ?thesis
      using ladder.withdraw_None [OF assms(1), of pt key] ladder.withdraw_None_same [of pt key l] assms(1) None
      by (simp add: l')
  next
    case (Some b)
    then show ?thesis
      using ladder.withdraw_Some [OF assms(1), of pt key b] ladder.inv_withdraw [OF assms(1), of pt key]
      by (simp add: l')
  qed
qed

end
