(* ===== verification/Matching.thy ===== *)
theory Matching
  imports Messages "HOL-Library.Product_Lexorder"
begin

text \<open>
  Matching one batch window against the remaining supply, the arithmetic part of
  \<open>flush_window\<close> in \<open>crates/auction-core/src/state.rs\<close>: the priority order, the loop over
  price levels, and the pro-rata allocation of one level (\<open>allocate\<close>).

  The results are the shares: nobody gets more than asked, the level gets exactly
  \<open>min demand remaining\<close>, each share is the floored pro-rata share or one more, the extra units
  go to the earliest bids, and a level is served only when every better level is filled.
\<close>

record pending_bid =
  pb_seq :: seq
  pb_participant :: participant_id
  pb_key :: idempotency_key
  pb_qty :: qty
  pb_priority :: price
  pb_reserve_price :: price
  pb_resting_limit :: "price option"

definition bid_ok :: "pending_bid \<Rightarrow> bool" where
  "bid_ok b \<longleftrightarrow> 0 < pb_qty b \<and> u64_ok (pb_qty b)"

section \<open>One price level\<close>

text \<open>
  The second loop of \<open>allocate\<close>: one unit more for each bid in priority order while units are
  left. The result carries what is left over, which the source asserts to be zero.
\<close>

fun distribute :: "u64 list \<Rightarrow> pending_bid list \<Rightarrow> u64 \<Rightarrow> u64 list \<times> u64" where
  "distribute (a # as) (b # bs) left =
     (if left = 0 then (a # as, left)
      else if a < pb_qty b then let (r, left') = distribute as bs (left - 1) in ((a + 1) # r, left')
      else let (r, left') = distribute as bs left in (a # r, left'))"
| "distribute as bs left = (as, left)"

definition demand :: "pending_bid list \<Rightarrow> nat" where
  "demand level = sum_list (map pb_qty level)"

definition floor_shares :: "pending_bid list \<Rightarrow> u64 \<Rightarrow> u64 list" where
  "floor_shares level remaining =
     map (\<lambda>b. u64_wrap (remaining * pb_qty b div demand level)) level"

definition allocate :: "pending_bid list \<Rightarrow> u64 \<Rightarrow> u64 list" where
  "allocate level remaining =
     (if demand level \<le> remaining then map pb_qty level
      else let alloc = floor_shares level remaining;
               left = u64_wrapping_sub remaining (u64_wrap (sum_list alloc))
           in fst (distribute alloc level left))"

lemma distribute_eq:
  "list_all2 (\<lambda>a b. a < pb_qty b) as bs \<Longrightarrow> left \<le> length as \<Longrightarrow>
     distribute as bs left = (map Suc (take left as) @ drop left as, 0)"
proof (induction as bs arbitrary: left rule: list_all2_induct)
  case (Cons a as b bs)
  then show ?case by (cases left) auto
qed simp

lemma sum_map_Suc_take: "left \<le> length as \<Longrightarrow> sum_list (map Suc (take left as) @ drop left as) = sum_list as + left"
proof (induction as arbitrary: left)
  case (Cons a as)
  then show ?case by (cases left) auto
qed simp

text \<open>The floored shares: exact as 64-bit values, below the request, and fewer than one unit per bid short.\<close>

definition short_level :: "pending_bid list \<Rightarrow> u64 \<Rightarrow> bool" where
  "short_level level remaining \<longleftrightarrow>
     (\<forall>b \<in> set level. bid_ok b) \<and> u64_ok remaining \<and> remaining < demand level"

lemma share_le:
  assumes "short_level level r" and "b \<in> set level"
  shows "r * pb_qty b div demand level \<le> r"
proof -
  have "pb_qty b \<le> demand level" using assms(2) unfolding demand_def by (simp add: member_le_sum_list)
  then have "r * pb_qty b \<le> r * demand level" by simp
  then have "r * pb_qty b div demand level \<le> r * demand level div demand level"
    by (rule div_le_mono)
  then show ?thesis using assms(1) by (simp add: short_level_def)
qed

lemma share_less: "short_level level r \<Longrightarrow> b \<in> set level \<Longrightarrow> r * pb_qty b div demand level < pb_qty b"
  by (intro less_mult_imp_div_less) (auto simp: short_level_def bid_ok_def mult.commute)

lemma floor_shares_eq:
  assumes "short_level level r"
  shows "floor_shares level r = map (\<lambda>b. r * pb_qty b div demand level) level"
  unfolding floor_shares_def using share_le [OF assms] assms
  by (intro map_cong refl u64_wrap_small) (auto simp: u64_ok_def short_level_def intro: le_trans)

lemma scaled_sum:
  fixes k D :: nat
  assumes "0 < D"
  shows "D * sum_list (map (\<lambda>b. k * pb_qty b div D) bs) \<le> k * sum_list (map pb_qty bs)"
    and "bs \<noteq> [] \<Longrightarrow>
      k * sum_list (map pb_qty bs) < D * (sum_list (map (\<lambda>b. k * pb_qty b div D) bs) + length bs)"
proof (induction bs)
  case (Cons b bs)
  have m: "D * (k * pb_qty b div D) \<le> k * pb_qty b" by simp
  have n: "k * pb_qty b < D * (k * pb_qty b div D) + D"
    using assms by (metis add_less_cancel_left mod_less_divisor mult_div_mod_eq)
  { case 1 show ?case using add_mono [OF m Cons(1)] by (simp add: algebra_simps) }
  { case 2 show ?case using Cons(2) n by (cases bs) (auto simp: algebra_simps) }
qed simp_all

lemma short_level_nonempty: "short_level level r \<Longrightarrow> level \<noteq> []"
  by (auto simp: short_level_def demand_def)

lemma floor_sum_le:
  assumes "short_level level r"
  shows "sum_list (floor_shares level r) \<le> r"
proof -
  have D: "0 < demand level" using assms by (simp add: short_level_def)
  have "demand level * sum_list (floor_shares level r) \<le> demand level * r"
    using scaled_sum(1) [OF D, of r level]
    by (simp add: floor_shares_eq [OF assms] demand_def [symmetric] mult.commute)
  then show ?thesis using D by simp
qed

text \<open>What flooring leaves over, before the second loop hands it out.\<close>

definition left_over :: "pending_bid list \<Rightarrow> u64 \<Rightarrow> nat" where
  "left_over level r = r - sum_list (floor_shares level r)"

lemma left_over_less:
  assumes "short_level level r"
  shows "left_over level r < length level"
proof -
  have D: "0 < demand level" using assms by (simp add: short_level_def)
  have "demand level * r < demand level * (sum_list (floor_shares level r) + length level)"
    using scaled_sum(2) [OF D short_level_nonempty [OF assms], of r]
    by (simp add: floor_shares_eq [OF assms] demand_def [symmetric] mult.commute)
  then have "r < sum_list (floor_shares level r) + length level" by simp
  moreover have "0 < length level" using short_level_nonempty [OF assms] by simp
  ultimately show ?thesis unfolding left_over_def by linarith
qed

lemma left_over_code:
  assumes "short_level level r"
  shows "u64_wrapping_sub r (u64_wrap (sum_list (floor_shares level r))) = left_over level r"
  using floor_sum_le [OF assms] assms by (simp add: u64_ok_def short_level_def left_over_def)

lemma length_floor_shares [simp]: "length (floor_shares level r) = length level"
  by (simp add: floor_shares_def)

text \<open>The second loop places every unit that is left: the source's closing assertion holds.\<close>

lemma distribute_shares:
  assumes "short_level level r"
  shows "distribute (floor_shares level r) level (left_over level r) =
     (map Suc (take (left_over level r) (floor_shares level r)) @
      drop (left_over level r) (floor_shares level r), 0)"
proof (rule distribute_eq)
  show "list_all2 (\<lambda>a b. a < pb_qty b) (floor_shares level r) level"
    unfolding floor_shares_eq [OF assms] by (auto simp: list_all2_conv_all_nth share_less [OF assms])
  show "left_over level r \<le> length (floor_shares level r)"
    using left_over_less [OF assms] by simp
qed

text \<open>The allocation of an over-subscribed level in closed form.\<close>

lemma allocate_short:
  assumes "short_level level r"
  shows "allocate level r = map Suc (take (left_over level r) (floor_shares level r)) @
     drop (left_over level r) (floor_shares level r)"
proof -
  have "\<not> demand level \<le> r" using assms by (simp add: short_level_def)
  then show ?thesis
    by (simp only: allocate_def if_False Let_def left_over_code [OF assms] distribute_shares [OF assms] fst_conv)
qed

lemma allocate_short_nth:
  assumes "short_level level r" and "i < length level"
  shows "allocate level r ! i = r * pb_qty (level ! i) div demand level +
    (if i < left_over level r then 1 else 0)"
  using assms(2) left_over_less [OF assms(1)]
  by (auto simp: allocate_short [OF assms(1)] nth_append floor_shares_eq [OF assms(1)])

lemma allocate_full: "demand level \<le> r \<Longrightarrow> allocate level r = map pb_qty level"
  by (simp add: allocate_def)

lemma short_levelI:
  "\<forall>b \<in> set level. bid_ok b \<Longrightarrow> u64_ok r \<Longrightarrow> \<not> demand level \<le> r \<Longrightarrow> short_level level r"
  by (simp add: short_level_def)

lemma allocate_length:
  assumes "\<forall>b \<in> set level. bid_ok b" and "u64_ok r"
  shows "length (allocate level r) = length level"
proof (cases "demand level \<le> r")
  case False
  from short_levelI [OF assms False] have s: "short_level level r" .
  show ?thesis using left_over_less [OF s] by (simp add: allocate_short [OF s])
qed (simp add: allocate_full)

lemma allocate_sum:
  assumes "\<forall>b \<in> set level. bid_ok b" and "u64_ok r"
  shows "sum_list (allocate level r) = min (demand level) r"
proof (cases "demand level \<le> r")
  case False
  from short_levelI [OF assms False] have s: "short_level level r" .
  have "sum_list (allocate level r) = sum_list (floor_shares level r) + left_over level r"
    using sum_map_Suc_take [of "left_over level r" "floor_shares level r"] left_over_less [OF s]
    by (simp add: allocate_short [OF s])
  also have "\<dots> = r" using floor_sum_le [OF s] by (simp add: left_over_def)
  finally show ?thesis using False by simp
qed (simp add: allocate_full demand_def)

lemma allocate_le:
  assumes "\<forall>b \<in> set level. bid_ok b" and "u64_ok r" and "i < length level"
  shows "allocate level r ! i \<le> pb_qty (level ! i)"
proof (cases "demand level \<le> r")
  case False
  from short_levelI [OF assms(1,2) False] have s: "short_level level r" .
  have "r * pb_qty (level ! i) div demand level < pb_qty (level ! i)"
    using share_less [OF s] assms(3) by simp
  then show ?thesis using allocate_short_nth [OF s assms(3)] by simp
qed (use assms(3) in \<open>simp add: allocate_full\<close>)

section \<open>The whole window\<close>

text \<open>\<open>sort_by\<close> is stable, as \<open>sort_key\<close> is; the key is priority descending, then sequence.\<close>

definition sort_bids :: "pending_bid list \<Rightarrow> pending_bid list" where
  "sort_bids bids = sort_key (\<lambda>b. (- pb_priority b, pb_seq b)) bids"

text \<open>
  The loop over levels: \<open>rem\<close> is \<open>supply_remaining\<close> and \<open>exhausted\<close> the flag of the same
  name. A level met after the supply ran out keeps its zeros and leaves the flag alone.
\<close>

function match_levels :: "pending_bid list \<Rightarrow> qty \<Rightarrow> bool \<Rightarrow> u64 list \<times> qty \<times> bool" where
  "match_levels [] rem exhausted = ([], rem, exhausted)"
| "match_levels (b # bs) rem exhausted =
     (let level = b # takeWhile (\<lambda>c. pb_priority c = pb_priority b) bs;
          rest = dropWhile (\<lambda>c. pb_priority c = pb_priority b) bs
      in if \<not> qty_is_zero rem then
           (let shares = allocate level rem;
                taken = u64_wrap (sum_list shares);
                rem' = u64_saturating_sub rem taken;
                (allocs, rem'', exhausted') = match_levels rest rem' (qty_is_zero rem')
            in (shares @ allocs, rem'', exhausted'))
         else
           (let (allocs, rem'', exhausted') = match_levels rest rem exhausted
            in (replicate (length level) 0 @ allocs, rem'', exhausted')))"
  by pat_completeness auto
termination
  by (relation "measure (\<lambda>(bs, _, _). length bs)") auto

declare match_levels.simps(2) [simp del]

lemma demand_append [simp]: "demand (xs @ ys) = demand xs + demand ys"
  by (simp add: demand_def)

lemma demand_0: "\<forall>b \<in> set bs. bid_ok b \<Longrightarrow> demand bs = 0 \<longleftrightarrow> bs = []"
  by (cases bs) (auto simp: demand_def bid_ok_def)

lemma level_split:
  "(b # takeWhile P bs) @ dropWhile P bs = b # bs"
  by simp

text \<open>
  What a window hands out: one share per bid, none above its request, in total
  \<open>min demand rem\<close>; the flag comes out set exactly when this window took the last unit.
\<close>

lemma match_levels_spec:
  assumes "\<forall>b \<in> set bs. bid_ok b" and "u64_ok rem" and "match_levels bs rem ex = (allocs, rem', ex')"
  shows "list_all2 (\<lambda>b a. a \<le> pb_qty b) bs allocs \<and> sum_list allocs = min (demand bs) rem \<and>
    rem' = rem - min (demand bs) rem \<and> ex' = (if rem = 0 \<or> bs = [] then ex else rem' = 0) \<and>
    (demand bs \<le> rem \<longrightarrow> allocs = map pb_qty bs)"
  using assms
proof (induction bs rem ex arbitrary: allocs rem' ex' rule: match_levels.induct)
  case (1 rem ex)
  then show ?case by (simp add: demand_def)
next
  case (2 b bs rem ex)
  let ?P = "\<lambda>c. pb_priority c = pb_priority b"
  define level where "level = b # takeWhile ?P bs"
  define rest where "rest = dropWhile ?P bs"
  have split: "b # bs = level @ rest" by (simp add: level_def rest_def)
  have ok: "\<forall>b \<in> set level. bid_ok b" "\<forall>b \<in> set rest. bid_ok b"
    using 2(3) unfolding split by auto
  show ?case
  proof (cases "rem = 0")
    case True
    obtain as r e where m: "match_levels rest rem ex = (as, r, e)" by (metis prod_cases3)
    then have res: "allocs = replicate (length level) 0 @ as" "rem' = r" "ex' = e"
      using 2(5) True by (auto simp: match_levels.simps(2) level_def rest_def qty_is_zero_def)
    have IH: "list_all2 (\<lambda>b a. a \<le> pb_qty b) rest as \<and> sum_list as = min (demand rest) rem \<and>
        r = rem - min (demand rest) rem \<and> e = (if rem = 0 \<or> rest = [] then ex else r = 0)"
      using 2(2) [OF refl rest_def _ ok(2) 2(4) m] True by (simp add: qty_is_zero_def level_def)
    have z: "list_all2 (\<lambda>b a. a \<le> pb_qty b) level (replicate (length level) 0)"
      by (simp add: list_all2_conv_all_nth)
    have "demand (b # bs) \<noteq> 0" using 2(3) demand_0 [of "b # bs"] by auto
    then show ?thesis
      unfolding res split using True IH z list_all2_appendI [OF z, of rest as]
      by (auto simp: sum_list_replicate)
  next
    case False
    define shares where "shares = allocate level rem"
    define rem1 where "rem1 = rem - min (demand level) rem"
    have sum: "sum_list shares = min (demand level) rem"
      using allocate_sum [OF ok(1) 2(4)] by (simp add: shares_def)
    then have r1: "u64_saturating_sub rem (u64_wrap (sum_list shares)) = rem1"
      using 2(4) by (simp add: rem1_def u64_ok_def)
    obtain as r e where m: "match_levels rest rem1 (rem1 = 0) = (as, r, e)" by (metis prod_cases3)
    then have res: "allocs = shares @ as" "rem' = r" "ex' = e"
      using 2(5) False
      by (auto simp: match_levels.simps(2) level_def [symmetric] rest_def [symmetric]
          shares_def [symmetric] r1 qty_is_zero_def Let_def simp del: u64_saturating_sub_minus)
    have u: "u64_ok rem1" using 2(4) by (simp add: rem1_def)
    have IH: "list_all2 (\<lambda>b a. a \<le> pb_qty b) rest as \<and> sum_list as = min (demand rest) rem1 \<and>
        r = rem1 - min (demand rest) rem1 \<and> e = (if rem1 = 0 \<or> rest = [] then (rem1 = 0) else r = 0) \<and>
        (demand rest \<le> rem1 \<longrightarrow> as = map pb_qty rest)"
      using 2(1) [OF level_def rest_def _ shares_def refl, unfolded r1, OF _ refl ok(2) u] m False
      by (simp add: qty_is_zero_def)
    have z: "list_all2 (\<lambda>b a. a \<le> pb_qty b) level shares"
      using allocate_le [OF ok(1) 2(4)] allocate_length [OF ok(1) 2(4)]
      by (simp add: list_all2_conv_all_nth shares_def)
    have full: "demand level \<le> rem \<Longrightarrow> shares = map pb_qty level"
      by (simp add: shares_def allocate_full)
    have "level \<noteq> []" by (simp add: level_def)
    then show ?thesis
      unfolding res split using False IH sum full list_all2_appendI [OF z, of rest as]
      by (auto simp: rem1_def min_def split: if_splits)
  qed
qed

lemma match_levels_no_supply:
  "match_levels bs 0 ex = (replicate (length bs) 0, 0, ex)"
proof (induction "length bs" arbitrary: bs rule: less_induct)
  case less
  show ?case
  proof (cases bs)
    case (Cons b cs)
    let ?rest = "dropWhile (\<lambda>c. pb_priority c = pb_priority b) cs"
    let ?lv = "takeWhile (\<lambda>c. pb_priority c = pb_priority b) cs"
    have "match_levels ?rest 0 ex = (replicate (length ?rest) 0, 0, ex)"
      using less [of ?rest] Cons by simp
    moreover have "length ?lv + length ?rest = length cs"
      by (metis length_append takeWhile_dropWhile_id)
    ultimately show ?thesis
      by (simp add: Cons match_levels.simps(2) qty_is_zero_def flip: replicate_add)
  qed simp
qed

definition served_before :: "pending_bid \<times> u64 \<Rightarrow> pending_bid \<times> u64 \<Rightarrow> bool" where
  "served_before x y \<longleftrightarrow>
     (pb_priority (fst y) < pb_priority (fst x) \<longrightarrow> 0 < snd y \<longrightarrow> snd x = pb_qty (fst x))"

text \<open>One round of the loop over a sorted window: the first level is allocated, and the rest is matched against what is left.\<close>

lemma match_levels_round:
  assumes "\<forall>b \<in> set bs. bid_ok b" and "u64_ok rem" and "sorted_wrt (\<lambda>x y. pb_priority y \<le> pb_priority x) bs"
    and "match_levels bs rem ex = (allocs, rem', ex')"
  obtains (over) "allocs = replicate (length bs) 0"
  | (level) p level rest as ex1 where "bs = level @ rest" "level \<noteq> []" "\<forall>c \<in> set level. pb_priority c = p"
    "\<forall>c \<in> set rest. pb_priority c < p" "allocs = allocate level rem @ as" "length (allocate level rem) = length level"
    "match_levels rest (rem - min (demand level) rem) ex1 = (as, rem', ex')"
proof (cases "rem = 0 \<or> bs = []")
  case True
  then show ?thesis using over assms(4) by (auto simp: match_levels_no_supply)
next
  case False
  then obtain b cs where bs: "bs = b # cs" by (cases bs) auto
  let ?P = "\<lambda>c. pb_priority c = pb_priority b"
  define level where "level = b # takeWhile ?P cs"
  define rest where "rest = dropWhile ?P cs"
  have split: "bs = level @ rest" by (simp add: bs level_def rest_def)
  then have ok: "\<forall>b \<in> set level. bid_ok b" using assms(1) by simp
  have sum: "sum_list (allocate level rem) = min (demand level) rem" using allocate_sum [OF ok assms(2)] .
  then have rem: "u64_saturating_sub rem (u64_wrap (sum_list (allocate level rem))) = rem - min (demand level) rem"
    using assms(2) by (simp add: u64_ok_def)
  obtain as r e where m: "match_levels rest (rem - min (demand level) rem) (rem - min (demand level) rem = 0) = (as, r, e)"
    by (metis prod_cases3)
  have "(allocs, rem', ex') = (allocate level rem @ as, r, e)"
    using assms(4) False m
    by (simp add: bs match_levels.simps(2) level_def [symmetric] rest_def [symmetric] Let_def rem qty_is_zero_def
        del: u64_saturating_sub_minus)
  moreover have "pb_priority c < pb_priority b" if c: "c \<in> set rest" for c
  proof -
    have le: "\<forall>c \<in> set cs. pb_priority c \<le> pb_priority b" and cs: "sorted_wrt (\<lambda>x y. pb_priority y \<le> pb_priority x) cs"
      using assms(3) by (simp_all add: bs)
    obtain d ds where r: "rest = d # ds" using c by (cases rest) auto
    then have "pb_priority d \<noteq> pb_priority b" using hd_dropWhile [of ?P cs] by (simp add: rest_def)
    moreover have "d \<in> set cs" using r by (metis list.set_intros(1) rest_def set_dropWhileD)
    ultimately have "pb_priority d < pb_priority b" using le by fastforce
    moreover have "sorted_wrt (\<lambda>x y. pb_priority y \<le> pb_priority x) (d # ds)"
      using cs r by (metis rest_def sorted_wrt_append takeWhile_dropWhile_id)
    ultimately show ?thesis using c r by auto
  qed
  moreover have "\<forall>c \<in> set level. pb_priority c = pb_priority b" by (auto simp: level_def dest: set_takeWhileD)
  moreover have "level \<noteq> []" by (simp add: level_def)
  ultimately show ?thesis using level split m allocate_length [OF ok assms(2)] by blast
qed

text \<open>A level gets units only if every better-priced bid of the window is filled completely.\<close>

lemma match_levels_served:
  assumes "\<forall>b \<in> set bs. bid_ok b" and "u64_ok rem"
    and "sorted_wrt (\<lambda>x y. pb_priority y \<le> pb_priority x) bs"
    and "match_levels bs rem ex = (allocs, rem', ex')"
  shows "sorted_wrt served_before (zip bs allocs)"
  using assms
proof (induction "length bs" arbitrary: bs rem ex allocs rem' ex' rule: less_induct)
  case less
  show ?case
  proof (cases rule: match_levels_round [OF less(2-5)])
    case 1
    then show ?thesis by (auto simp: sorted_wrt_iff_nth_less served_before_def)
  next
    case (2 p level rest as ex1)
    have IH: "sorted_wrt served_before (zip rest as)"
      using less(1) [of rest "rem - min (demand level) rem" ex1 as rem' ex'] less(2-4) 2 by (simp add: sorted_wrt_append)
    have lv: "sorted_wrt served_before (zip level (allocate level rem))"
      using 2(3) by (auto simp: sorted_wrt_iff_nth_less served_before_def)
    have "served_before x y" if "x \<in> set (zip level (allocate level rem))" and "y \<in> set (zip rest as)" for x y
    proof (cases "demand level \<le> rem")
      case True
      then show ?thesis using that(1) by (auto simp: allocate_full served_before_def set_zip)
    next
      case False
      then show ?thesis using 2(7) that(2) by (auto simp: match_levels_no_supply served_before_def set_zip)
    qed
    then show ?thesis using lv IH 2(1,5,6) by (auto simp: sorted_wrt_append)
  qed
qed

text \<open>Bids at the same priority: who asks for at least as much gets at least as much, up to the rounding unit.\<close>

definition even_shares :: "pending_bid \<times> u64 \<Rightarrow> pending_bid \<times> u64 \<Rightarrow> bool" where
  "even_shares x y \<longleftrightarrow>
     (pb_priority (fst x) = pb_priority (fst y) \<longrightarrow> pb_qty (fst x) \<le> pb_qty (fst y) \<longrightarrow> snd x \<le> snd y + 1)"

lemma allocate_even:
  assumes "\<forall>b \<in> set level. bid_ok b" and "u64_ok r" and "i < length level" and "j < length level"
    and "pb_qty (level ! i) \<le> pb_qty (level ! j)"
  shows "allocate level r ! i \<le> allocate level r ! j + 1"
proof (cases "demand level \<le> r")
  case False
  from short_levelI [OF assms(1,2) False] have s: "short_level level r" .
  have "r * pb_qty (level ! i) div demand level \<le> r * pb_qty (level ! j) div demand level"
    using assms(5) by (intro div_le_mono mult_le_mono2)
  then show ?thesis by (simp add: allocate_short_nth [OF s] assms(3,4))
qed (use assms(3-5) in \<open>simp add: allocate_full\<close>)

lemma match_levels_even:
  assumes "\<forall>b \<in> set bs. bid_ok b" and "u64_ok rem"
    and "sorted_wrt (\<lambda>x y. pb_priority y \<le> pb_priority x) bs"
    and "match_levels bs rem ex = (allocs, rem', ex')" and "x \<in> set (zip bs allocs)" and "y \<in> set (zip bs allocs)"
  shows "even_shares x y"
  using assms
proof (induction "length bs" arbitrary: bs rem ex allocs rem' ex' rule: less_induct)
  case less
  show ?case
  proof (cases rule: match_levels_round [OF less(2-5)])
    case 1
    then show ?thesis using less(6,7) by (auto simp: even_shares_def set_zip)
  next
    case (2 p level rest as ex1)
    have ok: "\<forall>b \<in> set level. bid_ok b" using less(2) by (simp add: 2(1))
    have "even_shares x y" if "x \<in> set (zip level (allocate level rem))" "y \<in> set (zip level (allocate level rem))"
      using that allocate_even [OF ok less(3)] by (auto simp: even_shares_def set_zip)
    moreover have "even_shares x y" if "x \<in> set (zip rest as)" "y \<in> set (zip rest as)"
      using less(1) [of rest "rem - min (demand level) rem" ex1 as rem' ex'] less(2-4) 2 that by (simp add: sorted_wrt_append)
    moreover have "pb_priority (fst v) < pb_priority (fst u)"
      if "u \<in> set (zip level (allocate level rem))" "v \<in> set (zip rest as)" for u v
      using 2(3,4) set_zip_leftD [of "fst u" "snd u"] set_zip_leftD [of "fst v" "snd v"] that by fastforce
    moreover have "zip bs allocs = zip level (allocate level rem) @ zip rest as" by (simp add: 2(1,5,6))
    ultimately show ?thesis
      using less(6,7) unfolding even_shares_def by (metis Un_iff less_irrefl set_append)
  qed
qed

text \<open>Bids at the same priority: who comes first and asks for at least as much gets at least as much.\<close>

definition first_served :: "pending_bid \<times> u64 \<Rightarrow> pending_bid \<times> u64 \<Rightarrow> bool" where
  "first_served x y \<longleftrightarrow>
     (pb_priority (fst x) = pb_priority (fst y) \<longrightarrow> pb_qty (fst y) \<le> pb_qty (fst x) \<longrightarrow> snd y \<le> snd x)"

lemma allocate_first:
  assumes "\<forall>b \<in> set level. bid_ok b" and "u64_ok r" and "i < j" and "j < length level"
    and "pb_qty (level ! j) \<le> pb_qty (level ! i)"
  shows "allocate level r ! j \<le> allocate level r ! i"
proof (cases "demand level \<le> r")
  case False
  from short_levelI [OF assms(1,2) False] have s: "short_level level r" .
  have "r * pb_qty (level ! j) div demand level \<le> r * pb_qty (level ! i) div demand level"
    using assms(5) by (intro div_le_mono mult_le_mono2)
  then show ?thesis using assms(3,4) by (simp add: allocate_short_nth [OF s])
qed (use assms(3-5) in \<open>simp add: allocate_full\<close>)

lemma match_levels_first:
  assumes "\<forall>b \<in> set bs. bid_ok b" and "u64_ok rem"
    and "sorted_wrt (\<lambda>x y. pb_priority y \<le> pb_priority x) bs"
    and "match_levels bs rem ex = (allocs, rem', ex')"
  shows "sorted_wrt first_served (zip bs allocs)"
  using assms
proof (induction "length bs" arbitrary: bs rem ex allocs rem' ex' rule: less_induct)
  case less
  show ?case
  proof (cases rule: match_levels_round [OF less(2-5)])
    case 1
    then show ?thesis by (auto simp: sorted_wrt_iff_nth_less first_served_def)
  next
    case (2 p level rest as ex1)
    have ok: "\<forall>b \<in> set level. bid_ok b" using less(2) by (simp add: 2(1))
    have IH: "sorted_wrt first_served (zip rest as)"
      using less(1) [of rest "rem - min (demand level) rem" ex1 as rem' ex'] less(2-4) 2 by (simp add: sorted_wrt_append)
    have lv: "sorted_wrt first_served (zip level (allocate level rem))"
      using allocate_first [OF ok less(3)] by (auto simp: sorted_wrt_iff_nth_less first_served_def)
    have "first_served u v" if "u \<in> set (zip level (allocate level rem))" and "v \<in> set (zip rest as)" for u v
      using 2(3,4) set_zip_leftD [of "fst u" "snd u"] set_zip_leftD [of "fst v" "snd v"] that
      by (fastforce simp: first_served_def)
    then show ?thesis using lv IH 2(1,5,6) by (auto simp: sorted_wrt_append)
  qed
qed

text \<open>The order in which the bids of a window stand in the list is forgotten; their sequence numbers count.\<close>

lemma sorted_same_mset_key:
  assumes "sorted (map f xs)" and "sorted (map f ys)" and "mset xs = mset ys"
  shows "map f xs = map f ys"
proof -
  have "sort (map f ys) = map f xs" using assms by (intro properties_for_sort) simp_all
  then show ?thesis using assms(2) by (simp add: sorted_sort_id)
qed

lemma sort_bids_arrival:
  assumes "mset bs' = mset bs" and "distinct (map pb_seq bs)"
  shows "sort_bids bs' = sort_bids bs"
proof -
  let ?key = "\<lambda>b. (- pb_priority b, pb_seq b)"
  have "inj_on ?key (set (sort_bids bs'))"
    using assms mset_eq_setD [OF assms(1)] by (auto simp: sort_bids_def inj_on_def distinct_map)
  moreover have "map ?key (sort_bids bs') = map ?key (sort_bids bs)"
    using assms(1) by (intro sorted_same_mset_key) (simp_all add: sort_bids_def)
  moreover have "set (sort_bids bs') = set (sort_bids bs)"
    using mset_eq_setD [OF assms(1)] by (simp add: sort_bids_def)
  ultimately show ?thesis by (simp add: inj_on_map_eq_map)
qed

lemma mset_sort_bids [simp]: "mset (sort_bids bs) = mset bs"
  by (simp add: sort_bids_def)

lemma set_sort_bids [simp]: "set (sort_bids bs) = set bs"
  by (simp add: sort_bids_def)

lemma length_sort_bids [simp]: "length (sort_bids bs) = length bs"
  by (simp add: sort_bids_def)

lemma sort_bids_priority: "sorted_wrt (\<lambda>x y. pb_priority y \<le> pb_priority x) (sort_bids bs)"
proof -
  have "sorted (map (\<lambda>b. (- pb_priority b, pb_seq b)) (sort_bids bs))"
    by (simp add: sort_bids_def)
  then show ?thesis
    unfolding sorted_map by (rule sorted_wrt_mono_rel [rotated]) (auto simp: less_eq_prod_def)
qed

text \<open>Price priority by position: a bid gets units only if every better-priced one is filled completely.\<close>

lemma better_priced_bids_first:
  assumes "\<forall>b \<in> set bs. bid_ok b" and "u64_ok r" and "match_levels (sort_bids bs) r False = (allocs, r', ex)"
    and "i < length bs" and "j < length bs"
    and "pb_priority (sort_bids bs ! j) < pb_priority (sort_bids bs ! i)" and "0 < allocs ! j"
  shows "allocs ! i = pb_qty (sort_bids bs ! i)"
proof -
  let ?bs = "sort_bids bs"
  have ok: "\<forall>b \<in> set ?bs. bid_ok b" using assms(1) by simp
  have len: "length allocs = length ?bs"
    using match_levels_spec [OF ok assms(2,3)] by (auto dest: list_all2_lengthD)
  have "\<not> j \<le> i"
  proof
    assume "j \<le> i"
    then have "j < i" using assms(6) by (cases "j = i") auto
    then have "pb_priority (?bs ! i) \<le> pb_priority (?bs ! j)"
      using sorted_wrt_nth_less [OF sort_bids_priority] assms(4) by simp
    then show False using assms(6) by simp
  qed
  then have "served_before (zip ?bs allocs ! i) (zip ?bs allocs ! j)"
    using sorted_wrt_nth_less [OF match_levels_served [OF ok assms(2) sort_bids_priority assms(3)]] assms(5) len
    by simp
  then show ?thesis using assms(4-7) len by (simp add: served_before_def)
qed

section \<open>Properties\<close>

definition sample_bid :: "seq \<Rightarrow> qty \<Rightarrow> price \<Rightarrow> pending_bid" where
  "sample_bid sq q p =
     \<lparr>pb_seq = sq, pb_participant = ParticipantId (of_nat sq), pb_key = IdempotencyKey (of_nat sq), pb_qty = q,
      pb_priority = p, pb_reserve_price = p, pb_resting_limit = None\<rparr>"

text \<open>
  C28: rationing is pro rata. When a price level asks for more than is left, every bid gets its share
  rounded down, and the units lost to rounding go one each to the first bids of the level; together
  the shares are exactly what was left.
\<close>

theorem allocate_is_pro_rata:
  assumes "\<forall>b \<in> set level. bid_ok b" and "u64_ok r" and "r < demand level"
  shows "sum_list (allocate level r) = r \<and> length (allocate level r) = length level \<and>
    (\<exists>extra < length level. \<forall>i < length level.
       allocate level r ! i = r * pb_qty (level ! i) div demand level + (if i < extra then 1 else 0))"
proof -
  have s: "short_level level r" using assms by (simp add: short_level_def)
  show ?thesis
    using allocate_sum [OF assms(1,2)] allocate_length [OF assms(1,2)] assms(3)
      allocate_short_nth [OF s] left_over_less [OF s] by (auto simp: min_def)
qed

theorem allocate_is_pro_rata_witness:
  "allocate [sample_bid 1 5 9, sample_bid 2 5 9, sample_bid 3 5 9] 10 = [4, 3, 3] \<and>
   sum_list (allocate [sample_bid 1 5 9, sample_bid 2 5 9, sample_bid 3 5 9] 10) = 10"
proof -
  have a: "\<forall>b \<in> set [sample_bid 1 5 9, sample_bid 2 5 9, sample_bid 3 5 9]. bid_ok b"
    and b: "u64_ok 10" and c: "10 < demand [sample_bid 1 5 9, sample_bid 2 5 9, sample_bid 3 5 9]"
    by code_simp+
  have "allocate [sample_bid 1 5 9, sample_bid 2 5 9, sample_bid 3 5 9] 10 = [4, 3, 3]" by code_simp
  then show ?thesis using allocate_is_pro_rata [OF a b c] by blast
qed

text \<open>
  C29: a window sells exactly what it can. No bid of the window gets more than it asked for, the
  window as a whole gets the smaller of demand and supply, what is left is the rest, and the exhaustion
  flag is raised exactly when a window with bids took the last unit.
\<close>

theorem window_sells_min_demand_supply:
  assumes "\<forall>b \<in> set bs. bid_ok b" and "u64_ok r" and "match_levels (sort_bids bs) r False = (allocs, r', ex)"
  shows "list_all2 (\<lambda>b a. a \<le> pb_qty b) (sort_bids bs) allocs \<and> sum_list allocs = min (demand bs) r \<and>
    r' = r - min (demand bs) r \<and> (ex \<longleftrightarrow> r \<noteq> 0 \<and> bs \<noteq> [] \<and> r' = 0)"
proof -
  have "demand (sort_bids bs) = demand bs"
    unfolding demand_def by (rule sum_list_mset) simp
  moreover have "sort_bids bs = [] \<longleftrightarrow> bs = []" by (metis length_0_conv length_sort_bids)
  ultimately show ?thesis using match_levels_spec [OF _ assms(2,3)] assms(1) by auto
qed

theorem window_sells_min_demand_supply_witness:
  "match_levels (sort_bids [sample_bid 2 5 8, sample_bid 1 4 9]) 6 False = ([4, 2], 0, True) \<and>
   sum_list [4, 2] = min (demand [sample_bid 2 5 8, sample_bid 1 4 9]) 6"
proof -
  have a: "\<forall>b \<in> set [sample_bid 2 5 8, sample_bid 1 4 9]. bid_ok b" and b: "u64_ok 6"
    and m: "match_levels (sort_bids [sample_bid 2 5 8, sample_bid 1 4 9]) 6 False = ([4, 2], 0, True)"
    by code_simp+
  show ?thesis using window_sells_min_demand_supply [OF a b m] m by blast
qed

text \<open>Within a priority, the sorted window is in the order of the sequence numbers.\<close>

lemma sort_bids_seq:
  assumes "i < length bs" and "j < length bs" and "pb_priority (sort_bids bs ! i) = pb_priority (sort_bids bs ! j)"
    and "pb_seq (sort_bids bs ! i) < pb_seq (sort_bids bs ! j)"
  shows "i < j"
proof (rule ccontr)
  assume "\<not> i < j"
  then have "j \<le> i" by simp
  moreover have "sorted (map (\<lambda>b. (- pb_priority b, pb_seq b)) (sort_bids bs))" by (simp add: sort_bids_def)
  ultimately have "map (\<lambda>b. (- pb_priority b, pb_seq b)) (sort_bids bs) ! j \<le> map (\<lambda>b. (- pb_priority b, pb_seq b)) (sort_bids bs) ! i"
    using assms(1) by (intro sorted_nth_mono) simp_all
  then show False using assms by (simp add: less_eq_prod_def)
qed

text \<open>
  C30: a window is fair. Of the order in which bids arrived only their sequence numbers count: the place of a bid in the window's
  list makes no difference. A bid gets units only if every bid of better priority has been filled completely. Among bids of the
  same priority, one that asks for at least as much as another gets at least as much, up to the one unit of rounding, and that
  unit goes to the earlier one: a bid with a smaller sequence number that asks for at least as much gets at least as much.
\<close>

theorem window_is_fair:
  assumes "\<forall>b \<in> set bs. bid_ok b" and "u64_ok r" and "distinct (map pb_seq bs)" and "mset bs' = mset bs"
    and "match_levels (sort_bids bs) r False = (allocs, r', ex)" and "i < length bs" and "j < length bs"
  shows "match_levels (sort_bids bs') r False = (allocs, r', ex) \<and>
    (pb_priority (sort_bids bs ! j) < pb_priority (sort_bids bs ! i) \<and> 0 < allocs ! j \<longrightarrow>
       allocs ! i = pb_qty (sort_bids bs ! i)) \<and>
    (pb_priority (sort_bids bs ! i) = pb_priority (sort_bids bs ! j) \<and>
       pb_qty (sort_bids bs ! i) \<le> pb_qty (sort_bids bs ! j) \<longrightarrow> allocs ! i \<le> allocs ! j + 1) \<and>
    (pb_priority (sort_bids bs ! i) = pb_priority (sort_bids bs ! j) \<and> pb_seq (sort_bids bs ! i) < pb_seq (sort_bids bs ! j) \<and>
       pb_qty (sort_bids bs ! j) \<le> pb_qty (sort_bids bs ! i) \<longrightarrow> allocs ! j \<le> allocs ! i)"
proof -
  let ?bs = "sort_bids bs"
  have ok: "\<forall>b \<in> set ?bs. bid_ok b" using assms(1) by simp
  have len: "length allocs = length ?bs"
    using match_levels_spec [OF ok assms(2,5)] by (auto dest: list_all2_lengthD)
  have "allocs ! i \<le> allocs ! j + 1"
    if "pb_priority (?bs ! i) = pb_priority (?bs ! j)" "pb_qty (?bs ! i) \<le> pb_qty (?bs ! j)"
    using match_levels_even [OF ok assms(2) sort_bids_priority assms(5), of "(?bs ! i, allocs ! i)" "(?bs ! j, allocs ! j)"]
      that assms(6,7) len by (force simp: even_shares_def set_zip)
  moreover have "allocs ! j \<le> allocs ! i"
    if same: "pb_priority (?bs ! i) = pb_priority (?bs ! j)" "pb_seq (?bs ! i) < pb_seq (?bs ! j)" "pb_qty (?bs ! j) \<le> pb_qty (?bs ! i)"
    using match_levels_first [OF ok assms(2) sort_bids_priority assms(5)] sort_bids_seq [OF assms(6,7) same(1,2)] same(1,3)
      assms(7) len by (simp add: sorted_wrt_iff_nth_less first_served_def)
  ultimately show ?thesis
    using better_priced_bids_first [OF assms(1,2,5-7)] sort_bids_arrival [OF assms(4,3)] assms(5) by simp
qed

theorem window_is_fair_witness:
  "match_levels (sort_bids [sample_bid 2 5 9, sample_bid 3 5 9, sample_bid 1 4 10]) 9 False = ([4, 3, 2], 0, True) \<and>
   match_levels (sort_bids [sample_bid 3 5 9, sample_bid 1 4 10, sample_bid 2 5 9]) 9 False = ([4, 3, 2], 0, True) \<and>
   [4, 3, 2] ! 2 \<le> ([4, 3, 2] ! 1 :: nat)"
proof -
  let ?bs = "[sample_bid 2 5 9, sample_bid 3 5 9, sample_bid 1 4 10]"
  let ?bs' = "[sample_bid 3 5 9, sample_bid 1 4 10, sample_bid 2 5 9]"
  have a: "\<forall>b \<in> set ?bs. bid_ok b" and b: "u64_ok 9" and d: "distinct (map pb_seq ?bs)"
    and m: "match_levels (sort_bids ?bs) 9 False = ([4, 3, 2], 0, True)"
    by code_simp+
  have p: "mset ?bs' = mset ?bs" by simp
  show ?thesis using window_is_fair [OF a b d p m, of 1 2] m by simp
qed

end
