(* ===== verification/Auction.thy ===== *)
theory Auction
  imports Ladder Matching
begin

text \<open>
  The auction state machine, \<open>crates/auction-core/src/state.rs\<close>: the state, every private
  operation in the order of the source, and \<open>apply\<close>.

  Methods that take \<open>&mut self\<close> and \<open>ev: &mut Events\<close> become functions on a pair of the state
  and the list of events pushed so far (\<open>machine\<close>). The two \<open>BTreeMap\<close>s the machine only
  looks up and updates (\<open>outcomes\<close>, \<open>collateral\<close>) are maps. The arithmetic is that of the
  release profile: debug assertions are not executed; that they would hold is proved in
  the theories built on this one.
\<close>

section \<open>The state\<close>

record collateral =
  coll_limit :: i64
  coll_committed :: i64

definition no_collateral :: collateral where
  "no_collateral = \<lparr>coll_limit = 0, coll_committed = 0\<rparr>"

definition available :: "collateral \<Rightarrow> i64" where
  "available c = i64_saturating_sub (coll_limit c) (coll_committed c)"

record open_window =
  w_index :: u64
  w_price :: price
  w_bids :: "pending_bid list"

record auction_state =
  config :: auction_config
  status :: status
  supply_remaining :: qty
  clearing_price :: "price option"
  fills :: "fill list"
  next_fill_id :: u64
  resting :: price_ladder
  window :: "open_window option"
  outcomes :: "idempotency_key \<rightharpoonup> outcome"
  collateral_map :: "participant_id \<rightharpoonup> collateral"
  last_seq :: "seq option"
  now :: nanos

type_synonym machine = "auction_state \<times> event list"

definition new_state :: "auction_config \<Rightarrow> auction_state" where
  "new_state c =
     \<lparr>config = c, status = Pending, supply_remaining = total_supply c, clearing_price = None,
      fills = [], next_fill_id = 0, resting = ladder_new, window = None,
      outcomes = Map.empty, collateral_map = Map.empty, last_seq = None, now = 0\<rparr>"

section \<open>Accessors\<close>

definition open_window_of :: "auction_state \<Rightarrow> (u64 \<times> nat) option" where
  "open_window_of s = map_option (\<lambda>w. (w_index w, length (w_bids w))) (window s)"

definition collateral_of :: "auction_state \<Rightarrow> participant_id \<Rightarrow> collateral" where
  "collateral_of s p = unwrap_or (collateral_map s p) no_collateral"

definition total_filled :: "auction_state \<Rightarrow> qty" where
  "total_filled s = fold (\<lambda>f acc. u64_saturating_add acc (f_qty f)) (fills s) 0"

definition current_price :: "auction_state \<Rightarrow> price" where
  "current_price s = (case clearing_price s of Some p \<Rightarrow> p | None \<Rightarrow> clock_price (config s) (now s))"

section \<open>Collateral\<close>

text \<open>\<open>map.entry(participant).or_default()\<close>, then an update of the entry.\<close>

definition coll_entry ::
  "participant_id \<Rightarrow> (collateral \<Rightarrow> collateral) \<Rightarrow> (participant_id \<rightharpoonup> collateral) \<Rightarrow> (participant_id \<rightharpoonup> collateral)" where
  "coll_entry p f m = m(p \<mapsto> f (unwrap_or (m p) no_collateral))"

definition commit ::
  "(participant_id \<rightharpoonup> collateral) \<Rightarrow> participant_id \<Rightarrow> price \<Rightarrow> qty \<Rightarrow> (participant_id \<rightharpoonup> collateral)" where
  "commit m participant p q =
     (let amount = unwrap_or (checked_mul_qty p q) i64_max
      in coll_entry participant
           (\<lambda>c. c\<lparr>coll_committed := i64_saturating_add (coll_committed c) amount\<rparr>) m)"

definition release ::
  "(participant_id \<rightharpoonup> collateral) \<Rightarrow> participant_id \<Rightarrow> price \<Rightarrow> qty \<Rightarrow> (participant_id \<rightharpoonup> collateral)" where
  "release m participant p q =
     (let amount = checked_mul_qty p q
      in coll_entry participant
           (\<lambda>c. c\<lparr>coll_committed := i64_saturating_sub (coll_committed c) (unwrap_or amount 0)\<rparr>) m)"

text \<open>\<open>reserve\<close> creates the default entry even when it then refuses.\<close>

definition reserve :: "participant_id \<Rightarrow> price \<Rightarrow> qty \<Rightarrow> auction_state \<Rightarrow> auction_state \<times> bool" where
  "reserve participant p q s =
     (case checked_mul_qty p q of
        None \<Rightarrow> (s, False)
      | Some cost \<Rightarrow>
          (let c = collateral_of s participant in
           if cost > available c
           then (s\<lparr>collateral_map := coll_entry participant (\<lambda>c. c) (collateral_map s)\<rparr>, False)
           else (s\<lparr>collateral_map := coll_entry participant
                     (\<lambda>c. c\<lparr>coll_committed := i64_saturating_add (coll_committed c) cost\<rparr>)
                     (collateral_map s)\<rparr>, True)))"

section \<open>Outcomes\<close>

fun merge_outcome :: "outcome option \<Rightarrow> outcome \<Rightarrow> outcome" where
  "merge_outcome (Some (outcome.Filled prior _)) (outcome.Filled extra at) =
     outcome.Filled (u64_saturating_add prior extra) at"
| "merge_outcome (Some (outcome.Filled q p)) outcome.Cancelled = FilledThenCancelled q p"
| "merge_outcome (Some (outcome.Filled q p)) (outcome.Rejected _) = outcome.Filled q p"
| "merge_outcome (Some (FilledThenCancelled q p)) _ = FilledThenCancelled q p"
| "merge_outcome _ fresh = fresh"

definition set_outcome :: "idempotency_key \<Rightarrow> outcome \<Rightarrow> auction_state \<Rightarrow> auction_state" where
  "set_outcome key out s = s\<lparr>outcomes := (outcomes s)(key \<mapsto> merge_outcome (outcomes s key) out)\<rparr>"

fun reject :: "idempotency_key \<Rightarrow> reject_reason \<Rightarrow> machine \<Rightarrow> machine" where
  "reject key reason (s, ev) =
     (set_outcome key (outcome.Rejected reason) s, ev @ [event.Rejected key reason])"

section \<open>Clearing\<close>

text \<open>One iteration of the repricing loop: the outcome quoted to retries, then the fill itself.\<close>

definition quote_at :: "price \<Rightarrow> outcome option \<Rightarrow> outcome option" where
  "quote_at p out =
     (case out of
        Some (outcome.Filled q _) \<Rightarrow> Some (outcome.Filled q p)
      | Some (FilledThenCancelled q _) \<Rightarrow> Some (FilledThenCancelled q p)
      | _ \<Rightarrow> out)"

fun reprice_fill :: "price \<Rightarrow> fill \<Rightarrow> machine \<Rightarrow> fill \<times> machine" where
  "reprice_fill p f (s, ev) =
     (let s = s\<lparr>outcomes := (outcomes s)(f_key f := quote_at p (outcomes s (f_key f)))\<rparr> in
      if f_price f = p then (f, (s, ev))
      else let from = f_price f;
               freed = i64_saturating_sub from p;
               s = s\<lparr>collateral_map := release (collateral_map s) (f_participant f) freed (f_qty f)\<rparr>
           in (f\<lparr>f_price := p\<rparr>, (s, ev @ [Repriced (f_id f) from p])))"

fun reprice_fills :: "price \<Rightarrow> fill list \<Rightarrow> machine \<Rightarrow> fill list \<times> machine" where
  "reprice_fills p [] m = ([], m)"
| "reprice_fills p (f # fs) m =
     (let (f', m') = reprice_fill p f m; (fs', m'') = reprice_fills p fs m' in (f' # fs', m''))"

text \<open>What becomes of a bid that is still resting when the auction ends.\<close>

fun turn_away_resting :: "reject_reason \<Rightarrow> resting_bid \<Rightarrow> machine \<Rightarrow> machine" where
  "turn_away_resting reason b (s, ev) =
     reject (rb_key b) reason
       (s\<lparr>collateral_map := release (collateral_map s) (rb_participant b) (rb_limit b) (rb_qty b)\<rparr>, ev)"

fun clear :: "price \<Rightarrow> machine \<Rightarrow> machine" where
  "clear p (s, ev) =
     (let s = s\<lparr>status := status.Cleared, clearing_price := Some p\<rparr>;
          (fs, (s, ev)) = reprice_fills p (fills s) (s, ev);
          s = s\<lparr>fills := fs\<rparr>;
          (l, bids) = drain_all (resting s);
          (s, ev) = fold (turn_away_resting Unfilled) bids (s\<lparr>resting := l\<rparr>, ev)
      in (s, ev @ [event.Cleared p (total_filled s) (supply_remaining s)]))"

section \<open>Windows\<close>

definition window_bounds :: "auction_state \<Rightarrow> nanos \<Rightarrow> u64 \<times> price" where
  "window_bounds s ts =
     (let width = batch_window (config s) in
      if width = 0 then (ts, clock_price (config s) ts)
      else let index = ts div width;
               end_ns = u64_saturating_add (u64_saturating_mul index width) (width - 1)
           in (index, clock_price (config s) end_ns))"

definition push_pending :: "u64 \<Rightarrow> price \<Rightarrow> pending_bid \<Rightarrow> auction_state \<Rightarrow> auction_state" where
  "push_pending index p bid s =
     (let w = (case window s of Some w \<Rightarrow> w | None \<Rightarrow> \<lparr>w_index = index, w_price = p, w_bids = []\<rparr>)
      in s\<lparr>window := Some (w\<lparr>w_bids := w_bids w @ [bid]\<rparr>)\<rparr>)"

text \<open>What becomes of a bid in a window that is never matched.\<close>

fun turn_away_pending :: "pending_bid \<Rightarrow> machine \<Rightarrow> machine" where
  "turn_away_pending b (s, ev) =
     reject (pb_key b) NotLive
       (s\<lparr>collateral_map := release (collateral_map s) (pb_participant b) (pb_reserve_price b) (pb_qty b)\<rparr>, ev)"

text \<open>The settlement loop of \<open>flush_window\<close>: one bid and its share, at the window's price.\<close>

fun settle_bid :: "price \<Rightarrow> bool \<Rightarrow> pending_bid \<times> u64 \<Rightarrow> machine \<Rightarrow> machine" where
  "settle_bid p exhausted (b, alloc) (s, ev) =
     (let s = s\<lparr>collateral_map := release (collateral_map s) (pb_participant b) (pb_reserve_price b) (pb_qty b)\<rparr> in
      if qty_is_zero alloc then reject (pb_key b) SupplyExhausted (s, ev)
      else let s = s\<lparr>collateral_map := commit (collateral_map s) (pb_participant b) p alloc\<rparr>;
               f = \<lparr>f_id = next_fill_id s, f_seq = pb_seq b, f_participant = pb_participant b,
                    f_key = pb_key b, f_qty = alloc, f_price = p\<rparr>;
               s = s\<lparr>next_fill_id := u64_wrap (next_fill_id s + 1), fills := fills s @ [f]\<rparr>;
               s = set_outcome (pb_key b) (outcome.Filled alloc p) s;
               ev = ev @ [event.Filled f];
               remainder = u64_saturating_sub (pb_qty b) alloc
           in (case pb_resting_limit b of
                 None \<Rightarrow> (s, ev)
               | Some limit \<Rightarrow>
                   if qty_is_zero remainder \<or> exhausted then (s, ev)
                   else (s\<lparr>collateral_map := commit (collateral_map s) (pb_participant b) limit remainder,
                           resting := ladder_requeue
                             \<lparr>rb_seq = pb_seq b, rb_participant = pb_participant b, rb_key = pb_key b,
                              rb_qty = remainder, rb_limit = limit\<rparr> (resting s)\<rparr>, ev)))"

fun flush_window :: "machine \<Rightarrow> machine" where
  "flush_window (s, ev) =
     (case window s of
        None \<Rightarrow> (s, ev)
      | Some w \<Rightarrow>
          (let s = s\<lparr>window := None\<rparr> in
           if \<not> accepts_bids (status s) then fold turn_away_pending (w_bids w) (s, ev)
           else let bids = sort_bids (w_bids w);
                    (allocs, remaining, exhausted) = match_levels bids (supply_remaining s) False;
                    m = fold (settle_bid (w_price w) exhausted) (zip bids allocs)
                          (s\<lparr>supply_remaining := remaining\<rparr>, ev)
                in if exhausted then clear (w_price w) m else m))"

fun close_elapsed_window :: "nanos \<Rightarrow> machine \<Rightarrow> machine" where
  "close_elapsed_window ts (s, ev) =
     (case window s of
        None \<Rightarrow> (s, ev)
      | Some w \<Rightarrow> if fst (window_bounds s ts) > w_index w then flush_window (s, ev) else (s, ev))"

section \<open>Handlers\<close>

fun on_open :: "machine \<Rightarrow> machine" where
  "on_open (s, ev) =
     (if status s \<noteq> Pending then (s, ev)
      else (s\<lparr>status := Live\<rparr>, ev @ [Opened (start_price (config s)) (total_supply (config s))]))"

fun on_set_collateral :: "participant_id \<Rightarrow> i64 \<Rightarrow> machine \<Rightarrow> machine" where
  "on_set_collateral participant lim (s, ev) =
     (s\<lparr>collateral_map := coll_entry participant (\<lambda>c. c\<lparr>coll_limit := lim\<rparr>) (collateral_map s)\<rparr>,
      ev @ [CollateralSet participant lim])"

text \<open>The \<open>BidKind::Take\<close> arm of \<open>on_bid\<close>.\<close>

fun on_take ::
  "seq \<Rightarrow> nanos \<Rightarrow> participant_id \<Rightarrow> idempotency_key \<Rightarrow> qty \<Rightarrow> price \<Rightarrow> price \<Rightarrow> machine \<Rightarrow> machine" where
  "on_take sq ts participant key q clock expected (s, ev) =
     (if price_abs_diff clock expected > price_tolerance (config s)
      then reject key (PriceMoved clock) (s, ev)
      else let (index, p) = window_bounds s ts; (s, ok) = reserve participant p q s in
        if \<not> ok then reject key InsufficientCollateral (s, ev)
        else let bid = \<lparr>pb_seq = sq, pb_participant = participant, pb_key = key, pb_qty = q,
                        pb_priority = p, pb_reserve_price = p, pb_resting_limit = None\<rparr>;
                 s = set_outcome key (outcome.Queued q) (push_pending index p bid s);
                 ev = ev @ [event.Queued key participant q p]
             in if batch_window (config s) = 0 then flush_window (s, ev) else (s, ev))"

text \<open>The \<open>BidKind::Resting\<close> arm of \<open>on_bid\<close>.\<close>

fun on_rest ::
  "seq \<Rightarrow> participant_id \<Rightarrow> idempotency_key \<Rightarrow> qty \<Rightarrow> price \<Rightarrow> price \<Rightarrow> machine \<Rightarrow> machine" where
  "on_rest sq participant key q clock limit (s, ev) =
     (if limit > clock then reject key (LimitAboveClock clock) (s, ev)
      else let (s, ok) = reserve participant limit q s in
        if \<not> ok then reject key InsufficientCollateral (s, ev)
        else (set_outcome key (outcome.Resting q)
                (s\<lparr>resting := ladder_insert
                     \<lparr>rb_seq = sq, rb_participant = participant, rb_key = key, rb_qty = q, rb_limit = limit\<rparr>
                     (resting s)\<rparr>),
              ev @ [Rested key participant q limit]))"

fun on_bid ::
  "seq \<Rightarrow> nanos \<Rightarrow> participant_id \<Rightarrow> idempotency_key \<Rightarrow> qty \<Rightarrow> bid_kind \<Rightarrow> machine \<Rightarrow> machine" where
  "on_bid sq ts participant key q kind (s, ev) =
     (case outcomes s key of
        Some out \<Rightarrow> (s, ev @ [Duplicate key out])
      | None \<Rightarrow>
          if qty_is_zero q then reject key ZeroQuantity (s, ev)
          else if \<not> accepts_bids (status s) then reject key NotLive (s, ev)
          else let clock = clock_price (config s) ts in
            (case kind of
               Take expected \<Rightarrow> on_take sq ts participant key q clock expected (s, ev)
             | bid_kind.Resting limit \<Rightarrow> on_rest sq participant key q clock limit (s, ev)))"

fun on_cancel_resting :: "participant_id \<Rightarrow> idempotency_key \<Rightarrow> machine \<Rightarrow> machine" where
  "on_cancel_resting participant key (s, ev) =
     (let (l, found) = ladder_remove participant key (resting s); s = s\<lparr>resting := l\<rparr> in
      case found of
        Some bid \<Rightarrow>
          (set_outcome key outcome.Cancelled
             (s\<lparr>collateral_map := release (collateral_map s) participant (rb_limit bid) (rb_qty bid)\<rparr>),
           ev @ [RestingCancelled key participant (rb_qty bid)])
      | None \<Rightarrow>
          (case outcomes s key of
             Some out \<Rightarrow> (s, ev @ [Duplicate key out])
           | None \<Rightarrow> (s, ev @ [event.Rejected key UnknownBid])))"

text \<open>A triggered resting bid joining the window.\<close>

definition trigger :: "u64 \<Rightarrow> price \<Rightarrow> resting_bid \<Rightarrow> auction_state \<Rightarrow> auction_state" where
  "trigger index p bid =
     push_pending index p
       \<lparr>pb_seq = rb_seq bid, pb_participant = rb_participant bid, pb_key = rb_key bid,
        pb_qty = rb_qty bid, pb_priority = rb_limit bid, pb_reserve_price = rb_limit bid,
        pb_resting_limit = Some (rb_limit bid)\<rparr>"

fun on_tick :: "nanos \<Rightarrow> machine \<Rightarrow> machine" where
  "on_tick ts (s, ev) =
     (if \<not> accepts_bids (status s) then (s, ev)
      else let clock = clock_price (config s) ts;
               (index, p) = window_bounds s ts;
               (l, triggered) = drain_triggered clock (resting s);
               s = fold (trigger index p) triggered (s\<lparr>resting := l\<rparr>);
               (s, ev) = (if batch_window (config s) = 0 then flush_window (s, ev) else (s, ev))
           in if accepts_bids (status s) \<and> at_floor (schedule (config s)) ts
              then let (s, ev) = flush_window (s, ev)
                   in if accepts_bids (status s) then clear (floor_price (config s)) (s, ev) else (s, ev)
              else (s, ev))"

fun on_cancel :: "machine \<Rightarrow> machine" where
  "on_cancel (s, ev) =
     (if is_terminal (status s) then (s, ev)
      else let s = s\<lparr>status := status.Cancelled\<rparr>;
               (s, ev) = (case window s of
                            None \<Rightarrow> (s, ev)
                          | Some w \<Rightarrow> fold turn_away_pending (w_bids w) (s\<lparr>window := None\<rparr>, ev));
               (l, bids) = drain_all (resting s);
               (s, ev) = fold (turn_away_resting NotLive) bids (s\<lparr>resting := l\<rparr>, ev)
           in (s, ev @ [event.Cancelled]))"

section \<open>Apply\<close>

text \<open>The command dispatch, after the elapsed window has been closed.\<close>

fun dispatch :: "seq \<Rightarrow> nanos \<Rightarrow> command \<Rightarrow> machine \<Rightarrow> machine" where
  "dispatch sq ts Open m = on_open m"
| "dispatch sq ts (SetCollateral participant lim) m = on_set_collateral participant lim m"
| "dispatch sq ts (SubmitBid participant key q kind) m = on_bid sq ts participant key q kind m"
| "dispatch sq ts (CancelResting participant key) m = on_cancel_resting participant key m"
| "dispatch sq ts Tick m = on_tick ts m"
| "dispatch sq ts Cancel m = on_cancel m"

text \<open>The assertion on the sequence number; \<open>seq_next\<close> panics on overflow as well.\<close>

definition seq_accepted :: "auction_state \<Rightarrow> seq \<Rightarrow> bool" where
  "seq_accepted s sq \<longleftrightarrow> (case last_seq s of None \<Rightarrow> True | Some prev \<Rightarrow> seq_next prev = Some sq)"

text \<open>\<open>AuctionState::apply\<close>; \<open>None\<close> is the panic.\<close>

definition apply_cmd :: "seq \<Rightarrow> nanos \<Rightarrow> command \<Rightarrow> auction_state \<Rightarrow> machine option" where
  "apply_cmd sq ts cmd s =
     (if \<not> seq_accepted s sq then None
      else let s = s\<lparr>last_seq := Some sq, now := max ts (now s)\<rparr>;
               ts = now s;
               m = close_elapsed_window ts (s, [])
           in Some (dispatch sq ts cmd m))"

end
