(* ===== verification/Auction_Shape.thy ===== *)
theory Auction_Shape
  imports Auction
begin

text \<open>
  What the operations of the state machine write, and the invariant on the shape of a state that
  every command keeps.

  The first section gives, for each loop of the source, the record update it amounts to, so that
  the invariants of the later theories only look at the fields they are about. The second section
  defines reachable states. The third proves the shape invariant: bids are in flight only
  while the auction is live, the open window is the one the clock is in, every queued bid is
  well-formed, and a bid that shares a window with others is never asked more than it reserved at.
\<close>

section \<open>Writes of the loops\<close>

lemma fst_reject [simp]: "fst (reject k r m) = set_outcome k (outcome.Rejected r) (fst m)"
  by (cases m) simp

lemma snd_reject [simp]: "snd (reject k r m) = snd m @ [event.Rejected k r]"
  by (cases m) simp

lemma set_outcome_frame [simp]:
  "config (set_outcome k x s) = config s" "status (set_outcome k x s) = status s"
  "supply_remaining (set_outcome k x s) = supply_remaining s"
  "clearing_price (set_outcome k x s) = clearing_price s" "fills (set_outcome k x s) = fills s"
  "next_fill_id (set_outcome k x s) = next_fill_id s" "resting (set_outcome k x s) = resting s"
  "window (set_outcome k x s) = window s" "collateral_map (set_outcome k x s) = collateral_map s"
  "last_seq (set_outcome k x s) = last_seq s" "now (set_outcome k x s) = now s"
  by (simp_all add: set_outcome_def)

text \<open>A step that writes nothing but the outcomes and the collateral.\<close>

definition only_accounts :: "auction_state \<Rightarrow> auction_state \<Rightarrow> bool" where
  "only_accounts s s' \<longleftrightarrow> config s' = config s \<and> status s' = status s \<and>
     supply_remaining s' = supply_remaining s \<and> clearing_price s' = clearing_price s \<and>
     fills s' = fills s \<and> next_fill_id s' = next_fill_id s \<and> resting s' = resting s \<and>
     window s' = window s \<and> last_seq s' = last_seq s \<and> now s' = now s"

lemma only_accounts_refl [simp]: "only_accounts s s"
  by (simp add: only_accounts_def)

lemma only_accounts_trans: "only_accounts s s' \<Longrightarrow> only_accounts s' s'' \<Longrightarrow> only_accounts s s''"
  by (simp add: only_accounts_def)

lemma fold_only_accounts:
  assumes "\<And>x m. only_accounts (fst m) (fst (f x m))"
  shows "only_accounts (fst m) (fst (fold f xs m))"
proof (induction xs arbitrary: m)
  case (Cons x xs)
  show ?case using only_accounts_trans [OF assms [of m x] Cons] by simp
qed simp

lemma turn_away_pending_accounts: "only_accounts (fst m) (fst (turn_away_pending b m))"
  by (cases m) (simp add: only_accounts_def)

lemma turn_away_resting_accounts: "only_accounts (fst m) (fst (turn_away_resting r b m))"
  by (cases m) (simp add: only_accounts_def)

lemma turn_away_pendings: "only_accounts s (fst (fold turn_away_pending bs (s, ev)))"
  using fold_only_accounts [of turn_away_pending, OF turn_away_pending_accounts, of "(s, ev)"] by simp

lemma turn_away_restings: "only_accounts s (fst (fold (turn_away_resting r) bs (s, ev)))"
  using fold_only_accounts [of "turn_away_resting r", OF turn_away_resting_accounts, of "(s, ev)"] by simp

lemma reprice_fill_accounts: "only_accounts (fst m) (fst (snd (reprice_fill p f m)))"
  by (cases m) (simp add: Let_def only_accounts_def)

lemma reprice_fill_value: "fst (reprice_fill p f m) = f\<lparr>f_price := p\<rparr>"
  by (cases m) (auto simp: Let_def)

lemma reprice_fills_Cons:
  "reprice_fills p (f # fs) m =
     (fst (reprice_fill p f m) # fst (reprice_fills p fs (snd (reprice_fill p f m))),
      snd (reprice_fills p fs (snd (reprice_fill p f m))))"
  by (simp add: Let_def split: prod.splits)

lemma reprice_fills_accounts: "only_accounts (fst m) (fst (snd (reprice_fills p fs m)))"
proof (induction fs arbitrary: m)
  case (Cons f fs)
  show ?case
    using only_accounts_trans [OF reprice_fill_accounts Cons] by (simp only: reprice_fills_Cons snd_conv)
qed simp

lemma reprice_fills_value: "fst (reprice_fills p fs m) = map (\<lambda>f. f\<lparr>f_price := p\<rparr>) fs"
  by (induction fs arbitrary: m) (simp, simp only: reprice_fills_Cons fst_conv reprice_fill_value list.map)

text \<open>\<open>clear\<close> in three phases: reprice, empty the ladder, turn away what was on it.\<close>

definition cleared_fills :: "price \<Rightarrow> fill list \<Rightarrow> fill list" where
  "cleared_fills p fs = map (\<lambda>f. f\<lparr>f_price := p\<rparr>) fs"

lemma clear_phases:
  "fst (clear p (s, ev)) =
     (let s0 = s\<lparr>status := status.Cleared, clearing_price := Some p\<rparr>;
          m1 = snd (reprice_fills p (fills s) (s0, ev));
          s2 = (fst m1)\<lparr>fills := cleared_fills p (fills s), resting := fst (drain_all (resting s))\<rparr>
      in fst (fold (turn_away_resting Unfilled) (snd (drain_all (resting s))) (s2, snd m1)))"
proof -
  let ?s0 = "s\<lparr>status := status.Cleared, clearing_price := Some p\<rparr>"
  obtain fs s1 e1 where r: "reprice_fills p (fills s) (?s0, ev) = (fs, (s1, e1))"
    by (metis prod_cases3)
  have "fs = cleared_fills p (fills s)" and "resting s1 = resting s"
    using reprice_fills_value [of p "fills s" "(?s0, ev)"] reprice_fills_accounts [of "(?s0, ev)" p "fills s"] r
    by (simp_all add: cleared_fills_def only_accounts_def)
  then show ?thesis using r by (simp add: Let_def split: prod.splits)
qed

declare clear.simps [simp del]

lemma clear_frame:
  "status (fst (clear p (s, ev))) = status.Cleared"
  "clearing_price (fst (clear p (s, ev))) = Some p"
  "fills (fst (clear p (s, ev))) = cleared_fills p (fills s)"
  "resting (fst (clear p (s, ev))) = fst (drain_all (resting s))"
  "config (fst (clear p (s, ev))) = config s" "supply_remaining (fst (clear p (s, ev))) = supply_remaining s"
  "next_fill_id (fst (clear p (s, ev))) = next_fill_id s" "window (fst (clear p (s, ev))) = window s"
  "last_seq (fst (clear p (s, ev))) = last_seq s" "now (fst (clear p (s, ev))) = now s"
proof -
  let ?s0 = "s\<lparr>status := status.Cleared, clearing_price := Some p\<rparr>"
  let ?m1 = "snd (reprice_fills p (fills s) (?s0, ev))"
  have a: "only_accounts ?s0 (fst ?m1)" using reprice_fills_accounts [of "(?s0, ev)"] by simp
  have b: "only_accounts ((fst ?m1)\<lparr>fills := cleared_fills p (fills s), resting := fst (drain_all (resting s))\<rparr>)
      (fst (clear p (s, ev)))"
    unfolding clear_phases Let_def by (rule turn_away_restings)
  show "status (fst (clear p (s, ev))) = status.Cleared"
    "clearing_price (fst (clear p (s, ev))) = Some p"
    "fills (fst (clear p (s, ev))) = cleared_fills p (fills s)"
    "resting (fst (clear p (s, ev))) = fst (drain_all (resting s))"
    "config (fst (clear p (s, ev))) = config s" "supply_remaining (fst (clear p (s, ev))) = supply_remaining s"
    "next_fill_id (fst (clear p (s, ev))) = next_fill_id s" "window (fst (clear p (s, ev))) = window s"
    "last_seq (fst (clear p (s, ev))) = last_seq s" "now (fst (clear p (s, ev))) = now s"
    using a b unfolding only_accounts_def by simp_all
qed

text \<open>The fills a settlement loop creates: one for each non-zero share, numbered in order.\<close>

fun new_fills :: "price \<Rightarrow> u64 \<Rightarrow> (pending_bid \<times> u64) list \<Rightarrow> fill list" where
  "new_fills p n [] = []"
| "new_fills p n ((b, a) # bas) =
     (if a = 0 then new_fills p n bas
      else \<lparr>f_id = n, f_seq = pb_seq b, f_participant = pb_participant b, f_key = pb_key b,
            f_qty = a, f_price = p\<rparr> # new_fills p (u64_wrap (n + 1)) bas)"

text \<open>A share after which nothing goes back to the ladder.\<close>

definition no_requeue :: "bool \<Rightarrow> pending_bid \<times> u64 \<Rightarrow> bool" where
  "no_requeue exhausted ba \<longleftrightarrow> exhausted \<or> snd ba = 0 \<or> snd ba = pb_qty (fst ba)"

text \<open>
  The simpler settlement that the loop amounts to when nothing is requeued: release, and for a
  non-zero share commit at the window's price, record the fill and its outcome.
\<close>

fun settle_plain :: "price \<Rightarrow> pending_bid \<times> u64 \<Rightarrow> machine \<Rightarrow> machine" where
  "settle_plain p (b, a) (s, ev) =
     (let s = s\<lparr>collateral_map := release (collateral_map s) (pb_participant b) (pb_reserve_price b) (pb_qty b)\<rparr> in
      if a = 0 then reject (pb_key b) SupplyExhausted (s, ev)
      else let f = \<lparr>f_id = next_fill_id s, f_seq = pb_seq b, f_participant = pb_participant b,
                    f_key = pb_key b, f_qty = a, f_price = p\<rparr>
           in (set_outcome (pb_key b) (outcome.Filled a p)
                 (s\<lparr>collateral_map := commit (collateral_map s) (pb_participant b) p a,
                    next_fill_id := u64_wrap (next_fill_id s + 1), fills := fills s @ [f]\<rparr>),
               ev @ [event.Filled f]))"

lemma settle_bid_plain: "no_requeue ex ba \<Longrightarrow> settle_bid p ex ba m = settle_plain p ba m"
  by (cases m; cases ba) (auto simp: Let_def no_requeue_def qty_is_zero_def split: option.splits)

lemma fold_settle_plain:
  "\<forall>ba \<in> set bas. no_requeue ex ba \<Longrightarrow> fold (settle_bid p ex) bas m = fold (settle_plain p) bas m"
  by (induction bas arbitrary: m) (auto simp: settle_bid_plain)

text \<open>Settlement writes the accounts and appends the new fills; nothing else moves.\<close>

definition settles :: "price \<Rightarrow> (pending_bid \<times> u64) list \<Rightarrow> auction_state \<Rightarrow> auction_state \<Rightarrow> bool" where
  "settles p bas s s' \<longleftrightarrow> fills s' = fills s @ new_fills p (next_fill_id s) bas \<and>
     config s' = config s \<and> status s' = status s \<and> supply_remaining s' = supply_remaining s \<and>
     clearing_price s' = clearing_price s \<and> resting s' = resting s \<and> window s' = window s \<and>
     last_seq s' = last_seq s \<and> now s' = now s"

lemma settle_plain_settles: "settles p bas s (fst (fold (settle_plain p) bas (s, ev)))"
proof (induction bas arbitrary: s ev)
  case Nil
  show ?case by (simp add: settles_def)
next
  case (Cons ba bas)
  obtain b a where ba: "ba = (b, a)" by (cases ba)
  obtain s1 e1 where m: "settle_plain p ba (s, ev) = (s1, e1)" by (cases "settle_plain p ba (s, ev)")
  have "fills s1 @ new_fills p (next_fill_id s1) bas = fills s @ new_fills p (next_fill_id s) (ba # bas)"
    "config s1 = config s" "status s1 = status s" "supply_remaining s1 = supply_remaining s"
    "clearing_price s1 = clearing_price s" "resting s1 = resting s" "window s1 = window s"
    "last_seq s1 = last_seq s" "now s1 = now s"
    using m by (auto simp: ba Let_def set_outcome_def split: if_splits)
  with Cons [of s1 e1] show ?case by (simp add: settles_def m)
qed

text \<open>
  The window's flush, with what the matching theory knows about it. Because a share below the
  request means that the supply ran out, nothing is ever requeued.
\<close>

definition window_ok :: "open_window \<Rightarrow> bool" where
  "window_ok w \<longleftrightarrow> (\<forall>b \<in> set (w_bids w). bid_ok b)"

lemma match_no_requeue:
  assumes "\<forall>b \<in> set bs. bid_ok b" and "u64_ok rem" and "match_levels bs rem False = (allocs, rem', ex)"
  shows "\<forall>ba \<in> set (zip bs allocs). no_requeue ex ba"
proof -
  note spec = match_levels_spec [OF assms]
  consider "demand bs \<le> rem" | "rem = 0" | "rem < demand bs" "rem \<noteq> 0" by linarith
  then show ?thesis
  proof cases
    case 1
    then show ?thesis using spec by (auto simp: set_zip no_requeue_def)
  next
    case 2
    then have "allocs = replicate (length bs) 0" using assms(3) by (simp add: match_levels_no_supply)
    then show ?thesis by (auto simp: set_zip no_requeue_def)
  next
    case 3
    then have "bs \<noteq> []" by (auto simp: demand_def)
    then show ?thesis using spec 3 by (auto simp: no_requeue_def)
  qed
qed

lemma flush_window_live:
  assumes "window s = Some w" and "accepts_bids (status s)" and "window_ok w" and "u64_ok (supply_remaining s)"
  obtains allocs rem ex where
    "match_levels (sort_bids (w_bids w)) (supply_remaining s) False = (allocs, rem, ex)"
    "flush_window (s, ev) =
      (let m = fold (settle_plain (w_price w)) (zip (sort_bids (w_bids w)) allocs)
                 (s\<lparr>window := None, supply_remaining := rem\<rparr>, ev)
       in if ex then clear (w_price w) m else m)"
proof -
  obtain allocs rem ex where
    m: "match_levels (sort_bids (w_bids w)) (supply_remaining s) False = (allocs, rem, ex)"
    by (metis prod_cases3)
  have "\<forall>ba \<in> set (zip (sort_bids (w_bids w)) allocs). no_requeue ex ba"
    using assms(3,4) m by (intro match_no_requeue) (auto simp: window_ok_def)
  then have plain: "fold (settle_bid (w_price w) ex) (zip (sort_bids (w_bids w)) allocs) m' =
      fold (settle_plain (w_price w)) (zip (sort_bids (w_bids w)) allocs) m'" for m'
    by (rule fold_settle_plain)
  have "flush_window (s, ev) =
      (let m = fold (settle_bid (w_price w) ex) (zip (sort_bids (w_bids w)) allocs)
                 (s\<lparr>window := None, supply_remaining := rem\<rparr>, ev)
       in if ex then clear (w_price w) m else m)"
    using assms(1,2) m by (simp add: Let_def cong del: if_weak_cong)
  then show ?thesis unfolding plain by (rule that [OF m])
qed

lemma flush_window_dead:
  "window s = Some w \<Longrightarrow> \<not> accepts_bids (status s) \<Longrightarrow>
     flush_window (s, ev) = fold turn_away_pending (w_bids w) (s\<lparr>window := None\<rparr>, ev)"
  by simp

lemma flush_window_none: "window s = None \<Longrightarrow> flush_window (s, ev) = (s, ev)"
  by simp

declare flush_window.simps [simp del]

section \<open>Window bounds\<close>

lemma window_bounds_cong: "config s = config s' \<Longrightarrow> window_bounds s = window_bounds s'"
  by (simp add: window_bounds_def fun_eq_iff Let_def)

lemma fst_window_bounds: "fst (window_bounds s t) = window_index t (batch_window (config s))"
  by (simp add: window_bounds_def window_index_def Let_def)

lemma same_window: "fst (window_bounds s t) = fst (window_bounds s t') \<Longrightarrow> window_bounds s t = window_bounds s t'"
  by (simp add: window_bounds_def Let_def split: if_splits)

lemma window_index_le: "t \<le> t' \<Longrightarrow> fst (window_bounds s t) \<le> fst (window_bounds s t')"
  by (simp add: fst_window_bounds window_index_mono)

text \<open>The last nanosecond of a window is not before any instant in it.\<close>

lemma window_end_ge:
  assumes "u64_ok t" and "0 < w"
  shows "t \<le> u64_saturating_add (u64_saturating_mul (t div w) w) (w - 1)"
proof -
  have le: "t div w * w \<le> t" by (simp add: div_times_less_eq_dividend)
  have "t < t div w * w + w" 
    using mod_less_divisor [OF assms(2), of t] div_mult_mod_eq [of t w] by linarith
  then have "t \<le> t div w * w + (w - 1)" using assms(2) by linarith
  moreover have "u64_saturating_mul (t div w) w = t div w * w"
    using order_trans [OF le] assms(1) by (simp add: u64_saturating_mul_def u64_ok_def min_def del: times_div_less_eq_dividend)
  ultimately show ?thesis using assms(1) by (simp add: u64_saturating_add_def u64_ok_def)
qed

lemma window_price_le_clock:
  assumes "config_ok (config s)" and "u64_ok t"
  shows "snd (window_bounds s t) \<le> clock_price (config s) t"
  using window_end_ge [OF assms(2)] assms(1)
  by (auto simp: window_bounds_def Let_def intro!: clock_price_descends)

lemma window_price_descends:
  assumes "config_ok (config s)" and "t \<le> t'"
  shows "snd (window_bounds s t') \<le> snd (window_bounds s t)"
proof -
  let ?w = "batch_window (config s)"
  let ?close = "\<lambda>t. u64_saturating_add (u64_saturating_mul (t div ?w) ?w) (?w - 1)"
  have "?close t \<le> ?close t'"
    by (intro u64_saturating_mono div_le_mono assms(2))
  then show ?thesis
    using assms by (auto simp: window_bounds_def Let_def intro!: clock_price_descends)
qed

lemma window_price_bounds:
  "config_ok (config s) \<Longrightarrow> floor_price (config s) \<le> snd (window_bounds s t) \<and>
     snd (window_bounds s t) \<le> start_price (config s)"
  by (simp add: window_bounds_def Let_def clock_price_bounds)

lemma window_price_ok: "config_ok (config s) \<Longrightarrow> i64_ok (snd (window_bounds s t))"
  by (simp add: window_bounds_def Let_def clock_price_ok)

section \<open>The shape invariant\<close>

definition pending_ok :: "price \<Rightarrow> pending_bid \<Rightarrow> bool" where
  "pending_ok p b \<longleftrightarrow> bid_ok b \<and> pb_priority b = pb_reserve_price b \<and> p \<le> pb_reserve_price b \<and>
     i64_ok (pb_reserve_price b) \<and>
     (case pb_resting_limit b of None \<Rightarrow> pb_reserve_price b = p | Some l \<Rightarrow> l = pb_reserve_price b)"

definition resting_ok :: "resting_bid \<Rightarrow> bool" where
  "resting_ok b \<longleftrightarrow> 0 < rb_qty b \<and> u64_ok (rb_qty b) \<and> i64_ok (rb_limit b)"

definition status_shape :: "auction_state \<Rightarrow> bool" where
  "status_shape s \<longleftrightarrow> (clearing_price s \<noteq> None \<longleftrightarrow> status s = status.Cleared) \<and>
     (\<not> accepts_bids (status s) \<longrightarrow> window s = None \<and> ladder_bids (resting s) = [])"

definition ladder_shape :: "auction_state \<Rightarrow> bool" where
  "ladder_shape s \<longleftrightarrow> ladder_ok (resting s) \<and> (\<forall>b \<in> set (ladder_bids (resting s)). resting_ok b)"

definition window_shape :: "nanos \<Rightarrow> auction_state \<Rightarrow> bool" where
  "window_shape t s \<longleftrightarrow> (\<forall>w. window s = Some w \<longrightarrow>
     (w_index w, w_price w) = window_bounds s t \<and> (\<forall>b \<in> set (w_bids w). pending_ok (w_price w) b))"

definition shape_at :: "nanos \<Rightarrow> auction_state \<Rightarrow> bool" where
  "shape_at t s \<longleftrightarrow> config_ok (config s) \<and> u64_ok (supply_remaining s) \<and> u64_ok t \<and>
     status_shape s \<and> ladder_shape s \<and> window_shape t s"

lemmas shape_defs = shape_at_def status_shape_def ladder_shape_def window_shape_def

lemma shape_window_ok: "shape_at t s \<Longrightarrow> window s = Some w \<Longrightarrow> window_ok w"
  by (auto simp: shape_defs window_ok_def pending_ok_def)

lemma shape_live: "shape_at t s \<Longrightarrow> window s = Some w \<Longrightarrow> accepts_bids (status s)"
  by (auto simp: shape_defs)

lemma shape_only_accounts:
  assumes "shape_at t s" and "only_accounts s s'"
  shows "shape_at t s'"
  using assms window_bounds_cong [of s' s]
  by (simp add: shape_defs only_accounts_def)

lemma shape_set_outcome [simp]: "shape_at t (set_outcome k x s) = shape_at t s"
  using window_bounds_cong [of "set_outcome k x s" s] by (simp add: shape_defs)

lemma shape_collateral [simp]: "shape_at t (s\<lparr>collateral_map := c\<rparr>) = shape_at t s"
  using window_bounds_cong [of "s\<lparr>collateral_map := c\<rparr>" s] by (simp add: shape_defs)

lemma ladder_cleared: "ladder_ok l \<Longrightarrow> ladder_ok (fst (drain_all l)) \<and> ladder_bids (fst (drain_all l)) = []"
  by (simp add: ladder.inv_fire_all ladder.bids_fire_all)

lemma shape_clear:
  assumes "shape_at t s" and "window s = None"
  shows "shape_at t (fst (clear p (s, ev)))"
  using assms ladder_cleared window_bounds_cong [of "fst (clear p (s, ev))" s]
  by (simp add: shape_defs clear_frame)

lemma match_rem_ok:
  assumes "window_ok w" and "u64_ok supply"
    and "match_levels (sort_bids (w_bids w)) supply False = (allocs, rem, ex)"
  shows "u64_ok rem"
proof -
  have "\<forall>b \<in> set (sort_bids (w_bids w)). bid_ok b" using assms(1) by (simp add: window_ok_def)
  from match_levels_spec [OF this assms(2,3)] assms(2) show ?thesis by simp
qed

text \<open>The flush of a well-shaped state: nothing, or match, settle and perhaps clear.\<close>

lemma flush_shape_cases:
  assumes "shape_at t s"
  obtains (none) "window s = None" "flush_window (s, ev) = (s, ev)"
  | (live) w allocs rem ex s1 e1 where
    "window s = Some w" "accepts_bids (status s)" "window_ok w"
    "match_levels (sort_bids (w_bids w)) (supply_remaining s) False = (allocs, rem, ex)"
    "u64_ok rem"
    "fold (settle_plain (w_price w)) (zip (sort_bids (w_bids w)) allocs)
       (s\<lparr>window := None, supply_remaining := rem\<rparr>, ev) = (s1, e1)"
    "settles (w_price w) (zip (sort_bids (w_bids w)) allocs) (s\<lparr>window := None, supply_remaining := rem\<rparr>) s1"
    "flush_window (s, ev) = (if ex then clear (w_price w) (s1, e1) else (s1, e1))"
proof (cases "window s")
  case None
  then show ?thesis using none by (simp add: flush_window_none)
next
  case (Some w)
  note ok = shape_live [OF assms Some] shape_window_ok [OF assms Some]
  have u: "u64_ok (supply_remaining s)" using assms by (simp add: shape_at_def)
  obtain allocs rem ex where
    m: "match_levels (sort_bids (w_bids w)) (supply_remaining s) False = (allocs, rem, ex)" and
    f: "flush_window (s, ev) =
      (let m = fold (settle_plain (w_price w)) (zip (sort_bids (w_bids w)) allocs)
                 (s\<lparr>window := None, supply_remaining := rem\<rparr>, ev)
       in if ex then clear (w_price w) m else m)"
    by (rule flush_window_live [OF Some ok u])
  let ?s0 = "s\<lparr>window := None, supply_remaining := rem\<rparr>"
  obtain s1 e1 where s1: "fold (settle_plain (w_price w)) (zip (sort_bids (w_bids w)) allocs) (?s0, ev) = (s1, e1)"
    by fastforce
  have "settles (w_price w) (zip (sort_bids (w_bids w)) allocs) ?s0 s1"
    using settle_plain_settles [of "w_price w" "zip (sort_bids (w_bids w)) allocs" ?s0 ev] s1 by simp
  with Some ok m s1 f show ?thesis
    using live match_rem_ok [OF ok(2) u m] by (simp add: Let_def)
qed

lemma shape_flush:
  assumes "shape_at t s"
  shows "shape_at t (fst (flush_window (s, ev))) \<and> window (fst (flush_window (s, ev))) = None"
  using assms
proof (cases rule: flush_shape_cases [where ev = ev])
  case none
  then show ?thesis using assms by simp
next
  case (live w allocs rem ex s1 e1)
  have sh: "shape_at t s1" and w1: "window s1 = None"
    using live(2,5,7) assms window_bounds_cong [of s1 s] by (simp_all add: shape_defs settles_def)
  then show ?thesis using shape_clear [OF sh w1] by (simp add: live(8) clear_frame)
qed

end
