(* ===== verification/Auction_Steps.thy ===== *)
theory Auction_Steps
  imports Auction_Shape
begin

text \<open>
  A command as a sequence of small steps, and the states a log can lead to.

  \<open>micro cmd\<close> has one rule for each branch of \<open>apply\<close> that writes the state, with the
  guards of the source as its premises. \<open>apply_micro\<close> shows that applying a command to a
  well-shaped state is a sequence of these steps, so an invariant of the machine is proved by one
  case analysis on \<open>micro\<close>; \<open>reachable_by_invariant\<close> lifts it to whole logs.
\<close>

section \<open>Bids in flight\<close>

definition window_bids :: "auction_state \<Rightarrow> pending_bid list" where
  "window_bids s = (case window s of None \<Rightarrow> [] | Some w \<Rightarrow> w_bids w)"

definition take_bid :: "seq \<Rightarrow> participant_id \<Rightarrow> idempotency_key \<Rightarrow> qty \<Rightarrow> price \<Rightarrow> pending_bid" where
  "take_bid sq participant key q p =
     \<lparr>pb_seq = sq, pb_participant = participant, pb_key = key, pb_qty = q,
      pb_priority = p, pb_reserve_price = p, pb_resting_limit = None\<rparr>"

definition rest_bid :: "seq \<Rightarrow> participant_id \<Rightarrow> idempotency_key \<Rightarrow> qty \<Rightarrow> price \<Rightarrow> resting_bid" where
  "rest_bid sq participant key q limit =
     \<lparr>rb_seq = sq, rb_participant = participant, rb_key = key, rb_qty = q, rb_limit = limit\<rparr>"

definition triggered_bid :: "resting_bid \<Rightarrow> pending_bid" where
  "triggered_bid b =
     \<lparr>pb_seq = rb_seq b, pb_participant = rb_participant b, pb_key = rb_key b, pb_qty = rb_qty b,
      pb_priority = rb_limit b, pb_reserve_price = rb_limit b, pb_resting_limit = Some (rb_limit b)\<rparr>"

lemmas bid_defs = take_bid_def rest_bid_def triggered_bid_def

lemma window_bids_push [simp]: "window_bids (push_pending i p b s) = window_bids s @ [b]"
  by (simp add: window_bids_def push_pending_def Let_def split: option.splits)

lemma push_pending_frame [simp]:
  "config (push_pending i p b s) = config s" "status (push_pending i p b s) = status s"
  "supply_remaining (push_pending i p b s) = supply_remaining s"
  "clearing_price (push_pending i p b s) = clearing_price s" "fills (push_pending i p b s) = fills s"
  "next_fill_id (push_pending i p b s) = next_fill_id s" "resting (push_pending i p b s) = resting s"
  "outcomes (push_pending i p b s) = outcomes s"
  "collateral_map (push_pending i p b s) = collateral_map s"
  "last_seq (push_pending i p b s) = last_seq s" "now (push_pending i p b s) = now s"
  by (simp_all add: push_pending_def Let_def)

lemma triggers_frame [simp]:
  "config (fold (trigger i p) bs s) = config s" "status (fold (trigger i p) bs s) = status s"
  "supply_remaining (fold (trigger i p) bs s) = supply_remaining s"
  "clearing_price (fold (trigger i p) bs s) = clearing_price s"
  "fills (fold (trigger i p) bs s) = fills s" "next_fill_id (fold (trigger i p) bs s) = next_fill_id s"
  "resting (fold (trigger i p) bs s) = resting s" "outcomes (fold (trigger i p) bs s) = outcomes s"
  "collateral_map (fold (trigger i p) bs s) = collateral_map s"
  "last_seq (fold (trigger i p) bs s) = last_seq s" "now (fold (trigger i p) bs s) = now s"
  by (induction bs arbitrary: s) (simp_all add: trigger_def)

lemma window_bids_triggers [simp]:
  "window_bids (fold (trigger i p) bs s) = window_bids s @ map triggered_bid bs"
  by (induction bs arbitrary: s) (simp_all add: trigger_def triggered_bid_def)

lemma window_bids_cong: "window s = window s' \<Longrightarrow> window_bids s = window_bids s'"
  by (simp add: window_bids_def)

section \<open>Small steps\<close>

definition withdrawn_all :: "reject_reason \<Rightarrow> machine \<Rightarrow> machine" where
  "withdrawn_all reason m =
     fold (turn_away_resting reason) (snd (drain_all (resting (fst m))))
       ((fst m)\<lparr>resting := fst (drain_all (resting (fst m)))\<rparr>, snd m)"

text \<open>The widths of what a rejection tells.\<close>

primrec reason_width :: "reject_reason \<Rightarrow> bool" where
  "reason_width NotLive \<longleftrightarrow> True"
| "reason_width (PriceMoved p) \<longleftrightarrow> i64_ok p"
| "reason_width SupplyExhausted \<longleftrightarrow> True"
| "reason_width InsufficientCollateral \<longleftrightarrow> True"
| "reason_width ZeroQuantity \<longleftrightarrow> True"
| "reason_width RateLimited \<longleftrightarrow> True"
| "reason_width Busy \<longleftrightarrow> True"
| "reason_width (LimitAboveClock p) \<longleftrightarrow> i64_ok p"
| "reason_width Unfilled \<longleftrightarrow> True"
| "reason_width UnknownBid \<longleftrightarrow> True"

inductive micro :: "command \<Rightarrow> auction_state \<Rightarrow> auction_state \<Rightarrow> bool" for cmd where
  micro_open: "cmd = Open \<Longrightarrow> status s = Pending \<Longrightarrow> micro cmd s (s\<lparr>status := Live\<rparr>)"
| micro_limit: "cmd = SetCollateral pt lim \<Longrightarrow>
    micro cmd s (s\<lparr>collateral_map := coll_entry pt (\<lambda>c. c\<lparr>coll_limit := lim\<rparr>) (collateral_map s)\<rparr>)"
| micro_reject: "cmd = SubmitBid pt key q kind \<Longrightarrow> outcomes s key = None \<Longrightarrow>
    reason_width r \<Longrightarrow> micro cmd s (set_outcome key (outcome.Rejected r) s)"
| micro_short: "cmd = SubmitBid pt key q kind \<Longrightarrow> outcomes s key = None \<Longrightarrow> reserve pt p q s = (s', False) \<Longrightarrow>
    micro cmd s (set_outcome key (outcome.Rejected InsufficientCollateral) s')"
| micro_take: "cmd = SubmitBid pt key q (Take x) \<Longrightarrow> outcomes s key = None \<Longrightarrow> q \<noteq> 0 \<Longrightarrow>
    accepts_bids (status s) \<Longrightarrow> price_abs_diff (clock_price (config s) (now s)) x \<le> price_tolerance (config s) \<Longrightarrow>
    window_bounds s (now s) = (i, p) \<Longrightarrow> reserve pt p q s = (s', True) \<Longrightarrow> last_seq s = Some sq \<Longrightarrow>
    micro cmd s (set_outcome key (outcome.Queued q) (push_pending i p (take_bid sq pt key q p) s'))"
| micro_rest: "cmd = SubmitBid pt key q (bid_kind.Resting limit) \<Longrightarrow> outcomes s key = None \<Longrightarrow> q \<noteq> 0 \<Longrightarrow>
    accepts_bids (status s) \<Longrightarrow> limit \<le> clock_price (config s) (now s) \<Longrightarrow> reserve pt limit q s = (s', True) \<Longrightarrow> last_seq s = Some sq \<Longrightarrow>
    micro cmd s (set_outcome key (outcome.Resting q)
      (s'\<lparr>resting := ladder_insert (rest_bid sq pt key q limit) (resting s')\<rparr>))"
| micro_withdraw: "cmd = CancelResting pt key \<Longrightarrow> ladder_remove pt key (resting s) = (l, Some b) \<Longrightarrow>
    micro cmd s (set_outcome key outcome.Cancelled
      (s\<lparr>resting := l, collateral_map := release (collateral_map s) pt (rb_limit b) (rb_qty b)\<rparr>))"
| micro_trigger: "cmd = Tick \<Longrightarrow> accepts_bids (status s) \<Longrightarrow> window_bounds s (now s) = (i, p) \<Longrightarrow>
    drain_triggered (clock_price (config s) (now s)) (resting s) = (l, bs) \<Longrightarrow>
    micro cmd s (fold (trigger i p) bs (s\<lparr>resting := l\<rparr>))"
| micro_flush: "flush_window (s, ev) = (s', ev') \<Longrightarrow> micro cmd s s'"
| micro_clear: "cmd = Tick \<Longrightarrow> accepts_bids (status s) \<Longrightarrow> window s = None \<Longrightarrow>
    at_floor (schedule (config s)) (now s) \<Longrightarrow> clear (floor_price (config s)) (s, ev) = (s', ev') \<Longrightarrow>
    micro cmd s s'"
| micro_cancel: "cmd = Cancel \<Longrightarrow> \<not> is_terminal (status s) \<Longrightarrow>
    withdrawn_all NotLive (fold turn_away_pending (window_bids s)
      (s\<lparr>status := status.Cancelled, window := None\<rparr>, ev)) = (s', ev') \<Longrightarrow>
    micro cmd s s'"

inductive_simps micro_simps_open: "micro Open s s'"

abbreviation micros :: "command \<Rightarrow> auction_state \<Rightarrow> auction_state \<Rightarrow> bool" where
  "micros cmd \<equiv> (micro cmd)\<^sup>*\<^sup>*"

lemma micros_flush: "micros cmd s (fst (flush_window (s, ev)))"
  by (cases "flush_window (s, ev)") (auto intro: micro_flush)

section \<open>The shape is kept\<close>

text \<open>Widths of a command's numbers; the wire types enforce them.\<close>

primrec kind_width :: "bid_kind \<Rightarrow> bool" where
  "kind_width (Take p) \<longleftrightarrow> i64_ok p"
| "kind_width (bid_kind.Resting p) \<longleftrightarrow> i64_ok p"

primrec cmd_width :: "command \<Rightarrow> bool" where
  "cmd_width Open \<longleftrightarrow> True"
| "cmd_width (SetCollateral pt lim) \<longleftrightarrow> i64_ok lim"
| "cmd_width (SubmitBid pt key q kind) \<longleftrightarrow> u64_ok q \<and> kind_width kind"
| "cmd_width (CancelResting pt key) \<longleftrightarrow> True"
| "cmd_width Tick \<longleftrightarrow> True"
| "cmd_width Cancel \<longleftrightarrow> True"

abbreviation shape :: "auction_state \<Rightarrow> bool" where
  "shape s \<equiv> shape_at (now s) s"

lemma reserve_frame:
  assumes "reserve pt p q s = (s', b)"
  shows "s' = s\<lparr>collateral_map := collateral_map s'\<rparr>"
  using assms by (auto simp: reserve_def Let_def split: option.splits if_splits)

lemma reserve_only_accounts: "reserve pt p q s = (s', b) \<Longrightarrow> only_accounts s s' \<and> outcomes s' = outcomes s"
  by (auto simp: reserve_def Let_def only_accounts_def split: option.splits if_splits)

lemma window_shape_push:
  assumes "window_shape t s" and "window_bounds s t = (i, p)" and "pending_ok p b"
  shows "window_shape t (push_pending i p b s)"
proof -
  have "window_bounds (push_pending i p b s) t = (i, p)"
    using window_bounds_cong [of "push_pending i p b s" s] assms(2) by simp
  then show ?thesis
    using assms by (cases "window s") (auto simp: window_shape_def push_pending_def)
qed

lemma window_shape_triggers:
  assumes "window_shape t s" and "window_bounds s t = (i, p)" and "\<forall>b \<in> set bs. pending_ok p (triggered_bid b)"
  shows "window_shape t (fold (trigger i p) bs s)"
  using assms
proof (induction bs arbitrary: s)
  case (Cons b bs)
  have "window_bounds (trigger i p b s) t = (i, p)"
    using window_bounds_cong [of "trigger i p b s" s] Cons.prems(2) by (simp add: trigger_def)
  then show ?case
    using Cons window_shape_push [OF Cons.prems(1,2), of "triggered_bid b"]
    by (simp add: trigger_def triggered_bid_def)
qed simp

lemma take_bid_ok: "q \<noteq> 0 \<Longrightarrow> u64_ok q \<Longrightarrow> i64_ok p \<Longrightarrow> pending_ok p (take_bid sq pt key q p)"
  by (simp add: pending_ok_def take_bid_def bid_ok_def)

lemma triggered_bid_ok: "resting_ok b \<Longrightarrow> p \<le> rb_limit b \<Longrightarrow> pending_ok p (triggered_bid b)"
  by (simp add: pending_ok_def triggered_bid_def bid_ok_def resting_ok_def)

lemma turn_aways_accounts: "fold turn_away_pending bs m = m' \<Longrightarrow> only_accounts (fst m) (fst m')"
  using turn_away_pendings [of "fst m" bs "snd m"] by simp

lemma withdrawn_all_accounts:
  assumes "withdrawn_all r m = (s', ev')"
  shows "only_accounts ((fst m)\<lparr>resting := fst (drain_all (resting (fst m)))\<rparr>) s'"
  using turn_away_restings [of "(fst m)\<lparr>resting := fst (drain_all (resting (fst m)))\<rparr>" r] assms
  by (metis fst_conv withdrawn_all_def)


lemma flush_frame:
  assumes "shape_at t s"
  shows "config (fst (flush_window (s, ev))) = config s" "now (fst (flush_window (s, ev))) = now s"
    "last_seq (fst (flush_window (s, ev))) = last_seq s"
    "resting (fst (flush_window (s, ev))) = resting s \<or>
     resting (fst (flush_window (s, ev))) = fst (drain_all (resting s))"
    "status (fst (flush_window (s, ev))) \<noteq> Pending \<or> status s = Pending"
proof -
  have "config (fst (flush_window (s, ev))) = config s \<and> now (fst (flush_window (s, ev))) = now s \<and>
     last_seq (fst (flush_window (s, ev))) = last_seq s \<and>
     (resting (fst (flush_window (s, ev))) = resting s \<or>
      resting (fst (flush_window (s, ev))) = fst (drain_all (resting s))) \<and>
     (status (fst (flush_window (s, ev))) \<noteq> Pending \<or> status s = Pending)"
    using assms
  proof (cases rule: flush_shape_cases [where ev = ev])
    case none
    then show ?thesis by simp
  next
    case (live w allocs rem ex s1 e1)
    then show ?thesis by (auto simp: settles_def clear_frame)
  qed
  then show "config (fst (flush_window (s, ev))) = config s" "now (fst (flush_window (s, ev))) = now s"
    "last_seq (fst (flush_window (s, ev))) = last_seq s"
    "resting (fst (flush_window (s, ev))) = resting s \<or>
     resting (fst (flush_window (s, ev))) = fst (drain_all (resting s))"
    "status (fst (flush_window (s, ev))) \<noteq> Pending \<or> status s = Pending"
    by blast+
qed

lemma micro_frame:
  assumes "micro cmd s s'" and "shape_at t s"
  shows "config s' = config s \<and> now s' = now s \<and> last_seq s' = last_seq s"
  using assms(1)
proof cases
  case (micro_flush ev ev')
  then show ?thesis using flush_frame [OF assms(2), of ev] by simp
next
  case (micro_clear ev ev')
  then show ?thesis using clear_frame [of "floor_price (config s)" s ev] by simp
next
  case (micro_cancel ev ev')
  then show ?thesis
    using withdrawn_all_accounts [OF micro_cancel(3)]
      turn_aways_accounts [of "window_bids s" "(s\<lparr>status := status.Cancelled, window := None\<rparr>, ev)", OF refl]
    by (simp add: only_accounts_def)
qed (use reserve_only_accounts in \<open>force simp: only_accounts_def\<close>)+

lemma shape_ladder:
  assumes "shape_at t s" and "ladder_ok l" and "set (ladder_bids l) \<subseteq> set (ladder_bids (resting s))"
  shows "shape_at t (s\<lparr>resting := l\<rparr>)"
  using assms window_bounds_cong [of "s\<lparr>resting := l\<rparr>" s] by (auto simp: shape_defs)

lemma shape_reserve: "shape_at t s \<Longrightarrow> reserve pt p q s = (s', b) \<Longrightarrow> shape_at t s'"
  using reserve_only_accounts shape_only_accounts by blast

lemma withdrawn_sub:
  "ladder_ok l \<Longrightarrow> ladder_remove pt key l = (l', Some b) \<Longrightarrow> ladder_ok l' \<and>
     b \<in> set (ladder_bids l) \<and> set (ladder_bids l') \<subseteq> set (ladder_bids l)"
  using ladder.withdraw_Some [of l pt key b] ladder.inv_withdraw [of l pt key] by auto

lemma cancel_accounts:
  assumes "withdrawn_all r (fold turn_away_pending bs (s, ev)) = (s', ev')"
  shows "only_accounts (s\<lparr>resting := fst (drain_all (resting s))\<rparr>) s'"
proof -
  have "only_accounts s (fst (fold turn_away_pending bs (s, ev)))"
    using turn_aways_accounts [of bs "(s, ev)", OF refl] by simp
  with withdrawn_all_accounts [OF assms] show ?thesis by (simp add: only_accounts_def)
qed

text \<open>Every step but the flush and the clearing at the floor leaves the sales alone.\<close>

definition quiet :: "auction_state \<Rightarrow> auction_state \<Rightarrow> bool" where
  "quiet s s' \<longleftrightarrow> config s' = config s \<and> fills s' = fills s \<and> next_fill_id s' = next_fill_id s \<and>
     clearing_price s' = clearing_price s \<and> supply_remaining s' = supply_remaining s \<and> now s' = now s \<and>
     (is_terminal (status s) \<longrightarrow> status s' = status s)"

lemma micro_sales_cases:
  assumes "micro cmd s s'"
  obtains (flush) ev where "s' = fst (flush_window (s, ev))"
  | (clear) ev where "accepts_bids (status s)" "window s = None" "at_floor (schedule (config s)) (now s)"
      "s' = fst (clear (floor_price (config s)) (s, ev))"
  | (quiet) "quiet s s'"
  using assms
proof cases
  case (micro_flush ev ev')
  then show ?thesis using flush [of ev] by simp
next
  case (micro_clear ev ev')
  then show ?thesis using clear [of ev] by simp
next
  case (micro_short pt key q kind p s1)
  then show ?thesis
    using quiet reserve_only_accounts [OF micro_short(4)] by (simp add: quiet_def only_accounts_def)
next
  case (micro_take pt key q x i p s1 sq)
  then show ?thesis
    using quiet reserve_only_accounts [OF micro_take(8)] by (simp add: quiet_def only_accounts_def)
next
  case (micro_rest pt key q limit s1 sq)
  then show ?thesis
    using quiet reserve_only_accounts [OF micro_rest(7)] by (simp add: quiet_def only_accounts_def)
next
  case (micro_cancel ev ev')
  then show ?thesis
    using quiet cancel_accounts [OF micro_cancel(3)] by (simp add: quiet_def only_accounts_def)
qed (use quiet in \<open>simp_all add: quiet_def\<close>)

lemma shape_micro:
  assumes "micro cmd s s'" and "cmd_width cmd" and "shape s"
  shows "shape s'"
  using assms(1)
proof cases
  case micro_open
  then show ?thesis
    using assms(3) window_bounds_cong [of "s\<lparr>status := Live\<rparr>" s] by (simp add: shape_defs)
next
  case (micro_short pt key q kind p s1)
  then show ?thesis
    using shape_reserve [OF assms(3) micro_short(4)] reserve_only_accounts [OF micro_short(4)]
    by (simp add: only_accounts_def)
next
  case (micro_take pt key q x i p s1 sq)
  have sh: "shape_at (now s) s1" using assms(3) micro_take(8) by (rule shape_reserve)
  have a: "only_accounts s s1" using reserve_only_accounts [OF micro_take(8)] by simp
  then have wb: "window_bounds s1 (now s) = (i, p)"
    using window_bounds_cong [of s1 s] micro_take(7) by (simp add: only_accounts_def)
  have "i64_ok p" using window_price_ok [of s "now s"] assms(3) micro_take(7) by (simp add: shape_at_def)
  then have "pending_ok p (take_bid sq pt key q p)"
    using micro_take(2,4) assms(2) by (simp add: take_bid_ok)
  then have "window_shape (now s) (push_pending i p (take_bid sq pt key q p) s1)"
    using window_shape_push [OF _ wb] sh by (simp add: shape_at_def)
  then have "shape_at (now s) (push_pending i p (take_bid sq pt key q p) s1)"
    using micro_take(5) sh a by (simp add: shape_at_def status_shape_def ladder_shape_def only_accounts_def)
  then show ?thesis using micro_take(1) a by (simp add: only_accounts_def)
next
  case (micro_rest pt key q limit s1 sq)
  let ?b = "rest_bid sq pt key q limit"
  have sh: "shape_at (now s) s1" using assms(3) micro_rest(7) by (rule shape_reserve)
  have a: "only_accounts s s1" using reserve_only_accounts [OF micro_rest(7)] by simp
  have "resting_ok ?b" using micro_rest(2,4) assms(2) by (simp add: resting_ok_def rest_bid_def)
  then have "shape_at (now s) (s1\<lparr>resting := ladder_insert ?b (resting s1)\<rparr>)"
    using sh a micro_rest(5) window_bounds_cong [of "s1\<lparr>resting := ladder_insert ?b (resting s1)\<rparr>" s1]
    by (simp add: shape_defs only_accounts_def ladder.inv_put ladder.bids_put)
  then show ?thesis using micro_rest(1) a by (simp add: only_accounts_def)
next
  case (micro_withdraw pt key l b)
  have ok: "ladder_ok (resting s)" using assms(3) by (simp add: shape_at_def ladder_shape_def)
  have "shape_at (now s) (s\<lparr>resting := l\<rparr>)"
    using assms(3) withdrawn_sub [OF ok micro_withdraw(3)] by (blast intro: shape_ladder)
  then show ?thesis
    using micro_withdraw(1) shape_collateral [where s = "s\<lparr>resting := l\<rparr>"] by simp
next
  case (micro_trigger i p l bs)
  have ok: "ladder_ok (resting s)" and cfg: "config_ok (config s)" and u: "u64_ok (now s)"
    using assms(3) by (simp_all add: shape_defs)
  have l: "ladder_ok l" "set (ladder_bids l) \<subseteq> set (ladder_bids (resting s))"
    and bs: "bs = filter (\<lambda>b. clock_price (config s) (now s) \<le> rb_limit b) (ladder_bids (resting s))"
    using ladder.inv_fire [OF ok, of "clock_price (config s) (now s)"]
      ladder.bids_fire [OF ok, of "clock_price (config s) (now s)"]
      ladder.fired [OF ok, of "clock_price (config s) (now s)"] micro_trigger(5) by auto
  have sh: "shape_at (now s) (s\<lparr>resting := l\<rparr>)" using assms(3) l by (rule shape_ladder)
  have wb: "window_bounds (s\<lparr>resting := l\<rparr>) (now s) = (i, p)"
    using window_bounds_cong [of "s\<lparr>resting := l\<rparr>" s] micro_trigger(4) by simp
  have "\<forall>b \<in> set bs. pending_ok p (triggered_bid b)"
    using window_price_le_clock [OF cfg u] micro_trigger(4) assms(3)
    by (fastforce simp: bs shape_at_def ladder_shape_def intro: triggered_bid_ok)
  then have "window_shape (now s) (fold (trigger i p) bs (s\<lparr>resting := l\<rparr>))"
    using window_shape_triggers [OF _ wb] sh by (simp add: shape_at_def)
  then show ?thesis
    using micro_trigger(1,3) sh by (simp add: shape_at_def status_shape_def ladder_shape_def)
next
  case (micro_flush ev ev')
  then show ?thesis using shape_flush [OF assms(3), of ev] flush_frame [OF assms(3), of ev] by simp
next
  case (micro_clear ev ev')
  then show ?thesis
    using shape_clear [OF assms(3) micro_clear(3), of "floor_price (config s)" ev]
      clear_frame [of "floor_price (config s)" s ev] by simp
next
  case (micro_cancel ev ev')
  let ?s = "s\<lparr>status := status.Cancelled, window := None\<rparr>"
  have a: "only_accounts (?s\<lparr>resting := fst (drain_all (resting ?s))\<rparr>) s'"
    using cancel_accounts [OF micro_cancel(3)] .
  have "clearing_price s = None"
    using assms(3) micro_cancel(2) by (auto simp: shape_defs is_terminal_def)
  then have "shape_at (now s) (?s\<lparr>resting := fst (drain_all (resting ?s))\<rparr>)"
    using assms(3) ladder_cleared by (simp add: shape_defs)
  from shape_only_accounts [OF this a] a show ?thesis by (simp add: only_accounts_def)
qed (use assms(3) in simp_all)


section \<open>Commands as steps\<close>

lemma micros_reject:
  "cmd = SubmitBid pt key q kind \<Longrightarrow> outcomes s key = None \<Longrightarrow> reason_width r \<Longrightarrow>
     micros cmd s (set_outcome key (outcome.Rejected r) s)"
  by (intro r_into_rtranclp micro_reject) auto

lemma on_take_micros:
  assumes "cmd = SubmitBid pt key q (Take x)" and "outcomes s key = None" and "q \<noteq> 0"
    and "accepts_bids (status s)" and "last_seq s = Some sq" and "config_ok (config s)"
  shows "micros cmd s (fst (on_take sq (now s) pt key q (clock_price (config s) (now s)) x (s, ev)))"
proof (cases "price_abs_diff (clock_price (config s) (now s)) x > price_tolerance (config s)")
  case True
  then show ?thesis using micros_reject [OF assms(1,2)] clock_price_ok [OF assms(6)] by simp
next
  case False
  obtain i p where wb: "window_bounds s (now s) = (i, p)" by fastforce
  obtain s1 ok where r: "reserve pt p q s = (s1, ok)" by fastforce
  show ?thesis
  proof (cases ok)
    case False
    have "micro cmd s (set_outcome key (outcome.Rejected InsufficientCollateral) s1)"
      using micro_short [OF assms(1,2)] r False by simp
    then show ?thesis using r False wb \<open>\<not> _ < _\<close> by (simp add: r_into_rtranclp)
  next
    case True
    let ?s2 = "set_outcome key (outcome.Queued q) (push_pending i p (take_bid sq pt key q p) s1)"
    have "micro cmd s ?s2"
      using micro_take [OF assms(1-4) _ wb] assms(5) r True False by simp
    then show ?thesis
      using r True False wb micros_flush [of cmd ?s2]
      by (auto simp: take_bid_def [symmetric] Let_def intro: converse_rtranclp_into_rtranclp)
  qed
qed

lemma on_rest_micros:
  assumes "cmd = SubmitBid pt key q (bid_kind.Resting limit)" and "outcomes s key = None" and "q \<noteq> 0"
    and "accepts_bids (status s)" and "last_seq s = Some sq" and "config_ok (config s)"
  shows "micros cmd s (fst (on_rest sq pt key q (clock_price (config s) (now s)) limit (s, ev)))"
proof (cases "limit > clock_price (config s) (now s)")
  case True
  then show ?thesis using micros_reject [OF assms(1,2)] clock_price_ok [OF assms(6)] by simp
next
  case False
  obtain s1 ok where r: "reserve pt limit q s = (s1, ok)" by fastforce
  have "micro cmd s (fst (on_rest sq pt key q (clock_price (config s) (now s)) limit (s, ev)))"
    using False r micro_short [OF assms(1,2), of limit s1] micro_rest [OF assms(1-4), of s1 sq] assms(5)
    by (cases ok) (simp_all add: rest_bid_def)
  then show ?thesis by simp
qed

lemma on_bid_micros:
  assumes "cmd = SubmitBid pt key q kind" and "last_seq s = Some sq" and "config_ok (config s)"
  shows "micros cmd s (fst (on_bid sq (now s) pt key q kind (s, ev)))"
proof (cases "outcomes s key")
  case None
  consider "q = 0" | "\<not> accepts_bids (status s)" | "q \<noteq> 0" "accepts_bids (status s)" by blast
  then show ?thesis
  proof cases
    case 3
    then show ?thesis
      using None on_take_micros [of cmd pt key q _ s sq ev] on_rest_micros [of cmd pt key q _ s sq ev] assms
      by (cases kind) (simp_all add: qty_is_zero_def del: on_take.simps on_rest.simps)
  qed (use None micros_reject [OF assms(1) None] in \<open>simp_all add: qty_is_zero_def\<close>)
qed simp

lemma on_cancel_resting_micros:
  assumes "cmd = CancelResting pt key" and "shape_at t s"
  shows "micros cmd s (fst (on_cancel_resting pt key (s, ev)))"
proof -
  obtain l found where l: "ladder_remove pt key (resting s) = (l, found)" by fastforce
  show ?thesis
  proof (cases found)
    case None
    then have "l = resting s" using ladder.withdraw_None_same [of pt key "resting s"] l by simp
    then show ?thesis using l None by (simp split: option.splits)
  next
    case (Some b)
    then show ?thesis
      using micro_withdraw [OF assms(1)] l by (simp add: r_into_rtranclp)
  qed
qed

lemma on_cancel_micros:
  assumes "cmd = Cancel"
  shows "micros cmd s (fst (on_cancel (s, ev)))"
proof (cases "is_terminal (status s)")
  case False
  have "fst (on_cancel (s, ev)) = fst (withdrawn_all NotLive (fold turn_away_pending (window_bids s)
      (s\<lparr>status := status.Cancelled, window := None\<rparr>, ev)))"
  proof (cases "window s")
    case None
    have "s\<lparr>status := status.Cancelled, window := None\<rparr> = s\<lparr>status := status.Cancelled\<rparr>"
      using None by simp
    then have e: "withdrawn_all NotLive (fold turn_away_pending (window_bids s)
        (s\<lparr>status := status.Cancelled, window := None\<rparr>, ev)) =
      withdrawn_all NotLive (s\<lparr>status := status.Cancelled\<rparr>, ev)"
      using None by (simp only: window_bids_def option.case fold_simps(1) id_apply)
    show ?thesis
      unfolding e using None False by (simp add: withdrawn_all_def case_prod_beta Let_def)
  next
    case (Some w)
    with False show ?thesis by (simp add: withdrawn_all_def window_bids_def case_prod_beta Let_def)
  qed
  with False assms show ?thesis
    by (intro r_into_rtranclp) (auto intro!: micro_cancel [where ev = ev] prod_eqI)
qed simp

text \<open>A tick of a live auction in phases: trigger, match if batching is off, and end at the floor.\<close>

lemma on_tick_phases:
  assumes "shape s" and "accepts_bids (status s)"
  obtains s1 m2 where "micro Tick s s1" "shape s1" "config s1 = config s" "now s1 = now s"
    "status s1 = status s" "resting s1 = fst (drain_triggered (clock_price (config s) (now s)) (resting s))"
    "m2 = (if batch_window (config s) = 0 then flush_window (s1, ev) else (s1, ev))"
    "shape (fst m2)" "config (fst m2) = config s" "now (fst m2) = now s"
    "on_tick (now s) (s, ev) =
      (if accepts_bids (status (fst m2)) \<and> at_floor (schedule (config s)) (now s)
       then if accepts_bids (status (fst (flush_window m2)))
            then clear (floor_price (config s)) (flush_window m2) else flush_window m2
       else m2)"
proof -
  obtain i p where wb: "window_bounds s (now s) = (i, p)" by fastforce
  obtain l bs where l: "drain_triggered (clock_price (config s) (now s)) (resting s) = (l, bs)" by fastforce
  define s1 where "s1 = fold (trigger i p) bs (s\<lparr>resting := l\<rparr>)"
  define m2 where "m2 = (if batch_window (config s1) = 0 then flush_window (s1, ev) else (s1, ev))"
  have step: "micro Tick s s1" unfolding s1_def by (rule micro_trigger [OF refl assms(2) wb l])
  have sh1: "shape s1" using shape_micro [OF step _ assms(1)] by simp
  have c1: "config s1 = config s" and n1: "now s1 = now s" by (simp_all add: s1_def)
  have sh2: "shape (fst m2)" "config (fst m2) = config s" "now (fst m2) = now s"
    using sh1 shape_flush [OF sh1, of ev] flush_frame [OF sh1, of ev] c1 n1 by (auto simp: m2_def)
  have eq: "on_tick (now s) (s, ev) =
    (if accepts_bids (status (fst m2)) \<and> at_floor (schedule (config s)) (now s)
     then if accepts_bids (status (fst (flush_window m2)))
          then clear (floor_price (config s)) (flush_window m2) else flush_window m2
     else m2)"
    unfolding on_tick.simps Let_def wb l prod.case s1_def [symmetric]
    unfolding case_prod_beta m2_def [symmetric] prod.collapse
    using assms(2) sh2 flush_frame(1) [OF sh2(1), of "snd m2"] c1 by simp
  show ?thesis
    by (rule that [OF step sh1 c1 n1 _ _ _ sh2 eq]) (simp_all add: s1_def l m2_def)
qed

lemma on_tick_micros:
  assumes "cmd = Tick" and "shape s"
  shows "micros cmd s (fst (on_tick (now s) (s, ev)))"
proof (cases "accepts_bids (status s)")
  case True
  obtain s1 m2 where p: "micro Tick s s1"
    "m2 = (if batch_window (config s) = 0 then flush_window (s1, ev) else (s1, ev))"
    "shape (fst m2)" "config (fst m2) = config s" "now (fst m2) = now s"
    "on_tick (now s) (s, ev) =
      (if accepts_bids (status (fst m2)) \<and> at_floor (schedule (config s)) (now s)
       then if accepts_bids (status (fst (flush_window m2)))
            then clear (floor_price (config s)) (flush_window m2) else flush_window m2
       else m2)"
    by (rule on_tick_phases [OF assms(2) True])
  have 2: "micros cmd s (fst m2)"
    using p(1,2) assms(1) micros_flush [of cmd s1 ev] by auto
  have 3: "micros cmd s (fst (flush_window m2))"
    using 2 micros_flush [of cmd "fst m2" "snd m2"] by auto
  have 4: "micro cmd (fst (flush_window m2)) (fst (clear (floor_price (config s)) (flush_window m2)))"
    if "accepts_bids (status (fst (flush_window m2)))" "at_floor (schedule (config s)) (now s)"
    using that shape_flush [OF p(3), of "snd m2"] flush_frame [OF p(3), of "snd m2"] p(4,5) assms(1)
    by (cases "flush_window m2"; cases "clear (floor_price (config s)) (flush_window m2)")
      (auto intro!: micro_clear)
  show ?thesis unfolding p(6) using 2 3 4 by auto
qed simp

text \<open>What a flush leaves of a live auction.\<close>

lemma flush_status:
  assumes "shape_at t s" and "accepts_bids (status s)"
  shows "accepts_bids (status (fst (flush_window (s, ev)))) \<and> resting (fst (flush_window (s, ev))) = resting s \<or>
     status (fst (flush_window (s, ev))) = status.Cleared"
  using assms(1)
proof (cases rule: flush_shape_cases [where ev = ev])
  case none
  then show ?thesis using assms(2) by simp
next
  case (live w allocs rem ex s1 e1)
  then show ?thesis by (cases ex) (simp_all add: settles_def clear_frame)
qed

lemma on_tick_status:
  assumes "shape s" and "accepts_bids (status s)"
  shows "status (fst (on_tick (now s) (s, ev))) = status.Cleared \<or>
     accepts_bids (status (fst (on_tick (now s) (s, ev)))) \<and> \<not> at_floor (schedule (config s)) (now s) \<and>
     resting (fst (on_tick (now s) (s, ev))) = fst (drain_triggered (clock_price (config s) (now s)) (resting s))"
proof -
  obtain s1 m2 where p: "shape s1" "status s1 = status s"
    "resting s1 = fst (drain_triggered (clock_price (config s) (now s)) (resting s))"
    "m2 = (if batch_window (config s) = 0 then flush_window (s1, ev) else (s1, ev))"
    "shape (fst m2)"
    "on_tick (now s) (s, ev) =
      (if accepts_bids (status (fst m2)) \<and> at_floor (schedule (config s)) (now s)
       then if accepts_bids (status (fst (flush_window m2)))
            then clear (floor_price (config s)) (flush_window m2) else flush_window m2
       else m2)"
    by (rule on_tick_phases [OF assms])
  have m2: "accepts_bids (status (fst m2)) \<and> resting (fst m2) = resting s1 \<or> status (fst m2) = status.Cleared"
    using flush_status [OF p(1), of ev] assms(2) p(2,4) by auto
  have f: "accepts_bids (status (fst m2)) \<Longrightarrow> accepts_bids (status (fst (flush_window m2))) \<or>
      status (fst (flush_window m2)) = status.Cleared"
    using flush_status [OF p(5), of "snd m2"] by auto
  have c: "status (fst (clear q m)) = status.Cleared" for q m
    using clear_frame(1) [of q "fst m" "snd m"] by simp
  show ?thesis unfolding p(6) using m2 f c p(3) by auto
qed

lemma on_set_collateral_micros:
  "cmd = SetCollateral pt lim \<Longrightarrow> micros cmd s (fst (on_set_collateral pt lim (s, ev)))"
  by (auto intro: micro_limit)

lemma on_open_micros: "cmd = Open \<Longrightarrow> micros cmd s (fst (on_open (s, ev)))"
  by (auto intro: micro_open)

lemma shape_config: "shape_at t s \<Longrightarrow> config_ok (config s)"
  by (simp add: shape_at_def)

lemma dispatch_micros:
  "shape s \<Longrightarrow> last_seq s = Some sq \<Longrightarrow> micros cmd s (fst (dispatch sq (now s) cmd (s, ev)))"
  using on_open_micros on_set_collateral_micros on_bid_micros on_cancel_resting_micros
    on_tick_micros on_cancel_micros shape_config [of "now s" s]
  by (cases cmd) (simp_all only: dispatch.simps)

text \<open>The part of \<open>apply\<close> before the dispatch: the clock moves, and an elapsed window closes.\<close>

definition stamped :: "seq \<Rightarrow> nanos \<Rightarrow> auction_state \<Rightarrow> auction_state" where
  "stamped sq ts s = s\<lparr>last_seq := Some sq, now := max ts (now s)\<rparr>"

definition advanced :: "seq \<Rightarrow> nanos \<Rightarrow> auction_state \<Rightarrow> machine" where
  "advanced sq ts s = close_elapsed_window (max ts (now s)) (stamped sq ts s, [])"

lemma apply_cmd_Some:
  "apply_cmd sq ts cmd s = Some m \<longleftrightarrow>
     seq_accepted s sq \<and> m = dispatch sq (max ts (now s)) cmd (advanced sq ts s)"
  by (auto simp: apply_cmd_def Let_def advanced_def stamped_def simp del: close_elapsed_window.simps)

lemma shape_stamped: "shape_at t s \<Longrightarrow> shape_at t (stamped sq ts s)"
  using window_bounds_cong [of "stamped sq ts s" s] by (simp add: shape_defs stamped_def)

lemma shape_advanced:
  assumes "shape s" and "u64_ok ts"
  shows "shape (fst (advanced sq ts s)) \<and> now (fst (advanced sq ts s)) = max ts (now s) \<and>
     config (fst (advanced sq ts s)) = config s \<and> last_seq (fst (advanced sq ts s)) = Some sq"
proof -
  let ?s = "stamped sq ts s" and ?t = "max ts (now s)"
  have sh: "shape_at (now s) ?s" using assms(1) by (rule shape_stamped)
  have u: "u64_ok ?t" using assms by (simp add: shape_at_def max_def)
  have f [simp]: "config ?s = config s" "now ?s = ?t" "last_seq ?s = Some sq"
    by (simp_all add: stamped_def)
  have open_ended: "window s' = None \<Longrightarrow> shape_at (now s) s' \<Longrightarrow> shape_at ?t s'" for s'
    using u by (simp add: shape_at_def window_shape_def)
  show ?thesis
  proof (cases "window ?s")
    case None
    then show ?thesis using open_ended [OF None sh] by (simp add: advanced_def)
  next
    case (Some w)
    show ?thesis
    proof (cases "fst (window_bounds ?s ?t) > w_index w")
      case True
      then have "advanced sq ts s = flush_window (?s, [])" using Some by (simp add: advanced_def)
      then show ?thesis
        using shape_flush [OF sh, of "[]"] flush_frame [OF sh, of "[]"] open_ended by simp
    next
      case False
      have "w_index w = fst (window_bounds ?s (now s))"
        using sh Some by (metis fst_conv shape_at_def window_shape_def)
      then have "fst (window_bounds ?s (now s)) = fst (window_bounds ?s ?t)"
        using False window_index_le [of "now s" ?t ?s] by simp
      then have "window_bounds ?s (now s) = window_bounds ?s ?t" by (rule same_window)
      then have "shape_at ?t ?s" using sh u by (simp add: shape_at_def window_shape_def)
      then show ?thesis using Some False by (simp add: advanced_def)
    qed
  qed
qed

lemma apply_micro:
  assumes "apply_cmd sq ts cmd s = Some (s', ev)" and "shape s" and "u64_ok ts"
  shows "micros cmd (fst (advanced sq ts s)) s'"
proof -
  obtain s1 e1 where a: "advanced sq ts s = (s1, e1)" by fastforce
  have "shape s1" "now s1 = max ts (now s)" "last_seq s1 = Some sq" using shape_advanced [OF assms(2,3), of sq] a by auto
  then show ?thesis
    using dispatch_micros [of s1 sq cmd e1] assms(1) a by (simp add: apply_cmd_Some) (metis fst_conv)
qed

lemma shape_micros: "micros cmd s s' \<Longrightarrow> cmd_width cmd \<Longrightarrow> shape s \<Longrightarrow>
    shape s' \<and> config s' = config s \<and> now s' = now s \<and> last_seq s' = last_seq s"
  by (induction rule: rtranclp_induct) (auto dest: shape_micro micro_frame)

lemma shape_apply:
  assumes "apply_cmd sq ts cmd s = Some (s', ev)" and "shape s" and "u64_ok ts" and "cmd_width cmd"
  shows "shape s' \<and> config s' = config s \<and> now s' = max ts (now s) \<and> last_seq s' = Some sq"
  using shape_micros [OF apply_micro [OF assms(1-3)] assms(4)] shape_advanced [OF assms(2,3), of sq] by metis

lemma shape_new: "config_ok c \<Longrightarrow> shape (new_state c)"
  by (simp add: shape_defs new_state_def config_ok_def ladder.bids_empty ladder.inv_empty)

section \<open>Logs\<close>

text \<open>Applying a log, one record after the other, as the sequencer and the replay both do.\<close>

type_synonym log_entry = "seq \<times> nanos \<times> command"

fun run :: "log_entry list \<Rightarrow> auction_state \<Rightarrow> machine option" where
  "run [] s = Some (s, [])"
| "run ((sq, ts, cmd) # log) s =
     (case apply_cmd sq ts cmd s of
        None \<Rightarrow> None
      | Some (s', ev) \<Rightarrow> (case run log s' of None \<Rightarrow> None | Some (s'', ev') \<Rightarrow> Some (s'', ev @ ev')))"

fun entry_width :: "log_entry \<Rightarrow> bool" where
  "entry_width (sq, ts, cmd) \<longleftrightarrow> u64_ok ts \<and> cmd_width cmd"

abbreviation log_width :: "log_entry list \<Rightarrow> bool" where
  "log_width log \<equiv> list_all entry_width log"

abbreviation entry_cmd :: "log_entry \<Rightarrow> command" where
  "entry_cmd e \<equiv> snd (snd e)"

inductive reachable_by :: "(command \<Rightarrow> bool) \<Rightarrow> auction_config \<Rightarrow> auction_state \<Rightarrow> bool" for P c where
  reachable_start: "config_ok c \<Longrightarrow> reachable_by P c (new_state c)"
| reachable_apply: "reachable_by P c s \<Longrightarrow> apply_cmd sq ts cmd s = Some (s', ev) \<Longrightarrow>
    u64_ok ts \<Longrightarrow> cmd_width cmd \<Longrightarrow> P cmd \<Longrightarrow> reachable_by P c s'"

lemma run_append:
  "run (xs @ ys) s = (case run xs s of None \<Rightarrow> None
     | Some (s', ev) \<Rightarrow> (case run ys s' of None \<Rightarrow> None | Some (s'', ev') \<Rightarrow> Some (s'', ev @ ev')))"
  by (induction xs arbitrary: s) (auto split: option.splits)

lemma run_reachable:
  "reachable_by P c s \<Longrightarrow> log_width log \<Longrightarrow> list_all (P \<circ> entry_cmd) log \<Longrightarrow>
     run log s = Some (s', ev) \<Longrightarrow> reachable_by P c s'"
proof (induction log arbitrary: s ev)
  case (Cons e log)
  obtain sq ts cmd where e: "e = (sq, ts, cmd)" by (cases e)
  obtain s1 e1 e2 where a: "apply_cmd sq ts cmd s = Some (s1, e1)" and r: "run log s1 = Some (s', e2)"
    using Cons.prems(4) by (auto simp: e split: option.splits)
  have "reachable_by P c s1"
    using Cons.prems(2,3) by (intro reachable_apply [OF Cons.prems(1) a]) (simp_all add: e)
  then show ?case using Cons.IH Cons.prems(2,3) r by (simp add: e)
qed simp

lemma reachable_shape: "reachable_by P c s \<Longrightarrow> shape s \<and> config s = c"
proof (induction rule: reachable_by.induct)
  case reachable_start
  then show ?case using shape_new by (simp add: new_state_def)
next
  case (reachable_apply s sq ts cmd s' ev)
  then show ?case using shape_apply [OF reachable_apply(2) _ reachable_apply(3,4)] by metis
qed

text \<open>
  An invariant of the machine: it holds at the start, when the clock and the sequence number move on, and every
  small step of an admitted command keeps it.
\<close>

locale machine_invariant =
  fixes P :: "command \<Rightarrow> bool" and I :: "auction_state \<Rightarrow> bool"
  assumes inv_start: "config_ok c \<Longrightarrow> I (new_state c)"
    and inv_stamp: "I s \<Longrightarrow> shape s \<Longrightarrow> now s \<le> t \<Longrightarrow> seq_accepted s sq \<Longrightarrow> I (s\<lparr>last_seq := Some sq, now := t\<rparr>)"
    and inv_flush: "I s \<Longrightarrow> shape_at t s \<Longrightarrow> t \<le> now s \<Longrightarrow> I (fst (flush_window (s, ev)))"
    and inv_micro: "I s \<Longrightarrow> shape s \<Longrightarrow> micro cmd s s' \<Longrightarrow> P cmd \<Longrightarrow> cmd_width cmd \<Longrightarrow> I s'"
begin

lemma inv_advanced:
  assumes "I s" and "shape s" and "seq_accepted s sq"
  shows "I (fst (advanced sq ts s))"
proof -
  have a: "I (stamped sq ts s)" using inv_stamp [OF assms(1,2) _ assms(3)] by (simp add: stamped_def)
  have "now s \<le> now (stamped sq ts s)" by (simp add: stamped_def)
  then show ?thesis
    using a inv_flush [OF a shape_stamped [OF assms(2)]]
    by (auto simp: advanced_def split: option.splits)
qed

lemma inv_micros: "micros cmd s s' \<Longrightarrow> I s \<Longrightarrow> shape s \<Longrightarrow> P cmd \<Longrightarrow> cmd_width cmd \<Longrightarrow> I s'"
  by (induction rule: rtranclp_induct) (auto dest: shape_micros intro: inv_micro)

lemma inv_apply:
  assumes "apply_cmd sq ts cmd s = Some (s', ev)" and "I s" and "shape s" and "u64_ok ts"
    and "P cmd" and "cmd_width cmd"
  shows "I s'"
  using inv_micros [OF apply_micro [OF assms(1,3,4)]] inv_advanced [OF assms(2,3)]
    shape_advanced [OF assms(3,4)] assms(1,5,6) apply_cmd_Some by blast

lemma inv_reachable: "reachable_by P c s \<Longrightarrow> I s"
proof (induction rule: reachable_by.induct)
  case (reachable_apply s sq ts cmd s' ev)
  then show ?case using inv_apply reachable_shape by blast
qed (rule inv_start)

lemma inv_run:
  "config_ok c \<Longrightarrow> log_width log \<Longrightarrow> list_all (P \<circ> entry_cmd) log \<Longrightarrow>
     run log (new_state c) = Some (s, ev) \<Longrightarrow> I s"
  using run_reachable [OF reachable_start] inv_reachable by blast

end

end
