(* ===== verification/Wal_Replay.thy ===== *)
theory Wal_Replay
  imports Wal_Log Auction_Steps
begin

text \<open>
  Snapshots (\<open>crates/auction-wal/src/snapshot.rs\<close>) and recovery (\<open>replay.rs\<close>).

  A snapshot file is its bytes; serialization is again an argument (\<open>senc\<close>, \<open>sdec\<close>). Recovery
  replays the log on top of the newest readable snapshot. The main result is that this gives
  the state the log alone gives, with a snapshot or without, as long as the snapshot is one of
  this log or lies beyond its end; the last section shows what happens otherwise.
\<close>

section \<open>Snapshots\<close>

record snapshot =
  sn_seq :: seq
  sn_state :: auction_state

type_synonym snapshot_encoder = "snapshot \<Rightarrow> byte list option"
type_synonym snapshot_decoder = "byte list \<Rightarrow> string + snapshot"

definition snapshot_name :: "seq \<Rightarrow> string" where
  "snapshot_name sq = ''snapshot-'' @ zero_pad 20 sq @ ''.snap''"

definition snapshot_seq :: "string \<Rightarrow> seq option" where
  "snapshot_seq name =
     (case strip_prefix ''snapshot-'' name of
        None \<Rightarrow> None
      | Some rest \<Rightarrow>
          (case strip_suffix ''.snap'' rest of
             None \<Rightarrow> None
           | Some digits \<Rightarrow> parse_unsigned u64_max digits))"

text \<open>The body of a snapshot file: the serialized snapshot and its checksum.\<close>

definition snapshot_body :: "snapshot_encoder \<Rightarrow> checksum \<Rightarrow> snapshot \<Rightarrow> byte list option" where
  "snapshot_body senc crc sn = map_option (\<lambda>body. body @ to_le_bytes (crc body)) (senc sn)"

text \<open>
  \<open>write\<close>: a temporary file, synced, then renamed into place. Each of the system calls can fail; a failed write may
  leave any part of the temporary file behind.
\<close>

datatype snapshot_io = SnapDone | CreateFails | WriteCut nat | RenameFails

definition remove_entry :: "string \<Rightarrow> directory \<Rightarrow> directory" where
  "remove_entry name dir = filter (\<lambda>e. fst e \<noteq> name) dir"

definition put_entry :: "string \<Rightarrow> byte list \<Rightarrow> directory \<Rightarrow> directory" where
  "put_entry name bytes dir = (name, bytes) # remove_entry name dir"

definition temp_name :: "seq \<Rightarrow> string" where
  "temp_name sq = snapshot_name sq @ ''.partial''"

definition snapshot_write ::
  "snapshot_encoder \<Rightarrow> checksum \<Rightarrow> snapshot_io \<Rightarrow> directory \<Rightarrow> auction_state \<Rightarrow>
   directory \<times> (wal_error + seq option)" where
  "snapshot_write senc crc io dir s =
     (case last_seq s of
        None \<Rightarrow> (dir, Inr None)
      | Some sq \<Rightarrow>
          (case snapshot_body senc crc \<lparr>sn_seq = sq, sn_state = s\<rparr> of
             None \<Rightarrow> (dir, Inl Encode)
           | Some body \<Rightarrow>
               (case io of
                  CreateFails \<Rightarrow> (dir, Inl Io)
                | WriteCut n \<Rightarrow> (put_entry (temp_name sq) (take n body) dir, Inl Io)
                | RenameFails \<Rightarrow> (put_entry (temp_name sq) body dir, Inl Io)
                | SnapDone \<Rightarrow> (put_entry (snapshot_name sq) body (remove_entry (temp_name sq) dir), Inr (Some sq)))))"

definition snapshot_read :: "snapshot_decoder \<Rightarrow> checksum \<Rightarrow> byte list \<Rightarrow> wal_error + snapshot" where
  "snapshot_read sdec crc bytes =
     (if length bytes < 4 then Inl (Corrupt 0 ''shorter than its checksum'')
      else let split = length bytes - 4; body = take split bytes; tail = drop split bytes;
               expected = from_le_bytes tail
           in if crc body \<noteq> expected then Inl (Corrupt 0 ''checksum mismatch'')
              else (case sdec body of Inl e \<Rightarrow> Inl (Corrupt 0 e) | Inr sn \<Rightarrow> Inr sn))"

definition snapshot_list :: "directory \<Rightarrow> (seq \<times> byte list) list" where
  "snapshot_list dir = sort_key (\<lambda>e. - int (fst e)) (List.map_filter
     (\<lambda>e. map_option (\<lambda>sq. (sq, snd e)) (snapshot_seq (fst e))) dir)"

fun first_usable :: "snapshot_decoder \<Rightarrow> checksum \<Rightarrow> (seq \<times> byte list) list \<Rightarrow> snapshot option" where
  "first_usable sdec crc [] = None"
| "first_usable sdec crc (e # es) =
     (case snapshot_read sdec crc (snd e) of
        Inr sn \<Rightarrow> Some sn
      | Inl _ \<Rightarrow> first_usable sdec crc es)"

definition latest_usable :: "snapshot_decoder \<Rightarrow> checksum \<Rightarrow> directory \<Rightarrow> snapshot option" where
  "latest_usable sdec crc dir = first_usable sdec crc (snapshot_list dir)"

text \<open>
  \<open>prune\<close> deletes the files listed after the first \<open>keep\<close> and returns how many it deleted; the first deletion that
  fails ends it.
\<close>

fun remove_files :: "(string \<Rightarrow> bool) \<Rightarrow> string list \<Rightarrow> nat \<Rightarrow> directory \<Rightarrow> directory \<times> (wal_error + nat)" where
  "remove_files io [] removed dir = (dir, Inr removed)"
| "remove_files io (name # names) removed dir =
     (if io name then remove_files io names (removed + 1) (remove_entry name dir) else (dir, Inl Io))"

definition snapshot_names :: "directory \<Rightarrow> string list" where
  "snapshot_names dir = map snd (sort_key (\<lambda>e. - int (fst e)) (List.map_filter
     (\<lambda>e. map_option (\<lambda>sq. (sq, fst e)) (snapshot_seq (fst e))) dir))"

definition prune :: "nat \<Rightarrow> (string \<Rightarrow> bool) \<Rightarrow> directory \<Rightarrow> directory \<times> (wal_error + nat)" where
  "prune keep io dir = remove_files io (drop keep (snapshot_names dir)) 0 dir"

text \<open>One job of the snapshot thread, \<open>run_snapshots\<close> in \<open>engine.rs\<close>: write, then keep the newest two.\<close>

definition snapshot_job ::
  "snapshot_encoder \<Rightarrow> checksum \<Rightarrow> snapshot_io \<Rightarrow> (string \<Rightarrow> bool) \<Rightarrow> auction_state \<Rightarrow> directory \<Rightarrow> directory" where
  "snapshot_job senc crc io removed s dir =
     (case snapshot_write senc crc io dir s of
        (dir, Inl e) \<Rightarrow> dir
      | (dir, Inr _) \<Rightarrow> fst (prune 2 removed dir))"

lemma snapshot_seq_name_aux:
  assumes "u64_ok sq"
  shows "snapshot_seq (snapshot_name sq) = Some sq"
proof -
  have "strip_prefix ''snapshot-'' (snapshot_name sq) = Some (zero_pad 20 sq @ ''.snap'')"
    unfolding snapshot_name_def by (rule strip_prefix_append)
  moreover have "parse_unsigned u64_max (zero_pad 20 sq) = Some sq"
    using assms by (intro parse_zero_pad) (simp add: u64_ok_def)
  ultimately show ?thesis by (simp add: snapshot_seq_def del: append.simps)
qed

lemma snapshot_read_body:
  assumes "senc sn = Some body" and "sdec body = Inr sn" and "u32_ok (crc body)"
    and "snapshot_body senc crc sn = Some bytes"
  shows "snapshot_read sdec crc bytes = Inr sn"
  using assms by (auto simp: snapshot_body_def snapshot_read_def from_to_le_bytes)

lemma temp_name_is_no_snapshot: "snapshot_seq (temp_name sq) = None"
proof -
  have "strip_prefix ''snapshot-'' (temp_name sq) = Some ((zero_pad 20 sq @ ''.snap'') @ ''.partial'')"
    unfolding temp_name_def snapshot_name_def append.assoc by (rule strip_prefix_append)
  moreover have "strip_suffix ''.snap'' ((zero_pad 20 sq @ ''.snap'') @ ''.partial'') = None"
    by (simp add: strip_suffix_def)
  ultimately show ?thesis by (simp add: snapshot_seq_def)
qed

text \<open>What a snapshot job leaves in the directory was there before or is the snapshot, under its name.\<close>

lemma set_remove_files: "set (fst (remove_files io names n dir)) \<subseteq> set dir"
  by (induction io names n dir rule: remove_files.induct) (auto simp: remove_entry_def)

lemma snapshot_write_entries:
  assumes "e \<in> set (fst (snapshot_write senc crc io dir s))"
  shows "e \<in> set dir \<or> snapshot_seq (fst e) = None \<or>
     (\<exists>sq. last_seq s = Some sq \<and> snapshot_body senc crc \<lparr>sn_seq = sq, sn_state = s\<rparr> = Some (snd e))"
  using assms
  by (auto simp: snapshot_write_def put_entry_def remove_entry_def temp_name_is_no_snapshot
      split: option.splits snapshot_io.splits)

lemma snapshot_job_entries:
  assumes "e \<in> set (snapshot_job senc crc io removed s dir)"
  shows "e \<in> set dir \<or> snapshot_seq (fst e) = None \<or>
     (\<exists>sq. last_seq s = Some sq \<and> snapshot_body senc crc \<lparr>sn_seq = sq, sn_state = s\<rparr> = Some (snd e))"
proof -
  have "e \<in> set (fst (snapshot_write senc crc io dir s))"
    using assms set_remove_files [of removed _ 0]
    by (cases "snapshot_write senc crc io dir s") (auto simp: snapshot_job_def prune_def split: sum.splits)
  then show ?thesis by (rule snapshot_write_entries)
qed

lemma first_usable_in: "first_usable sdec crc es = Some sn \<Longrightarrow> \<exists>e \<in> set es. snapshot_read sdec crc (snd e) = Inr sn"
  by (induction es) (auto split: sum.splits)

lemma latest_usable_in:
  assumes "latest_usable sdec crc dir = Some sn"
  shows "\<exists>e \<in> set dir. snapshot_seq (fst e) \<noteq> None \<and> snapshot_read sdec crc (snd e) = Inr sn"
  using first_usable_in [OF assms [unfolded latest_usable_def]]
  by (fastforce simp: snapshot_list_def List.map_filter_def)

text \<open>The newest snapshot is the one that is found, and pruning keeps it.\<close>

lemma newest_is_first:
  fixes f :: "string \<times> byte list \<Rightarrow> 'a"
  assumes "snapshot_seq name = Some sq" and "\<forall>e \<in> set rest. \<forall>q. snapshot_seq (fst e) = Some q \<longrightarrow> q \<le> sq"
  shows "\<exists>es. sort_key (\<lambda>e. - int (fst e)) (List.map_filter
      (\<lambda>e. map_option (\<lambda>sq. (sq, f e)) (snapshot_seq (fst e))) ((name, bytes) # rest)) = (sq, f (name, bytes)) # es \<and>
    set es \<subseteq> {(q, f e) | q e. e \<in> set rest}"
proof -
  let ?key = "\<lambda>e. - int (fst e)"
  let ?ys = "List.map_filter (\<lambda>e. map_option (\<lambda>sq. (sq, f e)) (snapshot_seq (fst e))) rest"
  have "\<forall>y \<in> set (sort_key ?key ?ys). ?key (sq, f (name, bytes)) \<le> ?key y"
    using assms(2) by (auto simp: List.map_filter_def)
  then have "insort_key ?key (sq, f (name, bytes)) (sort_key ?key ?ys) = (sq, f (name, bytes)) # sort_key ?key ?ys"
    by (rule insort_is_Cons)
  moreover have "set (sort_key ?key ?ys) \<subseteq> {(q, f e) | q e. e \<in> set rest}"
    by (fastforce simp: List.map_filter_def)
  ultimately show ?thesis using assms(1) by (simp add: List.map_filter_def)
qed

lemma latest_is_newest:
  assumes "snapshot_seq name = Some sq" and "snapshot_read sdec crc bytes = Inr sn"
    and "\<forall>e \<in> set rest. \<forall>q. snapshot_seq (fst e) = Some q \<longrightarrow> q \<le> sq"
  shows "latest_usable sdec crc ((name, bytes) # rest) = Some sn"
  using newest_is_first [OF assms(1,3), of snd bytes] assms(2)
  by (auto simp: latest_usable_def snapshot_list_def)

lemma remove_files_keeps:
  "name \<notin> set names \<Longrightarrow> \<exists>rest'. fst (remove_files io names n ((name, bytes) # rest)) = (name, bytes) # rest' \<and>
     set rest' \<subseteq> set rest"
proof (induction names arbitrary: n rest)
  case (Cons x names)
  have r: "remove_entry x ((name, bytes) # rest) = (name, bytes) # remove_entry x rest"
    using Cons.prems by (simp add: remove_entry_def)
  have "set (remove_entry x rest) \<subseteq> set rest" by (auto simp: remove_entry_def)
  then show ?case
    using Cons.IH [of "n + 1" "remove_entry x rest"] Cons.prems by (auto simp: r)
qed simp

lemma prune_keeps_newest:
  assumes "snapshot_seq name = Some sq" and "0 < keep" and "\<forall>e \<in> set rest. fst e \<noteq> name"
    and "\<forall>e \<in> set rest. \<forall>q. snapshot_seq (fst e) = Some q \<longrightarrow> q \<le> sq"
  shows "\<exists>rest'. fst (prune keep io ((name, bytes) # rest)) = (name, bytes) # rest' \<and> set rest' \<subseteq> set rest"
proof -
  obtain es where "sort_key (\<lambda>e. - int (fst e)) (List.map_filter
      (\<lambda>e. map_option (\<lambda>sq. (sq, fst e)) (snapshot_seq (fst e))) ((name, bytes) # rest)) = (sq, name) # es"
    and es: "set es \<subseteq> {(q, fst e) | q e. e \<in> set rest}"
    using newest_is_first [OF assms(1,4), of fst bytes] unfolding fst_conv by blast
  then have names: "snapshot_names ((name, bytes) # rest) = name # map snd es"
    unfolding snapshot_names_def by (metis list.simps(9) snd_conv)
  have "name \<notin> snd ` set es" using es assms(3) by force
  then have "name \<notin> set (drop keep (snapshot_names ((name, bytes) # rest)))"
    using assms(2) unfolding names by (cases keep) (auto dest!: in_set_dropD)
  then show ?thesis unfolding prune_def by (rule remove_files_keeps)
qed

section \<open>Recovery\<close>

record recovered =
  rec_state :: auction_state
  rec_next_seq :: seq
  rec_replayed :: nat
  rec_from_snapshot :: "seq option"

text \<open>\<open>apply\<close> and \<open>follow\<close>: one record into a state machine, its events dropped. The panic of \<open>apply\<close> aborts.\<close>

definition follow :: "auction_state \<Rightarrow> log_record \<Rightarrow> wal_error + auction_state" where
  "follow s record =
     (case apply_cmd (lr_seq record) (lr_ts record) (lr_cmd record) s of
        None \<Rightarrow> Inl Aborted
      | Some (s', ev) \<Rightarrow> Inr s')"

definition is_before :: "seq option \<Rightarrow> log_record \<Rightarrow> bool" where
  "is_before resume_after record = (case resume_after of None \<Rightarrow> False | Some sq \<Rightarrow> lr_seq record \<le> sq)"

text \<open>The replay loop; \<open>last\<close> is the position of the state in the log.\<close>

fun replay :: "seq option \<Rightarrow> seq option \<Rightarrow> nat \<Rightarrow> auction_state \<Rightarrow> log_record list \<Rightarrow> wal_error + recovered" where
  "replay from last_at replayed s [] =
     (case last_at of
        None \<Rightarrow> Inr \<lparr>rec_state = s, rec_next_seq = seq_start, rec_replayed = replayed, rec_from_snapshot = from\<rparr>
      | Some sq \<Rightarrow>
          (case seq_next sq of
             None \<Rightarrow> Inl Aborted
           | Some next \<Rightarrow> Inr \<lparr>rec_state = s, rec_next_seq = next, rec_replayed = replayed, rec_from_snapshot = from\<rparr>))"
| "replay from last_at replayed s (record # records) =
     (if is_before from record then replay from last_at replayed s records
      else (case last_at of
              None \<Rightarrow>
                (case follow s record of
                   Inl e \<Rightarrow> Inl e
                 | Inr s' \<Rightarrow> replay from (Some (lr_seq record)) (replayed + 1) s' records)
            | Some prev \<Rightarrow>
                (case seq_next prev of
                   None \<Rightarrow> Inl Aborted
                 | Some next \<Rightarrow>
                     if lr_seq record \<noteq> next then Inl (SequenceGap prev (lr_seq record))
                     else (case follow s record of
                             Inl e \<Rightarrow> Inl e
                           | Inr s' \<Rightarrow> replay from (Some (lr_seq record)) (replayed + 1) s' records))))"

definition recover_from :: "auction_config \<Rightarrow> log_record list \<Rightarrow> snapshot option \<Rightarrow> wal_error + recovered" where
  "recover_from c records sn =
     (case sn of
        Some s \<Rightarrow>
          if records \<noteq> [] \<and> lr_seq (last records) < sn_seq s
          then replay None None 0 (new_state c) records
          else replay (Some (sn_seq s)) (Some (sn_seq s)) 0 (sn_state s) records
      | None \<Rightarrow> replay None None 0 (new_state c) records)"

definition recover ::
  "json_reader \<Rightarrow> decoder \<Rightarrow> checksum \<Rightarrow> snapshot_decoder \<Rightarrow> log_dir \<Rightarrow> directory \<Rightarrow> wal_error + recovered" where
  "recover from_json dec crc sdec d snapshots =
     (case read_manifest from_json d of
        Inl e \<Rightarrow> Inl e
      | Inr c \<Rightarrow>
          (case read_all dec crc (files d) of
             Inl e \<Rightarrow> Inl e
           | Inr records \<Rightarrow> recover_from c records (latest_usable sdec crc snapshots)))"

section \<open>Replay is the run again\<close>

definition entry_of :: "log_record \<Rightarrow> log_entry" where
  "entry_of r = (lr_seq r, lr_ts r, lr_cmd r)"

abbreviation run_records :: "log_record list \<Rightarrow> auction_state \<Rightarrow> machine option" where
  "run_records rs s \<equiv> run (map entry_of rs) s"

text \<open>Where the sequencer resumes after a log.\<close>

definition resume_at :: "seq option \<Rightarrow> seq option" where
  "resume_at last_at = (case last_at of None \<Rightarrow> Some seq_start | Some sq \<Rightarrow> seq_next sq)"

lemma run_Cons_Some:
  assumes "run_records (r # rs) s = Some (s', ev)"
  obtains s1 e1 e2 where "apply_cmd (lr_seq r) (lr_ts r) (lr_cmd r) s = Some (s1, e1)"
    "run_records rs s1 = Some (s', e2)" "ev = e1 @ e2"
  using assms by (auto simp: entry_of_def split: option.splits)

lemma gapless_Cons: "gapless (r # rs) \<longleftrightarrow> gapless rs \<and> (rs \<noteq> [] \<longrightarrow> seq_next (lr_seq r) = Some (lr_seq (hd rs)))"
  by (cases rs) auto

lemma replay_fresh:
  assumes "run_records rs s = Some (s', ev)" and "gapless rs" and "\<forall>r \<in> set rs. \<not> is_before from r"
    and "last_at = None \<or> rs = [] \<or> seq_next (the last_at) = Some (lr_seq (hd rs))"
    and "resume_at (if rs = [] then last_at else last_seq_of rs) = Some nxt"
  shows "replay from last_at n s rs =
     Inr \<lparr>rec_state = s', rec_next_seq = nxt, rec_replayed = n + length rs, rec_from_snapshot = from\<rparr>"
  using assms
proof (induction rs arbitrary: s n last_at ev)
  case Nil
  then show ?case by (auto simp: resume_at_def split: option.splits)
next
  case (Cons r rs)
  obtain s1 e1 e2 where a: "apply_cmd (lr_seq r) (lr_ts r) (lr_cmd r) s = Some (s1, e1)"
    and r: "run_records rs s1 = Some (s', e2)"
    by (rule run_Cons_Some [OF Cons.prems(1)])
  have f: "follow s r = Inr s1" by (simp add: follow_def a)
  have "resume_at (if rs = [] then Some (lr_seq r) else last_seq_of rs) = Some nxt"
    using Cons.prems(5) by (auto simp: last_seq_of_def split: if_splits)
  moreover have "Some (lr_seq r) = None \<or> rs = [] \<or> seq_next (the (Some (lr_seq r))) = Some (lr_seq (hd rs))"
    using Cons.prems(2) by (auto simp: gapless_Cons)
  ultimately have IH: "replay from (Some (lr_seq r)) (n + 1) s1 rs = Inr \<lparr>rec_state = s', rec_next_seq = nxt,
      rec_replayed = n + 1 + length rs, rec_from_snapshot = from\<rparr>"
    using Cons.prems(2,3) by (intro Cons.IH [OF r]) (simp_all add: gapless_Cons)
  show ?case
    using IH f Cons.prems(3,4) by (cases last_at) simp_all
qed

lemma replay_skips:
  assumes "\<forall>r \<in> set rs. is_before from r"
  shows "replay from last_at n s (rs @ rs') = replay from last_at n s rs'"
  using assms by (induction rs) simp_all

text \<open>A snapshot of a log: the state after one of its prefixes, at that prefix's last sequence number.\<close>

definition snapshot_of :: "auction_config \<Rightarrow> log_record list \<Rightarrow> snapshot \<Rightarrow> bool" where
  "snapshot_of c rs sn \<longleftrightarrow> (\<exists>k ev. 0 < k \<and> k \<le> length rs \<and>
     run_records (take k rs) (new_state c) = Some (sn_state sn, ev) \<and> sn_seq sn = lr_seq (rs ! (k - 1)))"

lemma run_split:
  assumes "run_records rs s = Some (s', ev)" and "run_records (take k rs) s = Some (s1, e1)"
  shows "\<exists>e2. run_records (drop k rs) s1 = Some (s', e2)"
proof -
  have "run_records (take k rs @ drop k rs) s = Some (s', ev)" using assms(1) by simp
  then show ?thesis
    unfolding map_append run_append using assms(2) by (auto split: option.splits)
qed

lemma last_take_nth: "0 < k \<Longrightarrow> k \<le> length xs \<Longrightarrow> last (take k xs) = xs ! (k - 1)"
  by (subst last_conv_nth) (auto simp: min_def)

lemma recover_log:
  assumes "run_records rs (new_state c) = Some (s, ev)" and "gapless rs"
    and "resume_at (last_seq_of rs) = Some nxt"
  shows "replay None None 0 (new_state c) rs =
     Inr \<lparr>rec_state = s, rec_next_seq = nxt, rec_replayed = length rs, rec_from_snapshot = None\<rparr>"
  using replay_fresh [OF assms(1,2), of None None nxt 0] assms(3)
  by (cases "rs = []") (simp_all add: is_before_def last_seq_of_def)

lemma recover_snapshot:
  assumes "run_records rs (new_state c) = Some (s, ev)" and "gapless rs"
    and "resume_at (last_seq_of rs) = Some nxt" and "0 < k" and "k \<le> length rs"
    and "run_records (take k rs) (new_state c) = Some (s1, e1)"
  shows "replay (Some (lr_seq (rs ! (k - 1)))) (Some (lr_seq (rs ! (k - 1)))) 0 s1 rs =
     Inr \<lparr>rec_state = s, rec_next_seq = nxt, rec_replayed = length rs - k,
          rec_from_snapshot = Some (lr_seq (rs ! (k - 1)))\<rparr>"
proof -
  let ?q = "lr_seq (rs ! (k - 1))"
  have sorted: "i < j \<Longrightarrow> j < length rs \<Longrightarrow> lr_seq (rs ! i) < lr_seq (rs ! j)" for i j
    using gapless_sorted [OF assms(2)] by (simp add: sorted_wrt_iff_nth_less)
  have old: "\<forall>r \<in> set (take k rs). is_before (Some ?q) r"
  proof
    fix r assume "r \<in> set (take k rs)"
    then obtain i where "i < k" "i < length rs" "r = rs ! i" by (auto simp: in_set_conv_nth)
    then show "is_before (Some ?q) r"
      using sorted [of i "k - 1"] assms(4,5) by (cases "i = k - 1") (auto simp: is_before_def intro: less_imp_le)
  qed
  have new: "\<forall>r \<in> set (drop k rs). \<not> is_before (Some ?q) r"
  proof
    fix r assume "r \<in> set (drop k rs)"
    then obtain i where "i < length rs - k" "r = rs ! (k + i)" by (auto simp: in_set_conv_nth)
    then have "k + i < length rs" "r = rs ! (k + i)" by simp_all
    then show "\<not> is_before (Some ?q) r"
      using sorted [of "k - 1" "k + i"] assms(4) by (simp add: is_before_def not_le)
  qed
  obtain e2 where r: "run_records (drop k rs) s1 = Some (s, e2)" using run_split [OF assms(1,6)] by blast
  have split: "gapless (take k rs @ drop k rs)" using assms(2) by simp
  have lt: "last (take k rs) = rs ! (k - 1)" "take k rs \<noteq> []"
    using assms(4,5) by (auto simp: last_take_nth)
  have "drop k rs = [] \<or> seq_next (the (Some ?q)) = Some (lr_seq (hd (drop k rs)))"
    using split lt unfolding gapless_append by auto
  moreover have "resume_at (if drop k rs = [] then Some ?q else last_seq_of (drop k rs)) = Some nxt"
    using assms(3-5) lt by (auto simp: last_seq_of_def last_conv_nth)
  moreover have "gapless (drop k rs)" using split unfolding gapless_append by simp
  ultimately have "replay (Some ?q) (Some ?q) 0 s1 (drop k rs) = Inr \<lparr>rec_state = s, rec_next_seq = nxt,
      rec_replayed = 0 + length (drop k rs), rec_from_snapshot = Some ?q\<rparr>"
    using new by (intro replay_fresh [OF r]) auto
  then show ?thesis using replay_skips [OF old, of "Some ?q" 0 s1 "drop k rs"] by simp
qed


text \<open>
  A log and a snapshot of the same history: the log may have lost a tail that the snapshot still has, in which
  case the snapshot is set aside.
\<close>

lemma recover_prefix:
  assumes "run_records hist (new_state c) = Some (sn, e0)" and "gapless hist"
    and "j \<le> length hist" and "0 < j" and "run_records (take j hist) (new_state c) = Some (s, ev)"
    and "resume_at (last_seq_of (take j hist)) = Some nxt" and "snapshot_of c hist snap"
  shows "\<exists>n from. recover_from c (take j hist) (Some snap) =
     Inr \<lparr>rec_state = s, rec_next_seq = nxt, rec_replayed = n, rec_from_snapshot = from\<rparr>"
proof -
  obtain k e1 where k: "0 < k" "k \<le> length hist"
    "run_records (take k hist) (new_state c) = Some (sn_state snap, e1)" "sn_seq snap = lr_seq (hist ! (k - 1))"
    using assms(7) by (auto simp: snapshot_of_def)
  have g: "gapless (take j hist)" using assms(2) by (rule gapless_take)
  have sorted: "a < b \<Longrightarrow> b < length hist \<Longrightarrow> lr_seq (hist ! a) < lr_seq (hist ! b)" for a b
    using gapless_sorted [OF assms(2)] by (simp add: sorted_wrt_iff_nth_less)
  have ne: "take j hist \<noteq> []" and la: "last (take j hist) = hist ! (j - 1)"
    using assms(3,4) by (auto simp: last_take_nth)
  show ?thesis
  proof (cases "j < k")
    case True
    then have "lr_seq (last (take j hist)) < sn_seq snap"
      using sorted [of "j - 1" "k - 1"] assms(4) k by (simp add: la)
    then show ?thesis
      using recover_log [OF assms(5) g assms(6)] ne by (simp add: recover_from_def)
  next
    case False
    then have "k = j \<or> k - 1 < j - 1" and "j - 1 < length hist" using k(1) assms(3,4) by linarith+
    then have "\<not> lr_seq (last (take j hist)) < sn_seq snap"
      using sorted [of "k - 1" "j - 1"] k(4) by (auto simp: la)
    moreover have "take k (take j hist) = take k hist" and "take j hist ! (k - 1) = hist ! (k - 1)"
      using False k by (simp_all add: min_def)
    ultimately show ?thesis
      using recover_snapshot [OF assms(5) g assms(6) k(1), of "sn_state snap" e1] k False assms(3)
      by (simp add: recover_from_def)
  qed
qed

section \<open>Every gapless log runs\<close>

lemma run_from_seq:
  assumes "gapless rs" and "last_seq s = None \<or> rs = [] \<or> seq_next (the (last_seq s)) = Some (lr_seq (hd rs))"
    and "shape s" and "log_width (map entry_of rs)"
  shows "\<exists>m. run_records rs s = Some m"
  using assms
proof (induction rs arbitrary: s)
  case (Cons r rs)
  have "seq_accepted s (lr_seq r)"
    using Cons.prems(2) by (auto simp: seq_accepted_def split: option.splits)
  then obtain s1 e1 where a: "apply_cmd (lr_seq r) (lr_ts r) (lr_cmd r) s = Some (s1, e1)"
    by (metis apply_cmd_Some surj_pair)
  have "entry_width (entry_of r)" and log: "log_width (map entry_of rs)" using Cons.prems(4) by simp_all
  then have w: "u64_ok (lr_ts r)" "cmd_width (lr_cmd r)" by (simp_all add: entry_of_def)
  have s1: "shape s1" "last_seq s1 = Some (lr_seq r)" using shape_apply [OF a Cons.prems(3) w(1,2)] by blast+
  have "rs = [] \<or> seq_next (the (last_seq s1)) = Some (lr_seq (hd rs))"
    using Cons.prems(1) s1(2) by (auto simp: gapless_Cons)
  moreover have "gapless rs" using Cons.prems(1) by (simp add: gapless_Cons)
  ultimately obtain m where "run_records rs s1 = Some m"
    using Cons.IH [OF _ _ s1(1) log] by blast
  then show ?case using a by (cases m) (simp add: entry_of_def [of r])
qed simp

lemma run_prefix:
  assumes "run_records rs s = Some (s', ev)"
  shows "\<exists>s1 ev1. run_records (take j rs) s = Some (s1, ev1)"
proof -
  have "run_records (take j rs @ drop j rs) s = Some (s', ev)" using assms by simp
  then show ?thesis unfolding map_append run_append by (auto split: option.splits)
qed

end
