(* ===== verification/Supply.thy ===== *)
theory Supply
  imports Auction_Steps
begin

text \<open>
  Conservation of supply (invariant I1 of \<open>docs/invariants.md\<close>) and the numbering of fills.

  Every unit of the auction is either in a fill or still for sale, in every reachable state. A fill
  has at least one unit, so there are never more fills than units and \<open>next_fill_id\<close>, which the
  source increments without a check, never wraps.
\<close>

definition filled_qty :: "fill list \<Rightarrow> nat" where
  "filled_qty fs = sum_list (map f_qty fs)"

definition supply_conserved :: "auction_state \<Rightarrow> bool" where
  "supply_conserved s \<longleftrightarrow> filled_qty (fills s) + supply_remaining s = total_supply (config s)"

definition fills_numbered :: "auction_state \<Rightarrow> bool" where
  "fills_numbered s \<longleftrightarrow> map f_id (fills s) = [0..<length (fills s)] \<and>
     next_fill_id s = length (fills s) \<and> (\<forall>f \<in> set (fills s). 0 < f_qty f)"

lemma filled_qty_simps [simp]:
  "filled_qty [] = 0" "filled_qty (f # fs) = f_qty f + filled_qty fs"
  "filled_qty (fs @ gs) = filled_qty fs + filled_qty gs"
  "filled_qty (cleared_fills p fs) = filled_qty fs"
  by (simp_all add: filled_qty_def cleared_fills_def comp_def)

lemma filled_qty_new: "filled_qty (new_fills p n bas) = sum_list (map snd bas)"
  by (induction p n bas rule: new_fills.induct) simp_all

lemma new_fills_pos: "\<forall>f \<in> set (new_fills p n bas). 0 < f_qty f"
  by (induction p n bas rule: new_fills.induct) simp_all

lemma length_le_qty: "\<forall>f \<in> set fs. 0 < f_qty f \<Longrightarrow> length fs \<le> filled_qty fs"
  by (induction fs) auto

lemma new_fills_ids:
  "n + length (new_fills p n bas) \<le> u64_max \<Longrightarrow>
     map f_id (new_fills p n bas) = [n..<n + length (new_fills p n bas)]"
proof (induction p n bas rule: new_fills.induct)
  case (2 p n b a bas)
  show ?case
  proof (cases "a = 0")
    case False
    let ?k = "length (new_fills p (Suc n) bas)"
    have w: "u64_wrap (Suc n) = Suc n" using 2(3) False by simp
    have "map f_id (new_fills p (Suc n) bas) = [Suc n..<Suc n + ?k]"
      using 2(2) [OF False] 2(3) False by (simp add: w)
    then show ?thesis using False upt_conv_Cons [of n "n + Suc ?k"] by (simp add: w del: upt_Suc)
  qed (use 2 in simp)
qed simp

lemma settle_next_id:
  assumes "next_fill_id s + length (new_fills p (next_fill_id s) bas) \<le> u64_max"
  shows "next_fill_id (fst (fold (settle_plain p) bas (s, ev))) =
     next_fill_id s + length (new_fills p (next_fill_id s) bas)"
  using assms
proof (induction bas arbitrary: s ev)
  case (Cons ba bas)
  obtain b a where ba: "ba = (b, a)" by (cases ba)
  obtain s1 e1 where m: "settle_plain p ba (s, ev) = (s1, e1)" by fastforce
  then have "next_fill_id s1 = (if a = 0 then next_fill_id s else u64_wrap (next_fill_id s + 1))"
    by (auto simp: ba Let_def split: if_splits)
  moreover have "u64_wrap (next_fill_id s + 1) = next_fill_id s + 1" if "a \<noteq> 0"
    using Cons.prems that by (simp add: ba)
  moreover have "fold (settle_plain p) (ba # bas) (s, ev) = fold (settle_plain p) bas (s1, e1)"
    using m by simp
  ultimately show ?case
    using Cons.IH [of s1 e1] Cons.prems by (cases "a = 0") (simp_all add: ba del: fold_Cons settle_plain.simps)
qed simp

lemma cleared_numbered: "fills_numbered s \<Longrightarrow> fills s' = cleared_fills p (fills s) \<Longrightarrow>
    next_fill_id s' = next_fill_id s \<Longrightarrow> fills_numbered s'"
  by (auto simp: fills_numbered_def cleared_fills_def comp_def)

text \<open>What one window's match does to the supply.\<close>

lemma match_supply:
  assumes "window_ok w" and "u64_ok r"
    and "match_levels (sort_bids (w_bids w)) r False = (allocs, rem, ex)"
  shows "sum_list (map snd (zip (sort_bids (w_bids w)) allocs)) + rem = r"
proof -
  have ok: "\<forall>b \<in> set (sort_bids (w_bids w)). bid_ok b" using assms(1) by (simp add: window_ok_def)
  note spec = match_levels_spec [OF ok assms(2,3)]
  then have "map snd (zip (sort_bids (w_bids w)) allocs) = allocs"
    by (auto dest: list_all2_lengthD)
  with spec show ?thesis by simp
qed

definition units_ok :: "auction_state \<Rightarrow> bool" where
  "units_ok s \<longleftrightarrow> supply_conserved s \<and> fills_numbered s"

lemmas units_defs = units_ok_def supply_conserved_def fills_numbered_def

lemma units_flush:
  assumes "units_ok s" and "shape_at t s"
  shows "units_ok (fst (flush_window (s, ev)))"
  using assms(2)
proof (cases rule: flush_shape_cases [where ev = ev])
  case none
  then show ?thesis using assms(1) by simp
next
  case (live w allocs rem ex s1 e1)
  let ?bas = "zip (sort_bids (w_bids w)) allocs"
  let ?new = "new_fills (w_price w) (next_fill_id s) ?bas"
  have fills: "fills s1 = fills s @ ?new" and cfg: "config s1 = config s" and rem: "supply_remaining s1 = rem"
    using live(7) by (simp_all add: settles_def)
  have u: "u64_ok (supply_remaining s)" "u64_ok (total_supply (config s))"
    using assms(2) by (simp_all add: shape_at_def config_ok_def)
  have sum: "filled_qty ?new + rem = supply_remaining s"
    using match_supply [OF live(3) u(1) live(4)] by (simp add: filled_qty_new)
  have con: "supply_conserved s1"
    using assms(1) sum fills cfg rem by (simp add: units_defs)
  have pos: "\<forall>f \<in> set (fills s1). 0 < f_qty f"
    using assms(1) new_fills_pos unfolding fills units_defs by auto
  have len: "next_fill_id s + length ?new \<le> u64_max"
    using length_le_qty [OF pos] con u(2) assms(1) cfg by (simp add: units_defs fills u64_ok_def)
  then have "next_fill_id s1 = next_fill_id s + length ?new"
    using settle_next_id [of "s\<lparr>window := None, supply_remaining := rem\<rparr>" "w_price w" ?bas ev] live(6)
    by simp
  then have num: "fills_numbered s1"
    using assms(1) pos new_fills_ids [OF len]
    by (simp add: units_defs fills upt_add_eq_append [of 0, simplified])
  show ?thesis
  proof (cases ex)
    case True
    have "fills_numbered (fst (clear (w_price w) (s1, e1)))"
      by (rule cleared_numbered [OF num]) (simp_all add: clear_frame)
    then show ?thesis
      using con True by (simp add: live(8) units_ok_def supply_conserved_def clear_frame)
  qed (use con num in \<open>simp add: live(8) units_ok_def\<close>)
qed

lemma units_frame: "units_ok s \<Longrightarrow> fills s' = fills s \<Longrightarrow> next_fill_id s' = next_fill_id s \<Longrightarrow>
    supply_remaining s' = supply_remaining s \<Longrightarrow> config s' = config s \<Longrightarrow> units_ok s'"
  by (simp add: units_defs)


lemma units_micro:
  assumes "units_ok s" and "shape s" and "micro cmd s s'"
  shows "units_ok s'"
  using assms(3)
proof (cases rule: micro_sales_cases)
  case (flush ev)
  then show ?thesis using units_flush [OF assms(1,2)] by simp
next
  case (clear ev)
  then show ?thesis
    using assms(1) cleared_numbered [of s s'] by (simp add: units_ok_def supply_conserved_def clear_frame)
next
  case quiet
  then show ?thesis using units_frame [OF assms(1), of s'] by (simp add: quiet_def)
qed

interpretation units: machine_invariant "\<lambda>_. True" units_ok
proof
  fix c assume "config_ok c"
  show "units_ok (new_state c)" by (simp add: units_defs new_state_def)
next
  fix s sq t assume "units_ok s"
  then show "units_ok (s\<lparr>last_seq := Some sq, now := t\<rparr>)" by (simp add: units_defs)
qed (blast intro: units_flush units_micro)+

lemma total_filled_exact:
  assumes "filled_qty (fills s) \<le> u64_max"
  shows "total_filled s = filled_qty (fills s)"
proof -
  have "filled_qty fs + n \<le> u64_max \<Longrightarrow>
      fold (\<lambda>f acc. u64_saturating_add acc (f_qty f)) fs n = filled_qty fs + n" for fs n
    by (induction fs arbitrary: n) (simp_all add: ac_simps)
  from this [of "fills s" 0] assms show ?thesis by (simp add: total_filled_def)
qed

lemma units_total:
  assumes "units_ok s" and "shape s"
  shows "total_filled s + supply_remaining s = total_supply (config s)"
  using assms total_filled_exact [of s]
  by (simp add: units_defs shape_at_def config_ok_def u64_ok_def)

end
