(* ===== verification/Pricing.thy ===== *)
theory Pricing
  imports Supply
begin

text \<open>
  Uniform pricing: invariants I2 and I3 of \<open>docs/invariants.md\<close>, and when an auction clears.

  While the auction runs no fill is below the price of the window the clock is in, so the repricing
  at the end only lowers what anyone owes; once cleared every fill is at the clearing price;
  that price is the price of a window the clock went through, and the auction clears only when the
  supply is gone or the clock is at its floor.
\<close>

definition fills_above :: "price \<Rightarrow> auction_state \<Rightarrow> bool" where
  "fills_above p s \<longleftrightarrow> (\<forall>f \<in> set (fills s). p \<le> f_price f \<and> f_price f \<le> start_price (config s))"

definition prices_descend :: "auction_state \<Rightarrow> bool" where
  "prices_descend s \<longleftrightarrow> fills_above (snd (window_bounds s (now s))) s \<and>
     (\<forall>w. window s = Some w \<longrightarrow> fills_above (w_price w) s)"

definition uniform_price :: "auction_state \<Rightarrow> bool" where
  "uniform_price s \<longleftrightarrow> (\<forall>p. clearing_price s = Some p \<longrightarrow> (\<forall>f \<in> set (fills s). f_price f = p))"

definition sold_out_at :: "auction_state \<Rightarrow> price \<Rightarrow> bool" where
  "sold_out_at s p \<longleftrightarrow> supply_remaining s = 0 \<and> (\<exists>t \<le> now s. p = snd (window_bounds s t))"

definition floored_at :: "auction_state \<Rightarrow> price \<Rightarrow> bool" where
  "floored_at s p \<longleftrightarrow> p = floor_price (config s) \<and> (\<exists>t \<le> now s. at_floor (schedule (config s)) t)"

definition price_earned :: "auction_state \<Rightarrow> bool" where
  "price_earned s \<longleftrightarrow> (\<forall>p. clearing_price s = Some p \<longrightarrow> sold_out_at s p \<or> floored_at s p)"

definition still_selling :: "auction_state \<Rightarrow> bool" where
  "still_selling s \<longleftrightarrow>
     (\<not> is_terminal (status s) \<longrightarrow> 0 < total_supply (config s) \<longrightarrow> 0 < supply_remaining s)"

definition priced :: "auction_state \<Rightarrow> bool" where
  "priced s \<longleftrightarrow> prices_descend s \<and> uniform_price s \<and> price_earned s \<and> still_selling s"

lemmas priced_defs = priced_def prices_descend_def uniform_price_def price_earned_def
  still_selling_def sold_out_at_def floored_at_def fills_above_def

lemma new_fills_price: "f \<in> set (new_fills p n bas) \<Longrightarrow> f_price f = p"
  by (induction p n bas rule: new_fills.induct) (auto split: if_splits)

lemma cleared_fills_price: "f \<in> set (cleared_fills p fs) \<Longrightarrow> f_price f = p"
  by (auto simp: cleared_fills_def)

lemma priced_frame:
  assumes "priced s" and "fills s' = fills s" and "clearing_price s' = clearing_price s"
    and "supply_remaining s' = supply_remaining s" and "config s' = config s" and "now s' = now s"
    and "is_terminal (status s) \<longrightarrow> is_terminal (status s')" and "shape s'"
  shows "priced s'"
proof -
  have "window_bounds s' = window_bounds s" by (rule window_bounds_cong) (simp add: assms)
  moreover have "w_price w = snd (window_bounds s' (now s'))" if "window s' = Some w" for w
    using assms(8) that by (metis shape_at_def snd_conv window_shape_def)
  ultimately show ?thesis using assms(1-7) by (auto simp: priced_defs)
qed

text \<open>The end of an auction: everything is repriced to \<open>p\<close>.\<close>

lemma priced_clear:
  assumes "prices_descend s" and "config_ok (config s)" and "window s = None"
    and "snd (window_bounds s (now s)) \<le> p" and "p \<le> start_price (config s)"
    and "sold_out_at s p \<or> floored_at s p"
  shows "priced (fst (clear p (s, ev)))"
proof -
  let ?s = "fst (clear p (s, ev))"
  have "window_bounds ?s = window_bounds s" by (rule window_bounds_cong) (simp add: clear_frame)
  then show ?thesis
    using assms(3-6) cleared_fills_price [of _ p "fills s"]
    by (auto simp: priced_defs clear_frame)
qed

lemma priced_flush:
  assumes "priced s" and "shape_at t s" and "t \<le> now s"
  shows "priced (fst (flush_window (s, ev)))"
  using assms(2)
proof (cases rule: flush_shape_cases [where ev = ev])
  case none
  then show ?thesis using assms(1) by simp
next
  case (live w allocs rem ex s1 e1)
  let ?p = "w_price w" and ?bids = "sort_bids (w_bids w)"
  have fr: "config s1 = config s" "now s1 = now s" "window s1 = None" "supply_remaining s1 = rem"
    "status s1 = status s" "clearing_price s1 = clearing_price s"
    and fills: "fills s1 = fills s @ new_fills ?p (next_fill_id s) (zip ?bids allocs)"
    using live(7) by (simp_all add: settles_def)
  have cfg: "config_ok (config s)" using assms(2) by (simp add: shape_at_def)
  have wb: "window_bounds s1 = window_bounds s" by (rule window_bounds_cong) (rule fr)
  have p: "?p = snd (window_bounds s t)"
    using assms(2) live(1) by (metis shape_at_def snd_conv window_shape_def)
  have low: "snd (window_bounds s (now s)) \<le> ?p" and high: "?p \<le> start_price (config s)"
    using window_price_descends [OF cfg assms(3)] window_price_bounds [OF cfg, of t] by (simp_all add: p)
  have desc: "prices_descend s1"
    using assms(1) low high new_fills_price fr wb by (fastforce simp: priced_defs fills)
  have "\<forall>b \<in> set ?bids. bid_ok b" and "u64_ok (supply_remaining s)"
    using live(3) assms(2) by (simp_all add: window_ok_def shape_at_def)
  from match_levels_spec [OF this live(4)]
  have ex: "ex = (supply_remaining s \<noteq> 0 \<and> ?bids \<noteq> [] \<and> rem = 0)" and
    rem: "rem = supply_remaining s - min (demand ?bids) (supply_remaining s)" by auto
  have live_s: "clearing_price s = None"
    using assms(2) live(2) by (auto simp: shape_defs accepts_bids_def)
  show ?thesis
  proof (cases ex)
    case True
    then have "sold_out_at s1 ?p" using ex assms(3) by (auto simp: sold_out_at_def fr wb p)
    then have "priced (fst (clear ?p (s1, e1)))"
      using desc cfg low high by (intro priced_clear) (simp_all add: fr wb)
    then show ?thesis using True by (simp add: live(8))
  next
    case False
    then have "rem \<noteq> 0 \<or> supply_remaining s = 0"
      using ex rem by (auto simp: demand_def)
    then have "still_selling s1"
      using assms(1) by (auto simp: priced_def still_selling_def fr)
    then show ?thesis
      using desc False live_s by (simp add: live(8) priced_def uniform_price_def price_earned_def fr)
  qed
qed

lemma at_floor_window:
  assumes "config_ok (config s)" and "at_floor (schedule (config s)) t" and "u64_ok t"
  shows "snd (window_bounds s t) = floor_price (config s)"
  using window_price_le_clock [OF assms(1,3)] window_price_bounds [OF assms(1), of t] assms(2)
  by (simp add: at_floor_def clock_price_def floor_price_def)

lemma priced_micro:
  assumes "priced s" and "shape s" and "micro cmd s s'" and "cmd_width cmd"
  shows "priced s'"
proof -
  have sh: "shape s'" using assms(2-4) by (blast intro: shape_micro)
  note keep = priced_frame [OF assms(1) _ _ _ _ _ _ sh]
  show ?thesis using assms(3)
  proof (cases rule: micro_sales_cases)
    case (flush ev)
    then show ?thesis using priced_flush [OF assms(1,2)] by simp
  next
    case (clear ev)
    have cfg: "config_ok (config s)" and u: "u64_ok (now s)" using assms(2) by (simp_all add: shape_at_def)
    have "priced (fst (clear (floor_price (config s)) (s, ev)))"
      using assms(1) at_floor_window [OF cfg clear(3) u] clear(3) clock_price_bounds [OF cfg, of 0]
      by (intro priced_clear [OF _ cfg clear(2)]) (auto simp: priced_def floored_at_def)
    with clear show ?thesis by simp
  next
    case quiet
    then show ?thesis by (intro keep) (simp_all add: quiet_def)
  qed
qed

interpretation pricing: machine_invariant "\<lambda>_. True" priced
proof
  fix c assume "config_ok c"
  show "priced (new_state c)" by (simp add: priced_defs new_state_def)
next
  fix s sq t assume a: "priced s" "shape s" "now s \<le> t"
  let ?s = "s\<lparr>last_seq := Some sq, now := t\<rparr>"
  have wb: "window_bounds ?s = window_bounds s" by (rule window_bounds_cong) simp
  have "snd (window_bounds s t) \<le> snd (window_bounds s (now s))"
    using a(2,3) by (intro window_price_descends) (simp_all add: shape_at_def)
  then have "prices_descend ?s" using a(1) by (fastforce simp: priced_defs wb)
  moreover have "sold_out_at s p \<Longrightarrow> sold_out_at ?s p" "floored_at s p \<Longrightarrow> floored_at ?s p" for p
    using a(3) by (auto simp: sold_out_at_def floored_at_def wb dest: le_trans)
  then have "price_earned ?s" using a(1) by (auto simp: priced_def price_earned_def)
  ultimately show "priced ?s" using a(1) by (simp add: priced_def uniform_price_def still_selling_def)
qed (blast intro: priced_flush priced_micro)+

section \<open>Endings\<close>

text \<open>A terminal state is absorbing: no command changes what was sold, to whom, or at what price.\<close>

definition same_result :: "auction_state \<Rightarrow> auction_state \<Rightarrow> bool" where
  "same_result s s' \<longleftrightarrow> status s' = status s \<and> fills s' = fills s \<and>
     clearing_price s' = clearing_price s \<and> supply_remaining s' = supply_remaining s"

lemma terminal_micro:
  assumes "micro cmd s s'" and "shape s" and "is_terminal (status s)"
  shows "same_result s s'"
  using assms(1)
proof (cases rule: micro_sales_cases)
  case (flush ev)
  then have "window s = None"
    using assms(2,3) accepts_bids_not_terminal by (auto simp: shape_defs)
  then show ?thesis using flush by (simp add: flush_window_none same_result_def)
qed (use assms(3) accepts_bids_not_terminal in \<open>auto simp: quiet_def same_result_def\<close>)

lemma terminal_micros:
  "micros cmd s s' \<Longrightarrow> shape s \<Longrightarrow> is_terminal (status s) \<Longrightarrow> cmd_width cmd \<Longrightarrow> same_result s s'"
proof (induction rule: rtranclp_induct)
  case (step y z)
  then have "shape y" using shape_micros by blast
  moreover have "is_terminal (status y)" using step by (simp add: same_result_def)
  ultimately have "shape y" and "is_terminal (status y)" by blast+
  then show ?case using terminal_micro [OF step(2)] step by (simp add: same_result_def)
qed (simp add: same_result_def)

lemma terminal_apply:
  assumes "apply_cmd sq ts cmd s = Some (s', ev)" and "shape s" and "u64_ok ts" and "cmd_width cmd"
    and "is_terminal (status s)"
  shows "same_result s s'"
proof -
  have "window s = None" using assms(2,5) accepts_bids_not_terminal by (auto simp: shape_defs)
  then have "advanced sq ts s = (stamped sq ts s, [])"
    by (simp add: advanced_def stamped_def)
  then show ?thesis
    using terminal_micros [OF apply_micro [OF assms(1-3)]] shape_advanced [OF assms(2,3), of sq] assms(4,5)
    by (simp add: stamped_def same_result_def)
qed

lemma terminal_run:
  "run log s = Some (s', ev) \<Longrightarrow> shape s \<Longrightarrow> log_width log \<Longrightarrow> is_terminal (status s) \<Longrightarrow> same_result s s'"
proof (induction log arbitrary: s ev)
  case Nil
  then show ?case by (simp add: same_result_def)
next
  case (Cons e log)
  obtain sq ts cmd where e: "e = (sq, ts, cmd)" by (cases e)
  obtain s1 e1 e2 where a: "apply_cmd sq ts cmd s = Some (s1, e1)" and r: "run log s1 = Some (s', e2)"
    using Cons.prems(1) by (auto simp: e split: option.splits)
  have w: "u64_ok ts" "cmd_width cmd" "log_width log" using Cons.prems(3) by (simp_all add: e)
  have one: "same_result s s1" using terminal_apply [OF a Cons.prems(2) w(1,2) Cons.prems(4)] .
  have "shape s1" using shape_apply [OF a Cons.prems(2) w(1,2)] by blast
  moreover have "is_terminal (status s1)" using one Cons.prems(4) by (simp add: same_result_def)
  ultimately have "same_result s1 s'" using Cons.IH [OF r _ w(3)] by blast
  with one show ?case by (simp add: same_result_def)
qed

end
