(* ===== verification/Collateral.thy ===== *)
theory Collateral
  imports Pricing
begin

text \<open>
  Collateral (invariant I9 of \<open>docs/invariants.md\<close>).

  A claim is what one fill, queued bid or resting bid holds of its owner's collateral. The locale
  \<open>collateral_ledger\<close> states that committing and releasing are exact, and derives what the state
  machine does with them: a claim is dropped, or replaced by one that is not larger. In every
  reachable state of an auction with non-negative prices the committed amount of a participant is
  exactly the sum of the claims, and that sum never exceeds the largest limit the participant was given.
\<close>

section \<open>Claims\<close>

type_synonym claim = "participant_id \<times> price \<times> qty"

definition amount_for :: "participant_id \<Rightarrow> claim \<Rightarrow> int" where
  "amount_for pt c = (if fst c = pt then fst (snd c) * int (snd (snd c)) else 0)"

definition owed :: "participant_id \<Rightarrow> claim multiset \<Rightarrow> int" where
  "owed pt C = sum_mset (image_mset (amount_for pt) C)"

definition claim_ok :: "claim \<Rightarrow> bool" where
  "claim_ok c \<longleftrightarrow> 0 \<le> fst (snd c) \<and> int (snd (snd c)) \<le> i64_max"

definition backed :: "(participant_id \<Rightarrow> int) \<Rightarrow> claim multiset \<Rightarrow> bool" where
  "backed com C \<longleftrightarrow> (\<forall>c \<in># C. claim_ok c) \<and> (\<forall>pt. com pt = owed pt C \<and> owed pt C \<le> i64_max)"

lemma owed_simps [simp]:
  "owed pt {#} = 0" "owed pt (add_mset c C) = amount_for pt c + owed pt C"
  "owed pt (C + D) = owed pt C + owed pt D"
  by (simp_all add: owed_def)

lemma amount_for_same [simp]: "amount_for pt (pt, x, q) = x * int q"
  by (simp add: amount_for_def)

lemma amount_nonneg: "claim_ok c \<Longrightarrow> 0 \<le> amount_for pt c"
  by (simp add: amount_for_def claim_ok_def)

lemma owed_nonneg: "\<forall>c \<in># C. claim_ok c \<Longrightarrow> 0 \<le> owed pt C"
  by (induction C) (auto simp: amount_nonneg)

lemma claim_smaller:
  "claim_ok (pt, x, q) \<Longrightarrow> 0 \<le> y \<Longrightarrow> y \<le> x \<Longrightarrow> a \<le> q \<Longrightarrow> claim_ok (pt, y, a)"
  by (simp add: claim_ok_def)

lemma amount_smaller:
  assumes "claim_ok (pt, x, q)" and "0 \<le> y" and "y \<le> x" and "a \<le> q"
  shows "y * int a \<le> x * int q" and "amount_for pt' (pt, y, a) \<le> amount_for pt' (pt, x, q)"
proof -
  show "y * int a \<le> x * int q" using assms by (intro mult_mono) (auto simp: claim_ok_def)
  then show "amount_for pt' (pt, y, a) \<le> amount_for pt' (pt, x, q)" by (simp add: amount_for_def)
qed

section \<open>The ledger\<close>

locale collateral_ledger =
  fixes committed :: "'m \<Rightarrow> participant_id \<Rightarrow> int"
    and add_claim :: "'m \<Rightarrow> participant_id \<Rightarrow> price \<Rightarrow> qty \<Rightarrow> 'm"
    and drop_claim :: "'m \<Rightarrow> participant_id \<Rightarrow> price \<Rightarrow> qty \<Rightarrow> 'm"
  assumes add_exact: "claim_ok (pt, x, q) \<Longrightarrow> 0 \<le> committed m pt \<Longrightarrow> committed m pt + x * int q \<le> i64_max \<Longrightarrow>
      committed (add_claim m pt x q) = (committed m)(pt := committed m pt + x * int q)"
    and drop_exact: "claim_ok (pt, x, q) \<Longrightarrow> x * int q \<le> committed m pt \<Longrightarrow> committed m pt \<le> i64_max \<Longrightarrow>
      committed (drop_claim m pt x q) = (committed m)(pt := committed m pt - x * int q)"
begin

lemma backed_drop:
  assumes "backed (committed m) (add_mset (pt, x, q) C)"
  shows "backed (committed (drop_claim m pt x q)) C"
proof -
  have ok: "claim_ok (pt, x, q)" and C: "\<forall>c \<in># C. claim_ok c"
    and com: "\<And>p. committed m p = amount_for p (pt, x, q) + owed p C"
    and max: "\<And>p. amount_for p (pt, x, q) + owed p C \<le> i64_max"
    using assms by (auto simp: backed_def)
  have "committed (drop_claim m pt x q) = (committed m)(pt := committed m pt - x * int q)"
    using drop_exact [OF ok, of m] com [of pt] max [of pt] owed_nonneg [OF C, of pt] by simp
  moreover have "owed p C \<le> i64_max" for p using max [of p] amount_nonneg [OF ok, of p] by simp
  ultimately show ?thesis using C com by (auto simp: backed_def amount_for_def)
qed

lemma backed_add:
  assumes "backed (committed m) C" and "claim_ok (pt, x, q)" and "owed pt C + x * int q \<le> i64_max"
  shows "backed (committed (add_claim m pt x q)) (add_mset (pt, x, q) C)"
proof -
  have com: "\<And>p. committed m p = owed p C" and C: "\<forall>c \<in># C. claim_ok c"
    and max: "\<And>p. owed p C \<le> i64_max"
    using assms(1) by (auto simp: backed_def)
  have "committed (add_claim m pt x q) = (committed m)(pt := committed m pt + x * int q)"
    using add_exact [OF assms(2), of m] com [of pt] owed_nonneg [OF C, of pt] assms(3) by simp
  then show ?thesis using C com max assms(2,3) by (auto simp: backed_def amount_for_def add.commute)
qed

text \<open>A claim replaced by a smaller one: settlement of a queued bid at the window's price.\<close>

lemma backed_swap:
  assumes "backed (committed m) (add_mset (pt, x, q) C)" and "0 \<le> y" and "y \<le> x" and "a \<le> q"
  shows "backed (committed (add_claim (drop_claim m pt x q) pt y a)) (add_mset (pt, y, a) C)"
proof (rule backed_add [OF backed_drop [OF assms(1)]])
  have ok: "claim_ok (pt, x, q)" and max: "\<forall>p. amount_for p (pt, x, q) + owed p C \<le> i64_max"
    using assms(1) by (simp_all add: backed_def)
  have "x * int q + owed pt C \<le> i64_max" using max [THEN spec, of pt] by simp
  with ok show "claim_ok (pt, y, a)" and "owed pt C + y * int a \<le> i64_max"
    using claim_smaller [OF ok assms(2-4)] amount_smaller(1) [OF ok assms(2-4)] by simp_all
qed

text \<open>A claim whose price falls: repricing releases the difference.\<close>

lemma backed_reduce:
  assumes "backed (committed m) (add_mset (pt, x, q) C)" and "0 \<le> y" and "y \<le> x"
  shows "backed (committed (drop_claim m pt (x - y) q)) (add_mset (pt, y, q) C)"
proof (rule backed_drop)
  have ok: "claim_ok (pt, x, q)" using assms(1) by (auto simp: backed_def)
  have "amount_for p (pt, x, q) = amount_for p (pt, x - y, q) + amount_for p (pt, y, q)" for p
    by (simp add: amount_for_def algebra_simps)
  then show "backed (committed m) (add_mset (pt, x - y, q) (add_mset (pt, y, q) C))"
    using assms ok by (auto simp: backed_def claim_ok_def add.assoc)
qed

end

definition committed_of :: "(participant_id \<rightharpoonup> collateral) \<Rightarrow> participant_id \<Rightarrow> int" where
  "committed_of m pt = coll_committed (unwrap_or (m pt) no_collateral)"

lemma committed_entry: "committed_of (coll_entry pt f m) =
    (committed_of m)(pt := coll_committed (f (unwrap_or (m pt) no_collateral)))"
  by (auto simp: committed_of_def coll_entry_def)

lemma claim_mul:
  "claim_ok (pt, x, q) \<Longrightarrow> x * int q \<le> i64_max \<Longrightarrow>
     checked_mul_qty x q = Some (x * int q) \<and> 0 \<le> x * int q"
  by (simp add: checked_mul_qty_Some claim_ok_def i64_ok_def i64_min_def order_trans [of _ 0])

lemma i64_range: "0 \<le> x \<Longrightarrow> x \<le> i64_max \<Longrightarrow> i64_ok x"
  by (simp add: i64_ok_def i64_min_def)

interpretation ledger: collateral_ledger committed_of commit release
proof
  fix pt x q and m :: "participant_id \<rightharpoonup> collateral"
  assume ok: "claim_ok (pt, x, q)" and pos: "0 \<le> committed_of m pt" and le: "committed_of m pt + x * int q \<le> i64_max"
  have "checked_mul_qty x q = Some (x * int q) \<and> 0 \<le> x * int q" using claim_mul [OF ok] pos le by simp
  then show "committed_of (commit m pt x q) = (committed_of m)(pt := committed_of m pt + x * int q)"
    using pos le by (simp add: commit_def committed_entry i64_saturating_add_def i64_range
        committed_of_def [of m pt, symmetric])
next
  fix pt x q and m :: "participant_id \<rightharpoonup> collateral"
  assume ok: "claim_ok (pt, x, q)" and le: "x * int q \<le> committed_of m pt" and max: "committed_of m pt \<le> i64_max"
  have "checked_mul_qty x q = Some (x * int q) \<and> 0 \<le> x * int q" using claim_mul [OF ok] le max by simp
  then show "committed_of (release m pt x q) = (committed_of m)(pt := committed_of m pt - x * int q)"
    using le max by (simp add: release_def committed_entry i64_saturating_sub_def i64_range
        committed_of_def [of m pt, symmetric])
qed


section \<open>Reservations\<close>

definition limit_of :: "(participant_id \<rightharpoonup> collateral) \<Rightarrow> participant_id \<Rightarrow> int" where
  "limit_of m pt = coll_limit (unwrap_or (m pt) no_collateral)"

lemma limit_kept [simp]:
  "limit_of (commit m pt x q) = limit_of m" "limit_of (release m pt x q) = limit_of m"
  by (auto simp: limit_of_def commit_def release_def coll_entry_def Let_def)

text \<open>
  \<open>reserve\<close> succeeds exactly when the cost is representable and fits what is left of the limit;
  it then adds the claim, and otherwise changes nothing.
\<close>

lemma reserve_backed:
  assumes "backed (committed_of (collateral_map s)) C" and "i64_ok (limit_of (collateral_map s) pt)"
    and "0 \<le> x" and "reserve pt x q s = (s', ok)"
  shows "limit_of (collateral_map s') = limit_of (collateral_map s)"
    and "ok \<Longrightarrow> backed (committed_of (collateral_map s')) (add_mset (pt, x, q) C) \<and>
      owed pt C + x * int q \<le> limit_of (collateral_map s) pt"
    and "\<not> ok \<Longrightarrow> backed (committed_of (collateral_map s')) C"
proof -
  let ?m = "collateral_map s" and ?c = "collateral_of s pt"
  have com: "coll_committed ?c = owed pt C" and pos: "0 \<le> owed pt C" and max: "owed pt C \<le> i64_max"
    using assms(1) owed_nonneg [of C pt] by (auto simp: backed_def collateral_of_def committed_of_def)
  have lim: "coll_limit ?c = limit_of ?m pt" by (simp add: limit_of_def collateral_of_def)
  show "limit_of (collateral_map s') = limit_of ?m"
    using assms(4) by (auto simp: reserve_def limit_of_def coll_entry_def Let_def split: option.splits if_splits)
  have same: "committed_of (coll_entry pt (\<lambda>c. c) ?m) = committed_of ?m"
    by (auto simp: committed_entry committed_of_def fun_eq_iff)
  then show "backed (committed_of (collateral_map s')) C" if "\<not> ok"
    using assms(1,4) that by (auto simp: reserve_def Let_def split: option.splits if_splits)
  show "backed (committed_of (collateral_map s')) (add_mset (pt, x, q) C) \<and>
      owed pt C + x * int q \<le> limit_of ?m pt" if res: ok
  proof -
    obtain cost where c: "checked_mul_qty x q = Some cost" and fit: "cost \<le> available ?c"
      and m': "collateral_map s' = commit ?m pt x q"
      using assms(4) res
      by (auto simp: reserve_def Let_def commit_def split: option.splits if_splits)
    then have mul: "checked_mul_qty x q = Some (x * int q)" and fit: "x * int q \<le> available ?c"
      by (simp_all add: checked_mul_qty_Some)
    have cl: "claim_ok (pt, x, q)" using mul assms(3) by (simp add: claim_ok_def checked_mul_qty_Some)
    have le: "owed pt C + x * int q \<le> limit_of ?m pt"
    proof -
      have "0 \<le> x * int q" using assms(3) by simp
      with fit have "0 \<le> available ?c" by simp
      then have "available ?c \<le> coll_limit ?c - coll_committed ?c"
        by (auto simp: available_def i64_saturating_sub_def i64_saturate_def i64_min_def i64_max_def split: if_splits)
      with fit show ?thesis by (simp add: com lim)
    qed
    moreover have "limit_of ?m pt \<le> i64_max" using assms(2) by (simp add: i64_ok_def)
    ultimately have "owed pt C + x * int q \<le> i64_max" by linarith
    from ledger.backed_add [OF assms(1) cl this] le show ?thesis by (simp add: m')
  qed
qed

section \<open>The claims of a state\<close>

definition fill_claim :: "fill \<Rightarrow> claim" where
  "fill_claim f = (f_participant f, f_price f, f_qty f)"

definition pending_claim :: "pending_bid \<Rightarrow> claim" where
  "pending_claim b = (pb_participant b, pb_reserve_price b, pb_qty b)"

definition resting_claim :: "resting_bid \<Rightarrow> claim" where
  "resting_claim b = (rb_participant b, rb_limit b, rb_qty b)"

abbreviation fill_claims :: "fill list \<Rightarrow> claim multiset" where
  "fill_claims fs \<equiv> mset (map fill_claim fs)"

abbreviation pending_claims :: "pending_bid list \<Rightarrow> claim multiset" where
  "pending_claims bs \<equiv> mset (map pending_claim bs)"

abbreviation resting_claims :: "resting_bid list \<Rightarrow> claim multiset" where
  "resting_claims bs \<equiv> mset (map resting_claim bs)"

definition claims :: "auction_state \<Rightarrow> claim multiset" where
  "claims s = fill_claims (fills s) + pending_claims (window_bids s) +
     resting_claims (ladder_bids (resting s))"

lemma resting_claims_mset: "mset bs = mset bs' \<Longrightarrow> resting_claims bs = resting_claims bs'"
  by (metis mset_map)

lemma pending_claims_mset: "mset bs = mset bs' \<Longrightarrow> pending_claims bs = pending_claims bs'"
  by (metis mset_map)

lemma pending_triggered: "pending_claims (map triggered_bid bs) = resting_claims bs"
  by (induction bs) (simp_all add: pending_claim_def triggered_bid_def resting_claim_def)

text \<open>Turning bids away drops their claims.\<close>

definition ledger_of :: "machine \<Rightarrow> (participant_id \<rightharpoonup> collateral)" where
  "ledger_of m = collateral_map (fst m)"

lemma turn_away_ledger:
  "ledger_of (turn_away_pending b m) = release (ledger_of m) (pb_participant b) (pb_reserve_price b) (pb_qty b)"
  "ledger_of (turn_away_resting r b' m) = release (ledger_of m) (rb_participant b') (rb_limit b') (rb_qty b')"
  by (cases m; simp add: ledger_of_def)+

lemma backed_turn_away_pending:
  "backed (committed_of (ledger_of m)) (pending_claims bs + C) \<Longrightarrow>
     backed (committed_of (ledger_of (fold turn_away_pending bs m))) C \<and>
     limit_of (ledger_of (fold turn_away_pending bs m)) = limit_of (ledger_of m)"
proof (induction bs arbitrary: m)
  case (Cons b bs)
  then have "backed (committed_of (ledger_of (turn_away_pending b m))) (pending_claims bs + C)"
    by (simp add: turn_away_ledger pending_claim_def [of b] ledger.backed_drop)
  from Cons.IH [OF this] show ?case by (simp add: turn_away_ledger)
qed simp

lemma backed_turn_away_resting:
  "backed (committed_of (ledger_of m)) (resting_claims bs + C) \<Longrightarrow>
     backed (committed_of (ledger_of (fold (turn_away_resting r) bs m))) C \<and>
     limit_of (ledger_of (fold (turn_away_resting r) bs m)) = limit_of (ledger_of m)"
proof (induction bs arbitrary: m)
  case (Cons b bs)
  then have "backed (committed_of (ledger_of (turn_away_resting r b m))) (resting_claims bs + C)"
    by (simp add: turn_away_ledger resting_claim_def [of b] ledger.backed_drop)
  from Cons.IH [OF this] show ?case by (simp add: turn_away_ledger)
qed simp

text \<open>Settlement replaces the claim of each bid by that of its fill.\<close>

definition settle_ok :: "price \<Rightarrow> pending_bid \<times> u64 \<Rightarrow> bool" where
  "settle_ok p ba \<longleftrightarrow> 0 \<le> p \<and> p \<le> pb_reserve_price (fst ba) \<and> snd ba \<le> pb_qty (fst ba)"

lemma settle_plain_ledger:
  "ledger_of (settle_plain p (b, a) m) =
     (let m' = release (ledger_of m) (pb_participant b) (pb_reserve_price b) (pb_qty b)
      in if a = 0 then m' else commit m' (pb_participant b) p a)"
  by (cases m) (simp add: ledger_of_def Let_def)

lemma backed_settle:
  assumes "\<forall>ba \<in> set bas. settle_ok p ba"
    and "backed (committed_of (ledger_of m)) (pending_claims (map fst bas) + C)"
  shows "backed (committed_of (ledger_of (fold (settle_plain p) bas m))) (fill_claims (new_fills p n bas) + C) \<and>
     limit_of (ledger_of (fold (settle_plain p) bas m)) = limit_of (ledger_of m)"
  using assms
proof (induction bas arbitrary: m n C)
  case (Cons ba bas)
  obtain b a where ba: "ba = (b, a)" by (cases ba)
  let ?D = "pending_claims (map fst bas) + C"
  have ok: "0 \<le> p" "p \<le> pb_reserve_price b" "a \<le> pb_qty b"
    using Cons.prems(1) by (auto simp: ba settle_ok_def)
  have pre: "backed (committed_of (ledger_of m)) (add_mset (pb_participant b, pb_reserve_price b, pb_qty b) ?D)"
    using Cons.prems(2) by (simp add: ba pending_claim_def [of b])
  show ?case
  proof (cases "a = 0")
    case True
    have "backed (committed_of (ledger_of (settle_plain p ba m))) ?D"
      using ledger.backed_drop [OF pre] by (simp add: ba settle_plain_ledger True)
    from Cons.IH [OF _ this, of n] Cons.prems(1) show ?thesis
      by (simp add: ba settle_plain_ledger True)
  next
    case False
    have "backed (committed_of (ledger_of (settle_plain p ba m)))
        (pending_claims (map fst bas) + (add_mset (pb_participant b, p, a) C))"
      using ledger.backed_swap [OF pre ok] False by (simp add: ba settle_plain_ledger)
    from Cons.IH [OF _ this, of "u64_wrap (n + 1)"] Cons.prems(1) False show ?thesis
      by (simp add: ba settle_plain_ledger fill_claim_def)
  qed
qed simp

lemma owed_new_fills:
  "\<forall>ba \<in> set bas. settle_ok p ba \<Longrightarrow> \<forall>c \<in># pending_claims (map fst bas). claim_ok c \<Longrightarrow>
     owed pt (fill_claims (new_fills p n bas)) \<le> owed pt (pending_claims (map fst bas))"
proof (induction p n bas rule: new_fills.induct)
  case (2 p n b a bas)
  have ok: "claim_ok (pb_participant b, pb_reserve_price b, pb_qty b)"
    and s: "0 \<le> p" "p \<le> pb_reserve_price b" "a \<le> pb_qty b"
    using 2(3,4) by (auto simp: settle_ok_def pending_claim_def)
  show ?case
    using 2 amount_smaller(2) [OF ok s, of pt] amount_nonneg [OF ok, of pt]
    by (cases "a = 0") (force simp: pending_claim_def fill_claim_def)+
qed simp


text \<open>Repricing lowers the claim of each fill.\<close>

lemma reprice_fill_ledger:
  "ledger_of (snd (reprice_fill p f m)) =
     (if f_price f = p then ledger_of m
      else release (ledger_of m) (f_participant f) (i64_saturating_sub (f_price f) p) (f_qty f))"
  by (cases m) (simp add: ledger_of_def Let_def)

lemma backed_reprice:
  assumes "\<forall>f \<in> set fs. 0 \<le> p \<and> p \<le> f_price f \<and> i64_ok (f_price f)"
    and "backed (committed_of (ledger_of m)) (fill_claims fs + C)"
  shows "backed (committed_of (ledger_of (snd (reprice_fills p fs m)))) (fill_claims (cleared_fills p fs) + C) \<and>
     limit_of (ledger_of (snd (reprice_fills p fs m))) = limit_of (ledger_of m)"
  using assms
proof (induction fs arbitrary: m C)
  case Nil
  then show ?case by (simp add: cleared_fills_def)
next
  case (Cons f fs)
  let ?D = "fill_claims fs + C" and ?m = "snd (reprice_fill p f m)"
  have p: "0 \<le> p" "p \<le> f_price f" "i64_ok (f_price f)" using Cons.prems(1) by auto
  then have sub: "i64_saturating_sub (f_price f) p = f_price f - p"
    by (simp add: i64_saturating_sub_def i64_ok_def i64_min_def)
  have pre: "backed (committed_of (ledger_of m)) (add_mset (f_participant f, f_price f, f_qty f) ?D)"
    using Cons.prems(2) by (simp add: fill_claim_def [of f])
  have new: "backed (committed_of (ledger_of ?m)) (add_mset (f_participant f, p, f_qty f) ?D)"
    using pre ledger.backed_reduce [OF pre p(1,2)]
    by (cases "f_price f = p") (simp_all add: reprice_fill_ledger sub)
  have "backed (committed_of (ledger_of ?m)) (fill_claims fs + add_mset (f_participant f, p, f_qty f) C)"
    using new by simp
  from Cons.IH [OF _ this] Cons.prems(1) show ?case
    by (simp only: reprice_fills_Cons snd_conv)
      (simp add: cleared_fills_def fill_claim_def [of "f\<lparr>f_price := p\<rparr>"] reprice_fill_ledger)
qed

lemma clear_ledger:
  assumes "ladder_ok (resting s)" and "\<forall>f \<in> set (fills s). 0 \<le> p \<and> p \<le> f_price f \<and> i64_ok (f_price f)"
    and "backed (committed_of (collateral_map s)) (fill_claims (fills s) + resting_claims (ladder_bids (resting s)))"
  shows "backed (committed_of (collateral_map (fst (clear p (s, ev))))) (fill_claims (cleared_fills p (fills s))) \<and>
     limit_of (collateral_map (fst (clear p (s, ev)))) = limit_of (collateral_map s)"
proof -
  let ?s0 = "s\<lparr>status := status.Cleared, clearing_price := Some p\<rparr>"
  define m1 where "m1 = snd (reprice_fills p (fills s) (?s0, ev))"
  let ?R = "ladder_bids (resting s)"
  define m2 where "m2 = ((fst m1)\<lparr>fills := cleared_fills p (fills s), resting := fst (drain_all (resting s))\<rparr>, snd m1)"
  have m1: "backed (committed_of (ledger_of m1)) (resting_claims ?R + fill_claims (cleared_fills p (fills s)))"
      "limit_of (ledger_of m1) = limit_of (collateral_map s)"
    using backed_reprice [OF assms(2), of "(?s0, ev)" "resting_claims ?R"] assms(3)
    by (simp_all add: m1_def ledger_of_def add.commute)
  have "ledger_of m2 = ledger_of m1" by (simp add: m2_def ledger_of_def)
  with m1 backed_turn_away_resting [of m2 ?R] have
    "backed (committed_of (ledger_of (fold (turn_away_resting Unfilled) ?R m2))) (fill_claims (cleared_fills p (fills s)))"
    "limit_of (ledger_of (fold (turn_away_resting Unfilled) ?R m2)) = limit_of (collateral_map s)"
    by simp_all
  moreover have "fst (clear p (s, ev)) = fst (fold (turn_away_resting Unfilled) ?R m2)"
    by (simp add: clear_phases Let_def m1_def [symmetric] m2_def ladder.fired_all [OF assms(1)])
  ultimately show ?thesis by (simp add: ledger_of_def)
qed

lemma owed_cleared:
  assumes "\<forall>f \<in> set fs. 0 \<le> p \<and> p \<le> f_price f \<and> claim_ok (fill_claim f)"
  shows "owed pt (fill_claims (cleared_fills p fs)) \<le> owed pt (fill_claims fs)"
  using assms
proof (induction fs)
  case (Cons f fs)
  then show ?case
    using amount_smaller(2) [of "f_participant f" "f_price f" "f_qty f" p "f_qty f" pt]
    by (force simp: cleared_fills_def fill_claim_def)
qed (simp add: cleared_fills_def)


section \<open>Solvency\<close>

primrec nonneg_kind :: "bid_kind \<Rightarrow> bool" where
  "nonneg_kind (Take x) \<longleftrightarrow> True"
| "nonneg_kind (bid_kind.Resting limit) \<longleftrightarrow> 0 \<le> limit"

text \<open>Commands that bid no negative limit and grant no participant more than \<open>L\<close>.\<close>

primrec within_limits :: "(participant_id \<Rightarrow> int) \<Rightarrow> command \<Rightarrow> bool" where
  "within_limits L Open \<longleftrightarrow> True"
| "within_limits L (SetCollateral pt lim) \<longleftrightarrow> lim \<le> L pt"
| "within_limits L (SubmitBid pt key q kind) \<longleftrightarrow> nonneg_kind kind"
| "within_limits L (CancelResting pt key) \<longleftrightarrow> True"
| "within_limits L Tick \<longleftrightarrow> True"
| "within_limits L Cancel \<longleftrightarrow> True"

definition accounts_ok :: "(participant_id \<Rightarrow> int) \<Rightarrow> auction_state \<Rightarrow> bool" where
  "accounts_ok L s \<longleftrightarrow> backed (committed_of (collateral_map s)) (claims s) \<and>
     (\<forall>pt. owed pt (claims s) \<le> L pt \<and> limit_of (collateral_map s) pt \<le> L pt \<and>
        i64_ok (limit_of (collateral_map s) pt))"

lemma accounts_step:
  assumes "accounts_ok L s" and "backed (committed_of (collateral_map s')) (claims s')"
    and "\<And>pt. owed pt (claims s') \<le> owed pt (claims s)"
    and "limit_of (collateral_map s') = limit_of (collateral_map s)"
  shows "accounts_ok L s'"
  using assms order_trans by (fastforce simp: accounts_ok_def)

lemma accounts_same:
  "accounts_ok L s \<Longrightarrow> collateral_map s' = collateral_map s \<Longrightarrow> claims s' = claims s \<Longrightarrow> accounts_ok L s'"
  by (simp add: accounts_ok_def)

lemma backed_claims_ok: "backed com C \<Longrightarrow> c \<in># C \<Longrightarrow> claim_ok c"
  by (simp add: backed_def)

text \<open>Clearing an auction whose window is closed.\<close>

lemma accounts_clear:
  assumes "accounts_ok L s" and "fills_above p s" and "0 \<le> p" and "config_ok (config s)"
    and "ladder_ok (resting s)" and "window s = None"
  shows "accounts_ok L (fst (clear p (s, ev)))"
proof -
  let ?F = "fill_claims (fills s)" and ?R = "resting_claims (ladder_bids (resting s))"
  have no: "window_bids s = []" using assms(6) by (simp add: window_bids_def)
  have top: "i64_ok (start_price (config s))"
    using assms(4) by (simp add: config_ok_def schedule_ok_def start_price_def)
  have f: "\<forall>f \<in> set (fills s). 0 \<le> p \<and> p \<le> f_price f \<and> i64_ok (f_price f)"
    using assms(2,3) i64_ok_between [OF _ top, of 0] by (auto simp: fills_above_def dest: order_trans)
  have b: "backed (committed_of (collateral_map s)) (?F + ?R)"
    using assms(1) no by (simp add: accounts_ok_def claims_def)
  then have ok: "\<forall>f \<in> set (fills s). 0 \<le> p \<and> p \<le> f_price f \<and> claim_ok (fill_claim f)"
    "\<forall>c \<in># ?R. claim_ok c"
    using f by (auto simp: backed_def)
  have "claims (fst (clear p (s, ev))) = fill_claims (cleared_fills p (fills s))"
    using assms(5,6) by (simp add: claims_def clear_frame window_bids_def ladder.bids_fire_all)
  with clear_ledger [OF assms(5) f b, of ev] show ?thesis
    using owed_cleared [OF ok(1)] owed_nonneg [OF ok(2)] no
    by (intro accounts_step [OF assms(1)]) (auto simp: claims_def add_increasing2)
qed

lemma accounts_flush:
  assumes "accounts_ok L s" and "priced s" and "shape_at t s" and "0 \<le> floor_price (config s)"
  shows "accounts_ok L (fst (flush_window (s, ev)))"
  using assms(3)
proof (cases rule: flush_shape_cases [where ev = ev])
  case none
  then show ?thesis using assms(1) by simp
next
  case (live w allocs rem ex s1 e1)
  let ?p = "w_price w" and ?bids = "sort_bids (w_bids w)" and ?s0 = "s\<lparr>window := None, supply_remaining := rem\<rparr>"
  let ?bas = "zip ?bids allocs" and ?R = "resting_claims (ladder_bids (resting s))"
  let ?new = "new_fills ?p (next_fill_id s) ?bas"
  have fr: "fills s1 = fills s @ ?new" "config s1 = config s" "window s1 = None" "resting s1 = resting s"
    using live(7) by (simp_all add: settles_def)
  have cfg: "config_ok (config s)" and lad: "ladder_ok (resting s)" and u: "u64_ok (supply_remaining s)"
    using assms(3) by (simp_all add: shape_at_def ladder_shape_def)
  have p: "?p = snd (window_bounds s t)" and pend: "\<forall>b \<in> set (w_bids w). pending_ok ?p b"
    using assms(3) live(1) by (metis shape_at_def snd_conv window_shape_def)+
  then have p0: "0 \<le> ?p" and top: "?p \<le> start_price (config s)"
    using window_price_bounds [OF cfg, of t] assms(4) by simp_all
  have "\<forall>b \<in> set ?bids. bid_ok b" using live(3) by (simp add: window_ok_def)
  from match_levels_spec [OF this u live(4)] have sp: "list_all2 (\<lambda>b a. a \<le> pb_qty b) ?bids allocs" by simp
  have fst: "map fst ?bas = ?bids" using list_all2_lengthD [OF sp] by simp
  have "\<forall>b \<in> set ?bids. ?p \<le> pb_reserve_price b" using pend by (simp add: pending_ok_def)
  then have sok: "\<forall>ba \<in> set ?bas. settle_ok ?p ba"
    using sp p0 by (auto simp: settle_ok_def list_all2_iff dest: set_zip_leftD)
  have pc: "pending_claims ?bids = pending_claims (window_bids s)"
    by (rule pending_claims_mset) (simp add: window_bids_def live(1))
  have b0: "backed (committed_of (ledger_of (?s0, ev))) (pending_claims (map fst ?bas) + (fill_claims (fills s) + ?R))"
    unfolding fst pc using assms(1) by (simp add: accounts_ok_def claims_def ledger_of_def ac_simps)
  have set: "backed (committed_of (collateral_map s1)) (fill_claims ?new + (fill_claims (fills s) + ?R))"
    "limit_of (collateral_map s1) = limit_of (collateral_map s)"
    using backed_settle [OF sok b0, of "next_fill_id s"] live(6) by (simp_all add: ledger_of_def)
  have c1: "claims s1 = fill_claims ?new + (fill_claims (fills s) + ?R)"
    using fr by (simp add: claims_def window_bids_def)
  have "\<forall>c \<in># pending_claims (map fst ?bas). claim_ok c"
    using b0 by (auto simp: backed_def)
  then have "owed pt (fill_claims ?new) \<le> owed pt (pending_claims (window_bids s))" for pt
    using owed_new_fills [OF sok] unfolding fst pc by blast
  then have acc: "accounts_ok L s1"
    using set c1 by (intro accounts_step [OF assms(1)]) (auto simp: claims_def [of s])
  have "fills_above ?p s1"
    using assms(2) live(1) top new_fills_price by (fastforce simp: priced_defs fr)
  then show ?thesis
    using accounts_clear [OF acc _ p0, of e1] acc cfg lad fr by (simp add: live(8))
qed

definition solvent :: "(participant_id \<Rightarrow> int) \<Rightarrow> auction_state \<Rightarrow> bool" where
  "solvent L s \<longleftrightarrow> priced s \<and>
     (0 \<le> floor_price (config s) \<and> (\<forall>pt. 0 \<le> L pt) \<longrightarrow> accounts_ok L s)"


lemma accounts_reserve:
  assumes "accounts_ok L s" and "0 \<le> x" and "reserve pt x q s = (s', True)"
    and "claims s'' = add_mset (pt, x, q) (claims s)" and "collateral_map s'' = collateral_map s'"
  shows "accounts_ok L s''"
proof -
  have b: "backed (committed_of (collateral_map s)) (claims s)"
    and l: "\<And>pt. owed pt (claims s) \<le> L pt \<and> limit_of (collateral_map s) pt \<le> L pt \<and>
      i64_ok (limit_of (collateral_map s) pt)"
    using assms(1) by (auto simp: accounts_ok_def)
  have "limit_of (collateral_map s') = limit_of (collateral_map s)"
    and "backed (committed_of (collateral_map s')) (add_mset (pt, x, q) (claims s))"
    and "owed pt (claims s) + x * int q \<le> limit_of (collateral_map s) pt"
    using reserve_backed [OF b _ assms(2,3)] l by auto
  moreover have "owed p (add_mset (pt, x, q) (claims s)) \<le> L p" for p
    using calculation(3) l [of p] by (auto simp: amount_for_def)
  ultimately show ?thesis using l by (simp add: accounts_ok_def assms(4,5))
qed

lemma accounts_limit:
  assumes "accounts_ok L s" and "i64_ok lim" and "lim \<le> L pt"
  shows "accounts_ok L (s\<lparr>collateral_map := coll_entry pt (\<lambda>c. c\<lparr>coll_limit := lim\<rparr>) (collateral_map s)\<rparr>)"
proof -
  let ?m = "coll_entry pt (\<lambda>c. c\<lparr>coll_limit := lim\<rparr>) (collateral_map s)"
  have "committed_of ?m = committed_of (collateral_map s)"
    by (auto simp: committed_entry committed_of_def fun_eq_iff)
  moreover have "limit_of ?m = (limit_of (collateral_map s))(pt := lim)"
    by (auto simp: limit_of_def coll_entry_def)
  moreover have "claims (s\<lparr>collateral_map := ?m\<rparr>) = claims s" by (simp add: claims_def window_bids_def)
  ultimately show ?thesis using assms by (auto simp: accounts_ok_def)
qed

lemma claims_cong:
  "fills s' = fills s \<Longrightarrow> window_bids s' = window_bids s \<Longrightarrow> resting s' = resting s \<Longrightarrow> claims s' = claims s"
  by (simp add: claims_def)

lemma window_bids_frame [simp]:
  "window_bids (set_outcome k x s) = window_bids s" "window_bids (s\<lparr>collateral_map := m\<rparr>) = window_bids s"
  "window_bids (s\<lparr>resting := l\<rparr>) = window_bids s" "window_bids (s\<lparr>status := st\<rparr>) = window_bids s"
  by (simp_all add: window_bids_def)

lemma reserve_claims: "reserve pt x q s = (s', b) \<Longrightarrow>
    fills s' = fills s \<and> window_bids s' = window_bids s \<and> resting s' = resting s"
  using reserve_only_accounts [of pt x q s s' b] window_bids_cong [of s' s] by (simp add: only_accounts_def)

lemma accounts_micro:
  assumes "accounts_ok L s" and "priced s" and "shape s" and "0 \<le> floor_price (config s)"
    and "micro cmd s s'" and "within_limits L cmd" and "cmd_width cmd"
  shows "accounts_ok L s'"
proof -
  have cfg: "config_ok (config s)" and lad: "ladder_ok (resting s)"
    using assms(3) by (simp_all add: shape_at_def ladder_shape_def)
  have b: "backed (committed_of (collateral_map s)) (claims s)"
    and lim: "i64_ok (limit_of (collateral_map s) pt)" for pt
    using assms(1) by (simp_all add: accounts_ok_def)
  have pos: "\<forall>c \<in># claims s. claim_ok c" using b by (simp add: backed_def)
  show ?thesis using assms(5)
  proof cases
    case micro_open
    then show ?thesis by (intro accounts_same [OF assms(1)]) (simp_all add: claims_def)
  next
    case (micro_limit pt lim)
    then show ?thesis using accounts_limit assms by simp
  next
    case (micro_reject pt key q kind r)
    then show ?thesis by (intro accounts_same [OF assms(1)]) (simp_all add: claims_def)
  next
    case (micro_short pt key q kind p s1)
    have "claims s' = claims s" using reserve_claims [OF micro_short(4)] by (simp add: claims_def micro_short(1))
    moreover have "collateral_map s1 = collateral_map s \<or>
        collateral_map s1 = coll_entry pt (\<lambda>c. c) (collateral_map s)"
      using micro_short(4) by (auto simp: reserve_def Let_def split: option.splits if_splits)
    then have "committed_of (collateral_map s1) = committed_of (collateral_map s) \<and>
        limit_of (collateral_map s1) = limit_of (collateral_map s)"
      by (auto simp: committed_of_def limit_of_def coll_entry_def)
    ultimately show ?thesis using assms(1) micro_short(1) by (simp add: accounts_ok_def)
  next
    case (micro_take pt key q x i p s1 sq)
    have "0 \<le> p" using window_price_bounds [OF cfg, of "now s"] micro_take(7) assms(4) by simp
    then show ?thesis
      using reserve_claims [OF micro_take(8)] micro_take(1)
      by (intro accounts_reserve [OF assms(1) _ micro_take(8)])
        (simp_all add: claims_def pending_claim_def take_bid_def)
  next
    case (micro_rest pt key q limit s1 sq)
    have "0 \<le> limit" using micro_rest(2) assms(6) by simp
    then show ?thesis
      using reserve_claims [OF micro_rest(7)] micro_rest(1) lad
      by (intro accounts_reserve [OF assms(1) _ micro_rest(7)])
        (simp_all add: claims_def resting_claim_def rest_bid_def ladder.bids_put)
  next
    case (micro_withdraw pt key l bid)
    have w: "rb_participant bid = pt" "mset (ladder_bids (resting s)) = add_mset bid (mset (ladder_bids l))"
      using ladder.withdraw_Some [OF lad, of pt key bid] ladder.withdraw_conserves [OF lad, of pt key bid]
        micro_withdraw(3) by simp_all
    have c: "claims s = add_mset (pt, rb_limit bid, rb_qty bid) (claims s')"
      using w micro_withdraw(1) by (simp add: claims_def resting_claim_def [of bid])
    have ok: "claim_ok (pt, rb_limit bid, rb_qty bid)" using pos c by simp
    show ?thesis
      using ledger.backed_drop [OF b [unfolded c]] micro_withdraw(1) amount_nonneg [OF ok]
      by (intro accounts_step [OF assms(1)]) (simp_all add: c)
  next
    case (micro_trigger i p l bs)
    have "mset (ladder_bids l) + mset bs = mset (ladder_bids (resting s))"
      using ladder.fire_conserves [OF lad, of "clock_price (config s) (now s)"] micro_trigger(5) by simp
    then have "resting_claims (ladder_bids l @ bs) = resting_claims (ladder_bids (resting s))"
      by (intro resting_claims_mset) simp
    then have "claims s' = claims s"
      using pending_triggered [of bs] by (simp add: claims_def micro_trigger(1) ac_simps)
    then show ?thesis using micro_trigger(1) by (intro accounts_same [OF assms(1)]) simp_all
  next
    case (micro_flush ev ev')
    then show ?thesis using accounts_flush [OF assms(1-4), of ev] by simp
  next
    case (micro_clear ev ev')
    have "fills_above (floor_price (config s)) s"
      using assms(2) window_price_bounds [OF cfg, of "now s"] by (fastforce simp: priced_defs)
    from accounts_clear [OF assms(1) this assms(4) cfg lad micro_clear(3), of ev] micro_clear(5)
    show ?thesis by simp
  next
    case (micro_cancel ev ev')
    let ?s = "s\<lparr>status := status.Cancelled, window := None\<rparr>" and ?R = "ladder_bids (resting s)"
    define m where "m = fold turn_away_pending (window_bids s) (?s, ev)"
    define m2 where "m2 = ((fst m)\<lparr>resting := fst (drain_all (resting (fst m)))\<rparr>, snd m)"
    have r: "resting (fst m) = resting s"
      using turn_aways_accounts [of "window_bids s" "(?s, ev)", OF refl] by (simp add: m_def only_accounts_def)
    have "backed (committed_of (ledger_of m)) (resting_claims ?R + fill_claims (fills s)) \<and>
        limit_of (ledger_of m) = limit_of (collateral_map s)"
      using backed_turn_away_pending [of "(?s, ev)" "window_bids s" "resting_claims ?R + fill_claims (fills s)"] b
      by (simp add: m_def ledger_of_def claims_def ac_simps)
    moreover have "ledger_of m2 = ledger_of m" by (simp add: m2_def ledger_of_def)
    moreover have "withdrawn_all NotLive m = fold (turn_away_resting NotLive) ?R m2"
      by (simp add: withdrawn_all_def m2_def r ladder.fired_all [OF lad])
    ultimately have l: "backed (committed_of (collateral_map s')) (fill_claims (fills s)) \<and>
        limit_of (collateral_map s') = limit_of (collateral_map s)"
      using backed_turn_away_resting [of m2 ?R "fill_claims (fills s)" NotLive] micro_cancel(3)
      by (simp add: m_def [symmetric] ledger_of_def)
    have "claims s' = fill_claims (fills s)"
      using cancel_accounts [OF micro_cancel(3)] ladder_cleared [OF lad]
      by (simp add: claims_def only_accounts_def window_bids_def)
    moreover have "owed pt (fill_claims (fills s)) \<le> owed pt (claims s)" for pt
      using owed_nonneg [of "pending_claims (window_bids s)" pt] owed_nonneg [of "resting_claims ?R" pt] pos
      by (simp add: claims_def)
    ultimately show ?thesis using l by (intro accounts_step [OF assms(1)]) simp_all
  qed
qed

interpretation solvency: machine_invariant "within_limits L" "solvent L" for L
proof
  fix c assume "config_ok c"
  then have "priced (new_state c)" by (rule pricing.inv_start)
  then show "solvent L (new_state c)"
    by (auto simp: solvent_def accounts_ok_def backed_def claims_def new_state_def window_bids_def
        ladder.bids_empty committed_of_def limit_of_def no_collateral_def i64_max_def)
next
  fix s sq t assume a: "solvent L s" "shape s" "now s \<le> t" "seq_accepted s sq"
  let ?s = "s\<lparr>last_seq := Some sq, now := t\<rparr>"
  have "priced ?s" using a by (intro pricing.inv_stamp) (simp_all add: solvent_def)
  moreover have "accounts_ok L ?s" if "accounts_ok L s"
    by (rule accounts_same [OF that]) (simp_all add: claims_def window_bids_def)
  ultimately show "solvent L ?s" using a(1) by (auto simp: solvent_def)
next
  fix s t ev assume a: "solvent L s" "shape_at t s" "t \<le> now s"
  then show "solvent L (fst (flush_window (s, ev)))"
    using priced_flush [of s t ev] accounts_flush [of L s t ev] flush_frame(1) [OF a(2), of ev]
    by (auto simp: solvent_def)
next
  fix s cmd s' assume a: "solvent L s" "shape s" "micro cmd s s'" "within_limits L cmd" "cmd_width cmd"
  then show "solvent L s'"
    using priced_micro [of s cmd s'] accounts_micro [of L s cmd s'] micro_frame [OF a(3,2)]
    by (auto simp: solvent_def)
qed

end
