(* ===== verification/Outcomes.thy ===== *)
theory Outcomes
  imports Collateral
begin

text \<open>
  Idempotency and outcomes (invariants I7 and I10 of \<open>docs/invariants.md\<close>).

  Each idempotency key stands for at most one thing: a fill, a queued bid or a resting bid. The
  outcome a retry is answered with is the one that thing has, and a key that stands for nothing was
  never submitted, was rejected, or was cancelled. Hence the source's merge of outcomes never meets
  an earlier fill, and \<open>FilledThenCancelled\<close> never arises.
\<close>

section \<open>The register of outcomes\<close>

type_synonym entry = "idempotency_key \<times> outcome"

primrec closed_outcome :: "outcome \<Rightarrow> bool" where
  "closed_outcome (outcome.Queued q) \<longleftrightarrow> False"
| "closed_outcome (outcome.Resting q) \<longleftrightarrow> False"
| "closed_outcome (outcome.Filled q p) \<longleftrightarrow> False"
| "closed_outcome (outcome.Rejected r) \<longleftrightarrow> True"
| "closed_outcome outcome.Cancelled \<longleftrightarrow> True"
| "closed_outcome (FilledThenCancelled q p) \<longleftrightarrow> False"

definition entry_keys :: "entry multiset \<Rightarrow> idempotency_key multiset" where
  "entry_keys E = image_mset fst E"

definition registered :: "(idempotency_key \<rightharpoonup> outcome) \<Rightarrow> entry multiset \<Rightarrow> bool" where
  "registered m E \<longleftrightarrow> (\<forall>k. count (entry_keys E) k \<le> 1) \<and> (\<forall>e \<in># E. m (fst e) = Some (snd e)) \<and>
     (\<forall>k. k \<notin># entry_keys E \<longrightarrow> (case m k of None \<Rightarrow> True | Some x \<Rightarrow> closed_outcome x))"

lemma entry_keys_simps [simp]:
  "entry_keys {#} = {#}" "entry_keys (add_mset (k, x) E) = add_mset k (entry_keys E)"
  "entry_keys (E + F) = entry_keys E + entry_keys F"
  by (simp_all add: entry_keys_def)

lemma registered_fresh_key:
  "registered m (add_mset (k, x) E) \<Longrightarrow> k \<notin># entry_keys E \<and> m k = Some x"
  by (auto simp: registered_def not_in_iff dest: spec [of _ k])

lemma entry_in_keys: "e \<in># E \<Longrightarrow> fst e \<in># entry_keys E"
  by (auto simp: entry_keys_def)

lemma registered_close:
  assumes "registered m (add_mset (k, x) E)" and "closed_outcome y"
  shows "registered (m(k \<mapsto> y)) E"
proof -
  have k: "k \<notin># entry_keys E" using registered_fresh_key [OF assms(1)] by simp
  then have "\<forall>e \<in># E. fst e \<noteq> k" using entry_in_keys by metis
  moreover have "count (entry_keys E) j \<le> 1" for j
  proof -
    have "count (entry_keys E) j \<le> count (entry_keys (add_mset (k, x) E)) j" by simp
    also have "\<dots> \<le> 1" using assms(1) unfolding registered_def by blast
    finally show ?thesis .
  qed
  ultimately show ?thesis using assms by (auto simp: registered_def)
qed

lemma registered_update:
  assumes "registered m (add_mset (k, x) E)"
  shows "registered (m(k \<mapsto> y)) (add_mset (k, y) E)"
proof -
  have k: "k \<notin># entry_keys E" using registered_fresh_key [OF assms(1)] by simp
  then have "\<forall>e \<in># E. fst e \<noteq> k" using entry_in_keys by metis
  then show ?thesis using assms by (auto simp: registered_def)
qed

lemma registered_insert:
  assumes "registered m E" and "m k = None"
  shows "registered (m(k \<mapsto> x)) (add_mset (k, x) E)"
proof -
  have "k \<notin># entry_keys E"
    using assms by (auto simp: registered_def entry_keys_def)
  then have "\<forall>e \<in># E. fst e \<noteq> k" and "count (entry_keys E) k = 0"
    using entry_in_keys by (metis, simp add: not_in_iff)
  then show ?thesis using assms by (auto simp: registered_def)
qed

lemma registered_reject:
  assumes "registered m E" and "m k = None" and "closed_outcome x"
  shows "registered (m(k \<mapsto> x)) E"
  using registered_close [OF registered_insert [OF assms(1,2), of x] assms(3)] by simp

section \<open>The entries of a state\<close>

definition fill_entry :: "fill \<Rightarrow> entry" where
  "fill_entry f = (f_key f, outcome.Filled (f_qty f) (f_price f))"

definition pending_entry :: "pending_bid \<Rightarrow> entry" where
  "pending_entry b = (pb_key b, case pb_resting_limit b of
     None \<Rightarrow> outcome.Queued (pb_qty b) | Some l \<Rightarrow> outcome.Resting (pb_qty b))"

definition resting_entry :: "resting_bid \<Rightarrow> entry" where
  "resting_entry b = (rb_key b, outcome.Resting (rb_qty b))"

abbreviation fill_entries :: "fill list \<Rightarrow> entry multiset" where
  "fill_entries fs \<equiv> mset (map fill_entry fs)"

abbreviation pending_entries :: "pending_bid list \<Rightarrow> entry multiset" where
  "pending_entries bs \<equiv> mset (map pending_entry bs)"

abbreviation resting_entries :: "resting_bid list \<Rightarrow> entry multiset" where
  "resting_entries bs \<equiv> mset (map resting_entry bs)"

definition entries :: "auction_state \<Rightarrow> entry multiset" where
  "entries s = fill_entries (fills s) + pending_entries (window_bids s) +
     resting_entries (ladder_bids (resting s))"

definition booked :: "auction_state \<Rightarrow> bool" where
  "booked s \<longleftrightarrow> registered (outcomes s) (entries s)"

definition register_of :: "machine \<Rightarrow> (idempotency_key \<rightharpoonup> outcome)" where
  "register_of m = outcomes (fst m)"

lemma entries_cong:
  "fills s' = fills s \<Longrightarrow> window_bids s' = window_bids s \<Longrightarrow> resting s' = resting s \<Longrightarrow> entries s' = entries s"
  by (simp add: entries_def)

lemma pending_triggered_entries: "pending_entries (map triggered_bid bs) = resting_entries bs"
  by (induction bs) (simp_all add: pending_entry_def triggered_bid_def resting_entry_def)

lemma resting_entries_mset: "mset bs = mset bs' \<Longrightarrow> resting_entries bs = resting_entries bs'"
  by (metis mset_map)

lemma pending_entries_mset: "mset bs = mset bs' \<Longrightarrow> pending_entries bs = pending_entries bs'"
  by (metis mset_map)

text \<open>An outcome replaces what a bid in flight had: the merge only keeps what was filled.\<close>

lemma merge_in_flight [simp]:
  "merge_outcome (Some (outcome.Queued q)) x = x" "merge_outcome (Some (outcome.Resting q)) x = x"
  "merge_outcome None x = x"
  by simp_all

lemma merge_pending: "merge_outcome (Some (snd (pending_entry b))) x = x"
  by (simp add: pending_entry_def split: option.splits)

lemma outcomes_set: "outcomes (set_outcome k x s) = (outcomes s)(k \<mapsto> merge_outcome (outcomes s k) x)"
  by (simp add: set_outcome_def)

lemma turn_away_register:
  "register_of (turn_away_pending b m) =
     (register_of m)(pb_key b \<mapsto> merge_outcome (register_of m (pb_key b)) (outcome.Rejected NotLive))"
  "register_of (turn_away_resting r b' m) =
     (register_of m)(rb_key b' \<mapsto> merge_outcome (register_of m (rb_key b')) (outcome.Rejected r))"
  by (cases m; simp add: register_of_def outcomes_set)+

lemma registered_turn_away_pending:
  "registered (register_of m) (pending_entries bs + E) \<Longrightarrow>
     registered (register_of (fold turn_away_pending bs m)) E"
proof (induction bs arbitrary: m)
  case (Cons b bs)
  have pre: "registered (register_of m) (add_mset (pb_key b, snd (pending_entry b)) (pending_entries bs + E))"
    using Cons.prems by (simp add: pending_entry_def [of b])
  then have "registered (register_of (turn_away_pending b m)) (pending_entries bs + E)"
    using registered_close [OF pre, of "outcome.Rejected NotLive"] registered_fresh_key [OF pre]
    by (simp add: turn_away_register merge_pending)
  from Cons.IH [OF this] show ?case by simp
qed simp

lemma registered_turn_away_resting:
  "registered (register_of m) (resting_entries bs + E) \<Longrightarrow>
     registered (register_of (fold (turn_away_resting r) bs m)) E"
proof (induction bs arbitrary: m)
  case (Cons b bs)
  have pre: "registered (register_of m) (add_mset (rb_key b, outcome.Resting (rb_qty b)) (resting_entries bs + E))"
    using Cons.prems by (simp add: resting_entry_def [of b])
  then have "registered (register_of (turn_away_resting r b m)) (resting_entries bs + E)"
    using registered_close [OF pre, of "outcome.Rejected r"] registered_fresh_key [OF pre]
    by (simp add: turn_away_register)
  from Cons.IH [OF this] show ?case by simp
qed simp

lemma settle_register:
  "register_of (settle_plain p (b, a) m) = (register_of m)(pb_key b \<mapsto>
     merge_outcome (register_of m (pb_key b))
       (if a = 0 then outcome.Rejected SupplyExhausted else outcome.Filled a p))"
  by (cases m) (simp add: register_of_def outcomes_set Let_def)

lemma registered_settle:
  assumes "registered (register_of m) (pending_entries (map fst bas) + E)"
  shows "registered (register_of (fold (settle_plain p) bas m)) (fill_entries (new_fills p n bas) + E)"
  using assms
proof (induction bas arbitrary: m n E)
  case (Cons ba bas)
  obtain b a where ba: "ba = (b, a)" by (cases ba)
  let ?D = "pending_entries (map fst bas) + E" and ?m = "settle_plain p ba m"
  have pre: "registered (register_of m) (add_mset (pb_key b, snd (pending_entry b)) ?D)"
    using Cons.prems by (simp add: ba pending_entry_def [of b])
  then have m: "register_of m (pb_key b) = Some (snd (pending_entry b))"
    using registered_fresh_key by blast
  show ?case
  proof (cases "a = 0")
    case True
    have "registered (register_of ?m) ?D"
      using registered_close [OF pre, of "outcome.Rejected SupplyExhausted"] m True
      by (simp add: ba settle_register merge_pending)
    from Cons.IH [OF this, of n] show ?thesis by (simp add: ba True)
  next
    case False
    have "registered (register_of ?m) (pending_entries (map fst bas) + add_mset (pb_key b, outcome.Filled a p) E)"
      using registered_update [OF pre, of "outcome.Filled a p"] m False
      by (simp add: ba settle_register merge_pending)
    from Cons.IH [OF this, of "u64_wrap (n + 1)"] False show ?thesis
      by (simp add: ba fill_entry_def del: settle_plain.simps)
  qed
qed simp

lemma reprice_register:
  "register_of (snd (reprice_fill p f m)) =
     (register_of m)(f_key f := quote_at p (register_of m (f_key f)))"
  by (cases m) (simp add: register_of_def Let_def)

lemma registered_reprice:
  assumes "registered (register_of m) (fill_entries fs + E)"
  shows "registered (register_of (snd (reprice_fills p fs m))) (fill_entries (cleared_fills p fs) + E)"
  using assms
proof (induction fs arbitrary: m E)
  case Nil
  then show ?case by (simp add: cleared_fills_def)
next
  case (Cons f fs)
  have pre: "registered (register_of m) (add_mset (f_key f, outcome.Filled (f_qty f) (f_price f)) (fill_entries fs + E))"
    using Cons.prems by (simp add: fill_entry_def [of f])
  have "registered (register_of (snd (reprice_fill p f m)))
      (fill_entries fs + add_mset (f_key f, outcome.Filled (f_qty f) p) E)"
    using registered_update [OF pre, of "outcome.Filled (f_qty f) p"] registered_fresh_key [OF pre]
    by (simp add: reprice_register quote_at_def)
  from Cons.IH [OF this] show ?case
    by (simp only: reprice_fills_Cons snd_conv)
      (simp add: cleared_fills_def fill_entry_def [of "f\<lparr>f_price := p\<rparr>"])
qed

section \<open>The register is kept\<close>

lemma booked_clear:
  assumes "booked s" and "window s = None" and "ladder_ok (resting s)"
  shows "booked (fst (clear p (s, ev)))"
proof -
  let ?s0 = "s\<lparr>status := status.Cleared, clearing_price := Some p\<rparr>" and ?R = "ladder_bids (resting s)"
  define m1 where "m1 = snd (reprice_fills p (fills s) (?s0, ev))"
  define m2 where "m2 = ((fst m1)\<lparr>fills := cleared_fills p (fills s), resting := fst (drain_all (resting s))\<rparr>, snd m1)"
  have "registered (register_of m1) (resting_entries ?R + fill_entries (cleared_fills p (fills s)))"
    using registered_reprice [of "(?s0, ev)" "fills s" "resting_entries ?R" p] assms(1,2)
    by (simp add: m1_def register_of_def booked_def entries_def window_bids_def add.commute)
  moreover have "register_of m2 = register_of m1" by (simp add: m2_def register_of_def)
  ultimately have "registered (register_of (fold (turn_away_resting Unfilled) ?R m2)) (fill_entries (cleared_fills p (fills s)))"
    using registered_turn_away_resting [of m2 ?R] by simp
  moreover have "fst (clear p (s, ev)) = fst (fold (turn_away_resting Unfilled) ?R m2)"
    by (simp add: clear_phases Let_def m1_def [symmetric] m2_def ladder.fired_all [OF assms(3)])
  moreover have "entries (fst (clear p (s, ev))) = fill_entries (cleared_fills p (fills s))"
    using assms(2,3) by (simp add: entries_def clear_frame window_bids_def ladder.bids_fire_all)
  ultimately show ?thesis by (simp add: booked_def register_of_def)
qed

lemma booked_flush:
  assumes "booked s" and "shape_at t s"
  shows "booked (fst (flush_window (s, ev)))"
  using assms(2)
proof (cases rule: flush_shape_cases [where ev = ev])
  case none
  then show ?thesis using assms(1) by simp
next
  case (live w allocs rem ex s1 e1)
  let ?p = "w_price w" and ?bids = "sort_bids (w_bids w)" and ?s0 = "s\<lparr>window := None, supply_remaining := rem\<rparr>"
  let ?bas = "zip ?bids allocs" and ?R = "resting_entries (ladder_bids (resting s))"
  let ?new = "new_fills ?p (next_fill_id s) ?bas"
  have lad: "ladder_ok (resting s)" and u: "u64_ok (supply_remaining s)"
    using assms(2) by (simp_all add: shape_at_def ladder_shape_def)
  have fr: "fills s1 = fills s @ ?new" "window s1 = None" "resting s1 = resting s"
    using live(7) by (simp_all add: settles_def)
  have "\<forall>b \<in> set ?bids. bid_ok b" using live(3) by (simp add: window_ok_def)
  from match_levels_spec [OF this u live(4)] have "length ?bids = length allocs"
    by (blast dest: list_all2_lengthD)
  then have fst: "map fst ?bas = ?bids" by simp
  have "pending_entries ?bids = pending_entries (window_bids s)"
    by (rule pending_entries_mset) (simp add: window_bids_def live(1))
  then have "registered (register_of (?s0, ev)) (pending_entries (map fst ?bas) + (fill_entries (fills s) + ?R))"
    unfolding fst using assms(1) by (simp add: booked_def entries_def register_of_def ac_simps)
  from registered_settle [OF this, of ?p "next_fill_id s"] have b1: "booked s1"
    using live(6) fr by (simp add: booked_def register_of_def entries_def window_bids_def ac_simps)
  show ?thesis using booked_clear [OF b1 fr(2), of ?p e1] b1 lad fr(3) by (simp add: live(8))
qed

lemma booked_micro:
  assumes "booked s" and "shape s" and "micro cmd s s'"
  shows "booked s'"
proof -
  have lad: "ladder_ok (resting s)" using assms(2) by (simp add: shape_at_def ladder_shape_def)
  have b: "registered (outcomes s) (entries s)" using assms(1) by (simp add: booked_def)
  show ?thesis using assms(3)
  proof cases
    case micro_open
    then show ?thesis using assms(1) by (simp add: booked_def entries_def)
  next
    case (micro_limit pt lim)
    then show ?thesis using assms(1) by (simp add: booked_def entries_def)
  next
    case (micro_reject pt key q kind r)
    then show ?thesis
      using registered_reject [OF b micro_reject(3), of "outcome.Rejected r"]
      by (simp add: booked_def outcomes_set entries_def)
  next
    case (micro_short pt key q kind p s1)
    then have "outcomes s1 = outcomes s" "entries s1 = entries s"
      using reserve_only_accounts reserve_claims by (blast, simp add: entries_def reserve_claims)
    then show ?thesis
      using registered_reject [OF b micro_short(3), of "outcome.Rejected InsufficientCollateral"] micro_short(1,3)
      by (simp add: booked_def outcomes_set) (simp add: entries_def)
  next
    case (micro_take pt key q x i p s1 sq)
    then have o: "outcomes s1 = outcomes s" using reserve_only_accounts by blast
    have "entries s' = add_mset (key, outcome.Queued q) (entries s)"
      using reserve_claims [OF micro_take(8)] micro_take(1)
      by (simp add: entries_def pending_entry_def take_bid_def)
    then show ?thesis
      using registered_insert [OF b micro_take(3), of "outcome.Queued q"] o micro_take(1,3)
      by (simp add: booked_def outcomes_set)
  next
    case (micro_rest pt key q limit s1 sq)
    then have o: "outcomes s1 = outcomes s" using reserve_only_accounts by blast
    have "entries s' = add_mset (key, outcome.Resting q) (entries s)"
      using reserve_claims [OF micro_rest(7)] micro_rest(1) lad
      by (simp add: entries_def resting_entry_def rest_bid_def ladder.bids_put)
    then show ?thesis
      using registered_insert [OF b micro_rest(3), of "outcome.Resting q"] o micro_rest(1,3)
      by (simp add: booked_def outcomes_set)
  next
    case (micro_withdraw pt key l bid)
    have w: "rb_key bid = key" "mset (ladder_bids (resting s)) = add_mset bid (mset (ladder_bids l))"
      using ladder.withdraw_Some [OF lad, of pt key bid] ladder.withdraw_conserves [OF lad, of pt key bid]
        micro_withdraw(3) by simp_all
    have c: "entries s = add_mset (key, outcome.Resting (rb_qty bid)) (entries s')"
      using w micro_withdraw(1) by (simp add: entries_def resting_entry_def [of bid])
    from registered_close [OF b [unfolded c], of outcome.Cancelled] registered_fresh_key [OF b [unfolded c]]
    show ?thesis by (simp add: booked_def micro_withdraw(1) outcomes_set)
  next
    case (micro_trigger i p l bs)
    have "mset (ladder_bids l) + mset bs = mset (ladder_bids (resting s))"
      using ladder.fire_conserves [OF lad, of "clock_price (config s) (now s)"] micro_trigger(5) by simp
    then have "resting_entries (ladder_bids l @ bs) = resting_entries (ladder_bids (resting s))"
      by (intro resting_entries_mset) simp
    then have "entries s' = entries s"
      using pending_triggered_entries [of bs] by (simp add: entries_def micro_trigger(1) ac_simps)
    then show ?thesis using micro_trigger(1) b by (simp add: booked_def)
  next
    case (micro_flush ev ev')
    then show ?thesis using booked_flush [OF assms(1,2), of ev] by simp
  next
    case (micro_clear ev ev')
    then show ?thesis using booked_clear [OF assms(1) micro_clear(3) lad, of "floor_price (config s)" ev] by simp
  next
    case (micro_cancel ev ev')
    let ?s = "s\<lparr>status := status.Cancelled, window := None\<rparr>" and ?R = "ladder_bids (resting s)"
    define m where "m = fold turn_away_pending (window_bids s) (?s, ev)"
    define m2 where "m2 = ((fst m)\<lparr>resting := fst (drain_all (resting (fst m)))\<rparr>, snd m)"
    have r: "resting (fst m) = resting s"
      using turn_aways_accounts [of "window_bids s" "(?s, ev)", OF refl] by (simp add: m_def only_accounts_def)
    have "registered (register_of m) (resting_entries ?R + fill_entries (fills s))"
      using registered_turn_away_pending [of "(?s, ev)" "window_bids s" "resting_entries ?R + fill_entries (fills s)"] b
      by (simp add: m_def register_of_def entries_def ac_simps)
    moreover have "register_of m2 = register_of m" by (simp add: m2_def register_of_def)
    moreover have "withdrawn_all NotLive m = fold (turn_away_resting NotLive) ?R m2"
      by (simp add: withdrawn_all_def m2_def r ladder.fired_all [OF lad])
    ultimately have l: "registered (outcomes s') (fill_entries (fills s))"
      using registered_turn_away_resting [of m2 ?R "fill_entries (fills s)" NotLive] micro_cancel(3)
      by (simp add: m_def [symmetric] register_of_def)
    have "entries s' = fill_entries (fills s)"
      using cancel_accounts [OF micro_cancel(3)] ladder_cleared [OF lad]
      by (simp add: entries_def only_accounts_def window_bids_def)
    then show ?thesis using l by (simp add: booked_def)
  qed
qed

interpretation booking: machine_invariant "\<lambda>_. True" booked
proof
  fix c
  show "booked (new_state c)"
    by (simp add: booked_def registered_def entries_def new_state_def window_bids_def ladder.bids_empty)
next
  fix s sq t assume "booked s"
  then show "booked (s\<lparr>last_seq := Some sq, now := t\<rparr>)" by (simp add: booked_def entries_def window_bids_def)
qed (blast intro: booked_flush booked_micro)+


section \<open>What the register says\<close>

lemma distinct_count: "distinct xs \<longleftrightarrow> (\<forall>k. count (mset xs) k \<le> 1)"
  unfolding distinct_count_atmost_1
proof (rule iff_allI)
  fix k
  have z: "count (mset xs) k = 0 \<longleftrightarrow> k \<notin> set xs" by (simp add: count_eq_zero_iff)
  show "count (mset xs) k = (if k \<in> set xs then 1 else 0) \<longleftrightarrow> count (mset xs) k \<le> 1"
  proof (cases "k \<in> set xs")
    case True
    with z have "count (mset xs) k \<noteq> 0" by blast
    then have "count (mset xs) k \<le> 1 \<longleftrightarrow> count (mset xs) k = 1" by linarith
    with True show ?thesis by simp
  next
    case False
    with z have "count (mset xs) k = 0" by blast
    then show ?thesis using False by (simp only: if_False) simp
  qed
qed

definition live_keys :: "auction_state \<Rightarrow> idempotency_key list" where
  "live_keys s = map f_key (fills s) @ map pb_key (window_bids s) @ map rb_key (ladder_bids (resting s))"

lemma entry_keys_of: "entry_keys (entries s) = mset (live_keys s)"
  by (simp add: entry_keys_def entries_def live_keys_def fill_entry_def pending_entry_def
      resting_entry_def image_mset.compositionality comp_def)

lemma booked_distinct: "booked s \<Longrightarrow> distinct (live_keys s)"
  by (simp add: booked_def registered_def entry_keys_of distinct_count)

lemma booked_fill: "booked s \<Longrightarrow> f \<in> set (fills s) \<Longrightarrow>
    outcomes s (f_key f) = Some (outcome.Filled (f_qty f) (f_price f))"
  by (force simp: booked_def registered_def entries_def fill_entry_def)

lemma booked_none:
  assumes "booked s" and "k \<notin> set (live_keys s)"
  shows "case outcomes s k of None \<Rightarrow> True | Some x \<Rightarrow> closed_outcome x"
  using assms by (auto simp: booked_def registered_def entry_keys_of)

lemma booked_filled:
  assumes "booked s" and "outcomes s k = Some (outcome.Filled q p)"
  shows "\<exists>f \<in> set (fills s). f_key f = k \<and> f_qty f = q \<and> f_price f = p"
proof -
  have "k \<in> set (live_keys s)" using booked_none [OF assms(1), of k] assms(2) by auto
  moreover have "outcomes s (pb_key b) \<noteq> Some (outcome.Filled q p)" if "b \<in> set (window_bids s)" for b
  proof -
    have "pending_entry b \<in># entries s" using that by (simp add: entries_def)
    then have "outcomes s (fst (pending_entry b)) = Some (snd (pending_entry b))"
      using assms(1) by (auto simp: booked_def registered_def)
    then show ?thesis by (auto simp: pending_entry_def split: option.splits)
  qed
  moreover have "outcomes s (rb_key b) \<noteq> Some (outcome.Filled q p)" if "b \<in> set (ladder_bids (resting s))" for b
  proof -
    have "resting_entry b \<in># entries s" using that by (simp add: entries_def)
    then have "outcomes s (fst (resting_entry b)) = Some (snd (resting_entry b))"
      using assms(1) by (auto simp: booked_def registered_def)
    then show ?thesis by (simp add: resting_entry_def)
  qed
  ultimately obtain f where "f \<in> set (fills s)" "f_key f = k"
    using assms(2) by (auto simp: live_keys_def)
  then show ?thesis using booked_fill [OF assms(1)] assms(2) by fastforce
qed

lemma booked_never_ftc:
  assumes "booked s"
  shows "outcomes s k \<noteq> Some (FilledThenCancelled q p)"
proof
  assume a: "outcomes s k = Some (FilledThenCancelled q p)"
  then have "k \<in># entry_keys (entries s)"
    using booked_none [OF assms, of k] by (auto simp: entry_keys_of)
  then obtain e where "e \<in># entries s" "fst e = k" by (auto simp: entry_keys_def)
  then have "Some (snd e) = Some (FilledThenCancelled q p)" and "e \<in># entries s"
    using assms a by (auto simp: booked_def registered_def)
  then show False
    by (auto simp: entries_def fill_entry_def pending_entry_def resting_entry_def split: option.splits)
qed

text \<open>When the auction is over, every key that did not buy was turned away.\<close>

lemma booked_final:
  assumes "booked s" and "shape s" and "\<not> accepts_bids (status s)" and "outcomes s k = Some x"
    and "k \<notin> set (map f_key (fills s))"
  shows "closed_outcome x"
proof -
  have "window_bids s = [] \<and> ladder_bids (resting s) = []"
    using assms(2,3) by (simp add: shape_defs window_bids_def)
  then show ?thesis using booked_none [OF assms(1), of k] assms(4,5) by (simp add: live_keys_def)
qed

section \<open>Retries\<close>

text \<open>An outcome, once given, may be overwritten but is never forgotten.\<close>

definition remembers :: "machine \<Rightarrow> machine \<Rightarrow> bool" where
  "remembers m m' \<longleftrightarrow> dom (register_of m) \<subseteq> dom (register_of m')"

lemma remembers_refl [simp]: "remembers m m"
  by (simp add: remembers_def)

lemma remembers_trans: "remembers m m' \<Longrightarrow> remembers m' m'' \<Longrightarrow> remembers m m''"
  by (auto simp: remembers_def)

lemma remembers_fold:
  assumes "\<And>x m. remembers m (f x m)"
  shows "remembers m (fold f xs m)"
proof (induction xs arbitrary: m)
  case (Cons x xs)
  show ?case using remembers_trans [OF assms Cons] by simp
qed simp

lemma remembers_steps:
  "remembers m (turn_away_pending b m)" "remembers m (turn_away_resting r b' m)"
  "remembers m (settle_plain p ba m)" "remembers m (snd (reprice_fill p f m))"
  by (cases ba; auto simp: remembers_def turn_away_register settle_register reprice_register quote_at_def
      split: option.splits outcome.splits)+

lemma remembers_reprice: "remembers m (snd (reprice_fills p fs m))"
proof (induction fs arbitrary: m)
  case (Cons f fs)
  show ?case using remembers_trans [OF remembers_steps(4) Cons] by (simp only: reprice_fills_Cons snd_conv)
qed simp

lemma remembers_clear: "remembers (s, ev) (clear p (s, ev))"
proof -
  let ?s0 = "s\<lparr>status := status.Cleared, clearing_price := Some p\<rparr>"
  define m1 where "m1 = snd (reprice_fills p (fills s) (?s0, ev))"
  define m2 where "m2 = ((fst m1)\<lparr>fills := cleared_fills p (fills s), resting := fst (drain_all (resting s))\<rparr>, snd m1)"
  have "remembers (?s0, ev) m1" unfolding m1_def by (rule remembers_reprice)
  then have "remembers (s, ev) m2" by (simp add: remembers_def m2_def register_of_def)
  then have "remembers (s, ev) (fold (turn_away_resting Unfilled) (snd (drain_all (resting s))) m2)"
    by (rule remembers_trans) (rule remembers_fold, rule remembers_steps(2))
  moreover have "fst (clear p (s, ev)) = fst (fold (turn_away_resting Unfilled) (snd (drain_all (resting s))) m2)"
    by (simp add: clear_phases Let_def m1_def [symmetric] m2_def)
  ultimately show ?thesis by (simp add: remembers_def register_of_def)
qed

lemma remembers_flush:
  assumes "shape_at t s"
  shows "remembers (s, ev) (flush_window (s, ev))"
  using assms
proof (cases rule: flush_shape_cases [where ev = ev])
  case none
  then show ?thesis by simp
next
  case (live w allocs rem ex s1 e1)
  have "remembers (s\<lparr>window := None, supply_remaining := rem\<rparr>, ev) (s1, e1)"
    using remembers_fold [of "settle_plain (w_price w)", OF remembers_steps(3)] live(6) by metis
  then have "remembers (s, ev) (s1, e1)" by (simp add: remembers_def register_of_def)
  then show ?thesis
    using remembers_trans [OF _ remembers_clear [of s1 e1 "w_price w"]] by (cases ex) (simp_all add: live(8))
qed

lemma advanced_remembers:
  assumes "shape s" and "outcomes s k \<noteq> None"
  shows "outcomes (fst (advanced sq ts s)) k \<noteq> None"
proof -
  have "remembers (stamped sq ts s, []) (advanced sq ts s)"
    using remembers_flush [OF shape_stamped [OF assms(1)], of sq ts "[]"]
    by (simp add: advanced_def split: option.splits)
  moreover have "k \<in> dom (register_of (stamped sq ts s, []))"
    using assms(2) by (auto simp: register_of_def stamped_def)
  ultimately show ?thesis by (auto simp: remembers_def register_of_def)
qed

text \<open>A bid whose key already has an outcome is answered with it and does nothing else.\<close>

lemma resubmit_aux:
  assumes "shape s" and "outcomes s k \<noteq> None"
    and "apply_cmd sq ts (SubmitBid pt k q kind) s = Some (s', ev)"
  shows "\<exists>x. outcomes s' k = Some x \<and> s' = fst (advanced sq ts s) \<and>
     ev = snd (advanced sq ts s) @ [Duplicate k x]"
proof -
  obtain s1 e1 where a: "advanced sq ts s = (s1, e1)" by fastforce
  obtain x where "outcomes s1 k = Some x" using advanced_remembers [OF assms(1,2), of sq ts] a by auto
  then show ?thesis using assms(3) a by (auto simp: apply_cmd_Some)
qed

section \<open>Every bid is answered\<close>

text \<open>The events that answer a submission of key \<open>k\<close>.\<close>

fun answers :: "idempotency_key \<Rightarrow> event \<Rightarrow> bool" where
  "answers k (event.Queued k' pt q p) \<longleftrightarrow> k' = k"
| "answers k (Rested k' pt q p) \<longleftrightarrow> k' = k"
| "answers k (event.Rejected k' r) \<longleftrightarrow> k' = k"
| "answers k (Duplicate k' x) \<longleftrightarrow> k' = k"
| "answers k (RestingCancelled k' pt q) \<longleftrightarrow> k' = k"
| "answers k _ \<longleftrightarrow> False"


definition answered :: "idempotency_key \<Rightarrow> machine \<Rightarrow> bool" where
  "answered k m \<longleftrightarrow> outcomes (fst m) k \<noteq> None \<and> list_ex (answers k) (snd m)"

lemma answered_reject [simp]: "answered k (reject k r m)"
  by (cases m) (simp add: answered_def outcomes_set)

text \<open>Events are only ever appended.\<close>

definition extends :: "machine \<Rightarrow> machine \<Rightarrow> bool" where
  "extends m m' \<longleftrightarrow> (\<exists>e. snd m' = snd m @ e)"

lemma extends_refl [simp]: "extends m m"
  by (simp add: extends_def)

lemma extends_trans: "extends m m' \<Longrightarrow> extends m' m'' \<Longrightarrow> extends m m''"
  by (auto simp: extends_def)

lemma extends_fold:
  assumes "\<And>x m. extends m (f x m)"
  shows "extends m (fold f xs m)"
proof (induction xs arbitrary: m)
  case (Cons x xs)
  show ?case using extends_trans [OF assms Cons] by simp
qed simp

lemma extends_steps:
  "extends m (turn_away_pending b m)" "extends m (turn_away_resting r b' m)"
  "extends m (settle_plain p ba m)" "extends m (snd (reprice_fill p f m))"
  by (cases m; cases ba; auto simp: extends_def Let_def)+

lemma extends_reprice: "extends m (snd (reprice_fills p fs m))"
proof (induction fs arbitrary: m)
  case (Cons f fs)
  show ?case using extends_trans [OF extends_steps(4) Cons] by (simp only: reprice_fills_Cons snd_conv)
qed simp

lemma extends_clear: "extends (s, ev) (clear p (s, ev))"
proof -
  let ?s0 = "s\<lparr>status := status.Cleared, clearing_price := Some p\<rparr>"
  obtain fs s1 e1 where r: "reprice_fills p (fills s) (?s0, ev) = (fs, (s1, e1))" by (metis prod_cases3)
  obtain l bids where d: "drain_all (resting s1) = (l, bids)" by fastforce
  let ?m = "fold (turn_away_resting Unfilled) bids (s1\<lparr>fills := fs, resting := l\<rparr>, e1)"
  have "extends (?s0, ev) (s1, e1)" using extends_reprice [of "(?s0, ev)" p "fills s"] r by simp
  moreover have "extends (s1\<lparr>fills := fs, resting := l\<rparr>, e1) ?m"
    by (rule extends_fold) (rule extends_steps(2))
  moreover have "snd (clear p (s, ev)) = snd ?m @ [event.Cleared p (total_filled (fst ?m)) (supply_remaining (fst ?m))]"
    using r d by (simp add: clear.simps Let_def case_prod_beta)
  ultimately show ?thesis by (auto simp: extends_def)
qed

lemma extends_flush:
  assumes "shape_at t s"
  shows "extends (s, ev) (flush_window (s, ev))"
  using assms
proof (cases rule: flush_shape_cases [where ev = ev])
  case none
  then show ?thesis by simp
next
  case (live w allocs rem ex s1 e1)
  have "extends (s\<lparr>window := None, supply_remaining := rem\<rparr>, ev) (s1, e1)"
    using extends_fold [of "settle_plain (w_price w)", OF extends_steps(3)] live(6) by metis
  then have e: "extends (s, ev) (s1, e1)" by (simp add: extends_def)
  show ?thesis
    using e extends_trans [OF e extends_clear [of s1 e1 "w_price w"]] by (cases ex) (simp_all add: live(8))
qed

lemma answered_flush:
  assumes "answered k (s, ev)" and "shape_at t s"
  shows "answered k (flush_window (s, ev))"
proof -
  obtain e where "snd (flush_window (s, ev)) = ev @ e"
    using extends_flush [OF assms(2), of ev] by (auto simp: extends_def)
  moreover have "k \<in> dom (outcomes (fst (flush_window (s, ev))))"
    using remembers_flush [OF assms(2), of ev] assms(1)
    by (auto simp: remembers_def register_of_def answered_def)
  ultimately show ?thesis using assms(1) by (auto simp: answered_def)
qed

lemma on_bid_answered:
  assumes "shape s" and "cmd_width (SubmitBid pt k q kind)" and "last_seq s = Some sq"
  shows "answered k (on_bid sq (now s) pt k q kind (s, ev))"
proof (cases "outcomes s k")
  case (Some x)
  then show ?thesis by (simp add: answered_def)
next
  case None
  show ?thesis
  proof (cases "q = 0 \<or> \<not> accepts_bids (status s)")
    case True
    then show ?thesis using None by (auto simp: qty_is_zero_def simp del: reject.simps)
  next
    case False
    then have q: "q \<noteq> 0" and live: "accepts_bids (status s)" by auto
    show ?thesis
    proof (cases kind)
      case (Resting limit)
      obtain s1 ok where r: "reserve pt limit q s = (s1, ok)" by fastforce
      show ?thesis
        using None False Resting r
        by (auto simp: qty_is_zero_def answered_def outcomes_set Let_def)
    next
      case (Take x)
      obtain i p where wb: "window_bounds s (now s) = (i, p)" by fastforce
      obtain s1 ok where r: "reserve pt p q s = (s1, ok)" by fastforce
      let ?s2 = "set_outcome k (outcome.Queued q) (push_pending i p (take_bid sq pt k q p) s1)"
      let ?m2 = "(?s2, ev @ [event.Queued k pt q p])"
      have "shape ?s2" if "ok" "\<not> price_abs_diff (clock_price (config s) (now s)) x > price_tolerance (config s)"
        using that r Take assms(2,3)
        by (intro shape_micro [OF micro_take [OF refl None q live _ wb] _ assms(1)]) auto
      moreover have "answered k ?m2" by (simp add: answered_def outcomes_set)
      ultimately show ?thesis
        using None q live Take wb r answered_flush [of k ?s2 "ev @ [event.Queued k pt q p]"]
        by (auto simp: qty_is_zero_def take_bid_def [symmetric] Let_def simp del: reject.simps)
    qed
  qed
qed


lemma submit_answered_aux:
  assumes "shape s" and "u64_ok ts" and "cmd_width (SubmitBid pt k q kind)"
    and "apply_cmd sq ts (SubmitBid pt k q kind) s = Some m"
  shows "answered k m"
proof -
  obtain s1 e1 where a: "advanced sq ts s = (s1, e1)" by fastforce
  have "shape s1" "now s1 = max ts (now s)" "last_seq s1 = Some sq"
    using shape_advanced [OF assms(1,2), of sq] a by auto
  with on_bid_answered [OF _ assms(3), of s1 sq e1] assms(4) a show ?thesis
    by (simp add: apply_cmd_Some del: on_bid.simps)
qed

lemma cancel_resting_answered_aux:
  "apply_cmd sq ts (CancelResting pt k) s = Some (s', ev) \<Longrightarrow> list_ex (answers k) ev"
  by (cases "advanced sq ts s")
    (auto simp: apply_cmd_Some Let_def split: prod.splits option.splits)

end
