(* ===== verification/Engine.thy ===== *)
theory Engine
  imports Wal_Commit Wal_Replay Outcomes
begin

text \<open>
  The engine, \<open>crates/auction-engine\<close>: the auction clock (\<open>clock.rs\<close>), the ingress door
  (\<open>ingress.rs\<close>), the sequencing loop, its deadlines and its acknowledgements (\<open>engine.rs\<close>), and
  the standby (\<open>replication.rs\<close>).

  The threads share only queues, so each is a function on its own state: \<open>engine_step\<close> is one
  iteration of the engine thread, \<open>run_acks\<close> the acknowledgement thread on the commands it
  receives, \<open>standby_step\<close> one record of the standby. What the operating system and the
  other threads contribute to an iteration (the instant, whether a queue is empty or full) is an
  argument. Instants of the monotonic clock are integers, in nanoseconds.
\<close>

section \<open>The clock\<close>

text \<open>
  \<open>Instant::now() - elapsed\<close> panics when the platform cannot represent the result: \<open>clock_resume_checked\<close> on a platform whose
  first instant is \<open>earliest\<close>. The threads below use the value it has otherwise; it exists whenever the platform reaches
  \<open>u64::MAX\<close> nanoseconds back.
\<close>

definition clock_resume :: "int \<Rightarrow> nanos \<Rightarrow> int" where
  "clock_resume instant elapsed = instant - int elapsed"

definition clock_resume_checked :: "int \<Rightarrow> int \<Rightarrow> nanos \<Rightarrow> int option" where
  "clock_resume_checked earliest instant elapsed =
     (if instant - int elapsed < earliest then None else Some (clock_resume instant elapsed))"

lemma clock_resume_reaches:
  "earliest + int u64_max \<le> instant \<Longrightarrow> u64_ok elapsed \<Longrightarrow>
     clock_resume_checked earliest instant elapsed = Some (clock_resume instant elapsed)"
  by (simp add: clock_resume_checked_def u64_ok_def)

definition clock_start :: "int \<Rightarrow> int" where
  "clock_start instant = instant"

definition clock_now :: "int \<Rightarrow> int \<Rightarrow> nanos" where
  "clock_now origin instant = min (nat (instant - origin)) u64_max"

definition window_close :: "nanos \<Rightarrow> nanos \<Rightarrow> nanos option" where
  "window_close t width =
     (if width = 0 then None
      else let index = window_index t width
           in Some (u64_saturating_mul (u64_saturating_add index 1) width))"

section \<open>Ingress\<close>

text \<open>A submission: the command, and whether somebody waits for the reply.\<close>

record submission =
  sub_cmd :: command
  sub_reply :: bool

datatype shed = Busy reject_reason | EngineStopped string

text \<open>\<open>try_send\<close> on the bounded queue, and the two ways to offer a command, neither of which blocks.\<close>

definition offer :: "nat \<Rightarrow> bool \<Rightarrow> submission \<Rightarrow> submission list \<Rightarrow> shed + submission list" where
  "offer depth gone sub rx =
     (if gone then Inl (EngineStopped ''the ingress channel is closed'')
      else if length rx < depth then Inr (rx @ [sub])
      else Inl (Busy reject_reason.Busy))"

definition submit :: "nat \<Rightarrow> bool \<Rightarrow> command \<Rightarrow> submission list \<Rightarrow> shed + submission list" where
  "submit depth gone cmd rx = offer depth gone \<lparr>sub_cmd = cmd, sub_reply = True\<rparr> rx"

definition submit_detached :: "nat \<Rightarrow> bool \<Rightarrow> command \<Rightarrow> submission list \<Rightarrow> shed + submission list" where
  "submit_detached depth gone cmd rx = offer depth gone \<lparr>sub_cmd = cmd, sub_reply = False\<rparr> rx"

section \<open>Deadlines\<close>

definition deadline :: "auction_state \<Rightarrow> nanos option" where
  "deadline s =
     (if \<not> accepts_bids (status s) then None
      else let c = config s; t = now s;
               close_at = (case open_window_of s of None \<Rightarrow> None | Some _ \<Rightarrow> window_close t (batch_window c));
               trigger_at = (case next_trigger (resting s) of
                               None \<Rightarrow> None
                             | Some limit \<Rightarrow> time_to_reach (schedule c) limit);
               floor_at = time_to_reach (schedule c) (floor_price c);
               due = map (\<lambda>d. max d t) (List.map_filter id [close_at, trigger_at, floor_at])
           in if due = [] then None else Some (fold min (tl due) (hd due)))"

text \<open>
  One look of \<open>next\<close>: a queued command first, then a tick that is due, and otherwise wait and look
  again. \<open>rx\<close> is the queue; \<open>gone\<close> says that every sender has disconnected.
\<close>

datatype next_action = Work submission | DueTick | StopNow | Wait

definition next_poll :: "bool \<Rightarrow> bool \<Rightarrow> submission list \<Rightarrow> nanos \<Rightarrow> auction_state \<Rightarrow> next_action" where
  "next_poll stop gone rx t s =
     (case rx of
        sub # _ \<Rightarrow> Work sub
      | [] \<Rightarrow>
          if stop then StopNow
          else if gone then StopNow
          else (case deadline s of
                  None \<Rightarrow> Wait
                | Some due \<Rightarrow> if due \<le> t then DueTick else Wait))"

section \<open>The engine thread\<close>

record view =
  v_status :: status
  v_supply_remaining :: qty
  v_price :: price
  v_clearing_price :: "price option"
  v_elapsed :: nanos
  v_seq :: "seq option"

definition view_of :: "auction_state \<Rightarrow> view" where
  "view_of s = \<lparr>v_status = status s, v_supply_remaining = supply_remaining s, v_price = current_price s,
     v_clearing_price = clearing_price s, v_elapsed = now s, v_seq = last_seq s\<rparr>"

record pending_ack =
  pa_seq :: seq
  pa_events :: "event list"
  pa_reply :: bool
  pa_view :: "view option"

text \<open>
  \<open>e_sent\<close> is what is sent to the standby, if there is one, \<open>e_log\<close> what was handed to the committer, \<open>e_pending\<close>
  what was sent to the acknowledgement thread, \<open>e_snapshots\<close> what the snapshot thread accepted, in order.
\<close>

record engine =
  e_state :: auction_state
  e_next_seq :: seq
  e_origin :: int
  e_last_snapshot :: seq
  e_snapshotted_terminal :: bool
  e_running :: bool
  e_sent :: "log_record list"
  e_log :: "log_record list"
  e_pending :: "pending_ack list"
  e_snapshots :: "(seq \<times> auction_state) list"

record environment =
  env_instant :: int
  env_rx_empty :: bool
  env_commit_ok :: bool
  env_ack_ok :: bool
  env_snap_ok :: bool
  env_terminal_snap_ok :: bool

definition maybe_snapshot :: "u64 \<Rightarrow> environment \<Rightarrow> seq \<Rightarrow> engine \<Rightarrow> engine" where
  "maybe_snapshot every env sq e =
     (let since = u64_saturating_sub sq (e_last_snapshot e);
          due = since \<ge> every \<and> env_rx_empty env;
          overdue = since \<ge> u64_saturating_mul every 4
      in if \<not> (due \<or> overdue) then e
         else if env_snap_ok env
         then e\<lparr>e_snapshots := e_snapshots e @ [(sq, e_state e)], e_last_snapshot := sq\<rparr> else e)"

definition terminal_snapshot :: "environment \<Rightarrow> seq \<Rightarrow> engine \<Rightarrow> engine" where
  "terminal_snapshot env sq e =
     (if is_terminal (status (e_state e)) \<and> \<not> e_snapshotted_terminal e \<and> env_terminal_snap_ok env
      then e\<lparr>e_snapshots := e_snapshots e @ [(sq, e_state e)], e_last_snapshot := sq,
             e_snapshotted_terminal := True\<rparr>
      else e)"

text \<open>
  One iteration of \<open>run\<close> for a command; \<open>None\<close> is a panic, of \<open>Seq::next\<close> or of the sequence
  assertion in \<open>apply\<close>. The first send that fails ends the loop.
\<close>

definition engine_step :: "u64 \<Rightarrow> environment \<Rightarrow> submission \<Rightarrow> engine \<Rightarrow> engine option" where
  "engine_step every env sub e =
     (let sq = e_next_seq e; cmd = sub_cmd sub in
      case seq_next sq of
        None \<Rightarrow> None
      | Some next_sq \<Rightarrow>
          (let e = e\<lparr>e_next_seq := next_sq\<rparr>;
               e = (if cmd = Open \<and> status (e_state e) = Pending
                    then e\<lparr>e_origin := clock_resume (env_instant env) (now (e_state e))\<rparr> else e);
               ts = clock_now (e_origin e) (env_instant env)
           in case apply_cmd sq ts cmd (e_state e) of
                None \<Rightarrow> None
              | Some (s, events) \<Rightarrow>
                  (let e = e\<lparr>e_state := s\<rparr>;
                       record = \<lparr>lr_seq = sq, lr_ts = ts, lr_cmd = cmd\<rparr>;
                       e = e\<lparr>e_sent := e_sent e @ [record]\<rparr>
                   in if \<not> env_commit_ok env then Some (e\<lparr>e_running := False\<rparr>)
                      else let e = e\<lparr>e_log := e_log e @ [record]\<rparr>;
                               v = (if events \<noteq> [] then Some (view_of s) else None)
                           in if \<not> env_ack_ok env then Some (e\<lparr>e_running := False\<rparr>)
                              else let e = e\<lparr>e_pending := e_pending e @
                                             [\<lparr>pa_seq = sq, pa_events = events, pa_reply = sub_reply sub, pa_view = v\<rparr>]\<rparr>
                                   in Some (terminal_snapshot env sq (maybe_snapshot every env sq e)))))"

text \<open>The tick the engine submits to itself when a deadline has passed.\<close>

definition tick_submission :: submission where
  "tick_submission = \<lparr>sub_cmd = Tick, sub_reply = False\<rparr>"

text \<open>The engine \<open>open_inner\<close> starts on a recovered state.\<close>

definition engine_start :: "int \<Rightarrow> auction_state \<Rightarrow> seq \<Rightarrow> engine" where
  "engine_start instant s next_sq =
     \<lparr>e_state = s, e_next_seq = next_sq, e_origin = clock_resume instant (now s),
      e_last_snapshot = next_sq, e_snapshotted_terminal = False, e_running = True,
      e_sent = [], e_log = [], e_pending = [], e_snapshots = []\<rparr>"

section \<open>Acknowledgements\<close>

datatype replication_mode = Async | Sync

record ack_result =
  ar_acked :: "(seq \<times> event list) list"
  ar_broadcast :: "(seq \<times> event) list"
  ar_view :: view
  ar_replica_lost :: bool

text \<open>
  One command the log has made durable: wait for the standby if the mode asks for it, publish the view, broadcast
  the events, reply. \<open>confirms\<close> is what \<open>wait_confirmed\<close> returns for a sequence number, and \<open>replica\<close> whether there
  is a standby.
\<close>

definition ack_one :: "(seq \<Rightarrow> bool) \<Rightarrow> bool \<Rightarrow> replication_mode \<Rightarrow> pending_ack \<Rightarrow> ack_result \<Rightarrow> ack_result" where
  "ack_one confirms replica mode p a =
     (let lost = ar_replica_lost a \<or>
            (replica \<and> mode = Sync \<and> \<not> ar_replica_lost a \<and> \<not> confirms (pa_seq p))
      in a\<lparr>ar_replica_lost := lost,
           ar_view := (case pa_view p of None \<Rightarrow> ar_view a | Some v \<Rightarrow> v),
           ar_broadcast := ar_broadcast a @ map (Pair (pa_seq p)) (pa_events p),
           ar_acked := (if pa_reply p then ar_acked a @ [(pa_seq p, pa_events p)] else ar_acked a)\<rparr>)"

text \<open>
  \<open>run_acks\<close> over the commands in the order they were sent. \<open>is_durable\<close> is what \<open>wait_durable\<close> returns for a
  sequence number; the first that fails ends the thread.
\<close>

fun run_acks ::
  "(seq \<Rightarrow> bool) \<Rightarrow> (seq \<Rightarrow> bool) \<Rightarrow> bool \<Rightarrow> replication_mode \<Rightarrow> pending_ack list \<Rightarrow> ack_result \<Rightarrow> ack_result" where
  "run_acks is_durable confirms replica mode [] a = a"
| "run_acks is_durable confirms replica mode (p # ps) a =
     (if \<not> is_durable (pa_seq p) then a
      else run_acks is_durable confirms replica mode ps (ack_one confirms replica mode p a))"

section \<open>The standby\<close>

record standby =
  sb_state :: auction_state
  sb_mark :: "seq option"

definition standby_start :: "auction_state \<Rightarrow> standby" where
  "standby_start s = \<lparr>sb_state = s, sb_mark = None\<rparr>"

text \<open>One record of the standby's loop: apply it, then confirm it.\<close>

definition standby_step :: "log_record \<Rightarrow> standby \<Rightarrow> wal_error + standby" where
  "standby_step record sb =
     (case follow (sb_state sb) record of
        Inl e \<Rightarrow> Inl e
      | Inr s \<Rightarrow> Inr \<lparr>sb_state = s, sb_mark = replica_publish (lr_seq record) (sb_mark sb)\<rparr>)"

fun standby_run :: "log_record list \<Rightarrow> standby \<Rightarrow> wal_error + standby" where
  "standby_run [] sb = Inr sb"
| "standby_run (r # rs) sb =
     (case standby_step r sb of Inl e \<Rightarrow> Inl e | Inr sb' \<Rightarrow> standby_run rs sb')"


section \<open>Ticks and deadlines\<close>

lemma advanced_live:
  assumes "shape s" and "accepts_bids (status s)"
  shows "accepts_bids (status (fst (advanced sq ts s))) \<or> status (fst (advanced sq ts s)) = status.Cleared"
proof -
  have sh: "shape_at (now s) (stamped sq ts s)" using assms(1) by (rule shape_stamped)
  have "accepts_bids (status (stamped sq ts s))" using assms(2) by (simp add: stamped_def)
  with flush_status [OF sh this, of "[]"] show ?thesis
    by (auto simp: advanced_def split: option.splits)
qed

lemma apply_tick:
  assumes "apply_cmd sq ts Tick s = Some (s', ev)" and "shape s" and "u64_ok ts"
  obtains s1 e1 where "advanced sq ts s = (s1, e1)" "shape s1" "now s1 = max ts (now s)"
    "config s1 = config s" "s' = fst (on_tick (now s1) (s1, e1))"
proof -
  obtain s1 e1 where a: "advanced sq ts s = (s1, e1)" by fastforce
  have "shape s1" "now s1 = max ts (now s)" "config s1 = config s"
    using shape_advanced [OF assms(2,3), of sq] a by auto
  moreover have "s' = fst (on_tick (now s1) (s1, e1))"
    using assms(1) a calculation(2) by (simp add: apply_cmd_Some del: on_tick.simps) (metis fst_conv)
  ultimately show ?thesis using that a by blast
qed

lemma tick_live_after:
  assumes "apply_cmd sq ts Tick s = Some (s', ev)" and "shape s" and "u64_ok ts" and "accepts_bids (status s')"
  shows "\<not> at_floor (schedule (config s)) (max ts (now s)) \<and>
     (\<exists>l. ladder_ok l \<and> resting s' = fst (drain_triggered (clock_price (config s) (max ts (now s))) l))"
proof -
  obtain s1 e1 where p: "shape s1" "now s1 = max ts (now s)" "config s1 = config s"
    "s' = fst (on_tick (now s1) (s1, e1))"
    by (rule apply_tick [OF assms(1-3)])
  have "accepts_bids (status s1)"
  proof (rule ccontr)
    assume "\<not> accepts_bids (status s1)"
    then have "s' = s1" using p(4) by simp
    with \<open>\<not> _\<close> assms(4) show False by simp
  qed
  from on_tick_status [OF p(1) this, of e1] assms(4) p
  have "\<not> at_floor (schedule (config s)) (max ts (now s)) \<and>
      resting s' = fst (drain_triggered (clock_price (config s) (max ts (now s))) (resting s1))" by auto
  moreover have "ladder_ok (resting s1)" using p(1) by (simp add: shape_at_def ladder_shape_def)
  ultimately show ?thesis by blast
qed

lemma window_close_later:
  assumes "window_close t w = Some d" and "t < u64_max"
  shows "t < d"
proof -
  have w: "0 < w" and d: "d = u64_saturating_mul (u64_saturating_add (t div w) 1) w"
    using assms(1) by (auto simp: window_close_def window_index_def split: if_splits)
  have "t div w < u64_max" using assms(2) div_le_dividend [of t w] by linarith
  then have "d = min (t div w * w + w) u64_max"
    by (simp add: d u64_saturating_mul_def u64_saturating_add_def add_mult_distrib add.commute)
  moreover have "t < t div w * w + w"
    using mod_less_divisor [OF w, of t] div_mult_mod_eq [of t w] by linarith
  ultimately show ?thesis using assms(2) by simp
qed

lemma fold_min_less:
  fixes t :: nat
  shows "\<forall>x \<in> set (y # xs). t < x \<Longrightarrow> t < fold min xs y"
  by (induction xs arbitrary: y) auto

lemma deadline_in_future:
  assumes "shape s" and "span_ok (schedule (config s))" and "now s < u64_max" and "deadline s = Some d"
    and "\<not> at_floor (schedule (config s)) (now s)"
    and "\<And>p. next_trigger (resting s) = Some p \<Longrightarrow> p < clock_price (config s) (now s)"
  shows "now s < d"
proof -
  let ?c = "config s"
  have ok: "schedule_ok (schedule ?c) \<and> span_ok (schedule ?c)"
    using assms(1,2) by (simp add: shape_at_def config_ok_def)
  have alarm: "p < price_at (schedule ?c) (now s) \<Longrightarrow> time_to_reach (schedule ?c) p = Some x \<Longrightarrow> now s < x" for p x
    using alarm.alarm_in_future [OF ok _ _ assms(3)] by blast
  have "floor_price ?c < price_at (schedule ?c) (now s)"
    using clock.above_floor [of "schedule ?c" "now s"] ok assms(5)
    by (simp add: at_floor_def floor_price_def)
  then have fl: "time_to_reach (schedule ?c) (floor_price ?c) = Some x \<Longrightarrow> now s < x" for x
    using alarm by blast
  have tr: "next_trigger (resting s) = Some p \<Longrightarrow> time_to_reach (schedule ?c) p = Some x \<Longrightarrow> now s < x" for p x
    using alarm assms(6) by (auto simp: clock_price_def)
  have cl: "window_close (now s) (batch_window ?c) = Some x \<Longrightarrow> now s < x" for x
    using window_close_later assms(3) by blast
  define due where "due = map (\<lambda>d. max d (now s)) (List.map_filter id
     [case open_window_of s of None \<Rightarrow> None | Some _ \<Rightarrow> window_close (now s) (batch_window ?c),
      case next_trigger (resting s) of None \<Rightarrow> None | Some limit \<Rightarrow> time_to_reach (schedule ?c) limit,
      time_to_reach (schedule ?c) (floor_price ?c)])"
  have "\<forall>x \<in> set due. now s < x"
    using fl tr cl by (auto simp: due_def List.map_filter_def less_max_iff_disj split: option.splits if_splits)
  moreover have "due \<noteq> []" and "d = fold min (tl due) (hd due)"
    using assms(4) by (auto simp: deadline_def due_def Let_def split: if_splits)
  ultimately show ?thesis using fold_min_less [of "hd due" "tl due"] by simp
qed

lemma tick_deadline_later:
  assumes "shape s" and "span_ok (schedule (config s))" and "u64_ok ts"
    and "apply_cmd sq ts Tick s = Some (s', ev)" and "accepts_bids (status s')" and "now s' < u64_max"
    and "deadline s' = Some d"
  shows "now s' < d"
proof -
  have w: "shape s'" "config s' = config s" "now s' = max ts (now s)"
    using shape_apply [OF assms(4,1,3), unfolded cmd_width.simps, OF TrueI] by blast+
  obtain l where nf: "\<not> at_floor (schedule (config s)) (max ts (now s))" and l: "ladder_ok l"
    "resting s' = fst (drain_triggered (clock_price (config s) (max ts (now s))) l)"
    using tick_live_after [OF assms(4,1,3,5)] by blast
  have "p < clock_price (config s') (now s')" if "next_trigger (resting s') = Some p" for p
    using ladder.best_after_fire [OF l(1), of "clock_price (config s) (max ts (now s))" p] that l(2) w
    by simp
  moreover have "\<not> at_floor (schedule (config s')) (now s')" using nf w by simp
  ultimately show ?thesis using deadline_in_future [OF w(1) _ assms(6,7)] assms(2) w(2) by simp
qed

lemma fold_min_le:
  fixes y :: nat
  shows "x \<in> set (y # xs) \<Longrightarrow> fold min xs y \<le> x"
proof (induction xs arbitrary: x y)
  case (Cons z xs)
  have "fold min xs (min z y) \<le> min z y" by (rule Cons.IH) simp
  moreover have "fold min xs (min z y) \<le> x" if "x \<in> set xs" using that by (intro Cons.IH) simp
  ultimately show ?case using Cons.prems by auto
qed simp

section \<open>The log is the state\<close>

text \<open>What the records of a log tell those who wait for them: the events of each, in order.\<close>

fun told :: "log_record list \<Rightarrow> auction_state \<Rightarrow> (seq \<times> event list) list" where
  "told [] s = []"
| "told (r # rs) s =
     (case apply_cmd (lr_seq r) (lr_ts r) (lr_cmd r) s of
        None \<Rightarrow> []
      | Some (s', ev) \<Rightarrow> (lr_seq r, ev) # told rs s')"

lemma told_append:
  "run_records rs s = Some (s', ev) \<Longrightarrow> told (rs @ rs') s = told rs s @ told rs' s'"
  by (induction rs arbitrary: s ev) (auto simp: entry_of_def split: option.splits)

lemma take_told: "take k (told rs s) = told (take k rs) s"
  by (induction rs arbitrary: k s) (auto simp: take_Cons split: nat.splits option.splits)

lemma told_events: "run_records rs s = Some (s', ev) \<Longrightarrow> ev = concat (map snd (told rs s))"
  by (induction rs arbitrary: s ev) (auto simp: entry_of_def split: option.splits)

lemma told_seqs: "run_records rs s = Some (s', ev) \<Longrightarrow> map fst (told rs s) = map lr_seq rs"
  by (induction rs arbitrary: s ev) (auto simp: entry_of_def split: option.splits)

lemma told_prefix: "prefix (told rs s) (told (rs @ rs') s)"
  by (induction rs arbitrary: s) (auto split: option.splits)

text \<open>
  An engine that was started on the state \<open>s0\<close> after the log \<open>rs\<close>: its state is what the records sent give, the log and
  what is waiting to be acknowledged are what was sent, up to the failure that stopped the engine if there was one,
  and its snapshots are snapshots of the log.
\<close>

definition engine_consistent :: "auction_config \<Rightarrow> log_record list \<Rightarrow> auction_state \<Rightarrow> engine \<Rightarrow> bool" where
  "engine_consistent c rs s0 e \<longleftrightarrow>
     (\<exists>ev0. run_records rs (new_state c) = Some (s0, ev0)) \<and>
     (\<exists>ev. run_records (e_sent e) s0 = Some (e_state e, ev)) \<and> gapless (rs @ e_sent e) \<and>
     resume_at (last_seq_of (rs @ e_sent e)) = Some (e_next_seq e) \<and>
     prefix (e_log e) (e_sent e) \<and> (e_running e \<longrightarrow> e_log e = e_sent e) \<and>
     prefix (map (\<lambda>p. (pa_seq p, pa_events p)) (e_pending e)) (told (e_log e) s0) \<and>
     (e_running e \<longrightarrow> map (\<lambda>p. (pa_seq p, pa_events p)) (e_pending e) = told (e_log e) s0) \<and>
     (\<forall>x \<in> set (e_snapshots e). snapshot_of c (rs @ e_log e) \<lparr>sn_seq = fst x, sn_state = snd x\<rparr>)"

lemma snapshot_of_append: "snapshot_of c rs sn \<Longrightarrow> snapshot_of c (rs @ rs') sn"
  unfolding snapshot_of_def by (elim exE conjE) (rule_tac x = k in exI, auto simp: nth_append)

lemma snapshot_of_last:
  assumes "run_records (rs @ [r]) (new_state c) = Some (s, ev)"
  shows "snapshot_of c (rs @ [r]) \<lparr>sn_seq = lr_seq r, sn_state = s\<rparr>"
  unfolding snapshot_of_def using assms by (intro exI [of _ "length rs + 1"] exI [of _ ev]) simp

lemma run_snoc:
  assumes "run_records rs s = Some (s1, e1)" and "apply_cmd (lr_seq r) (lr_ts r) (lr_cmd r) s1 = Some (s2, e2)"
  shows "run_records (rs @ [r]) s = Some (s2, e1 @ e2)"
  using assms by (simp add: run_append entry_of_def)

lemma terminal_snapshot_frame:
  "e_log (terminal_snapshot env sq e) = e_log e" "e_state (terminal_snapshot env sq e) = e_state e"
  "e_sent (terminal_snapshot env sq e) = e_sent e" "e_pending (terminal_snapshot env sq e) = e_pending e"
  "e_next_seq (terminal_snapshot env sq e) = e_next_seq e" "e_running (terminal_snapshot env sq e) = e_running e"
  "set (e_snapshots (terminal_snapshot env sq e)) \<subseteq> insert (sq, e_state e) (set (e_snapshots e))"
  "prefix (e_snapshots e) (e_snapshots (terminal_snapshot env sq e))"
  by (auto simp: terminal_snapshot_def)

lemma maybe_snapshot_frame:
  "e_log (maybe_snapshot every env sq e) = e_log e" "e_state (maybe_snapshot every env sq e) = e_state e"
  "e_sent (maybe_snapshot every env sq e) = e_sent e" "e_pending (maybe_snapshot every env sq e) = e_pending e"
  "e_next_seq (maybe_snapshot every env sq e) = e_next_seq e" "e_running (maybe_snapshot every env sq e) = e_running e"
  "set (e_snapshots (maybe_snapshot every env sq e)) \<subseteq> insert (sq, e_state e) (set (e_snapshots e))"
  "prefix (e_snapshots e) (e_snapshots (maybe_snapshot every env sq e))"
  by (auto simp: maybe_snapshot_def Let_def)

lemmas snapshot_frames = terminal_snapshot_frame(1-6) maybe_snapshot_frame(1-6)

lemma both_snapshots:
  "set (e_snapshots (terminal_snapshot env sq (maybe_snapshot every env sq e))) \<subseteq>
     insert (sq, e_state e) (set (e_snapshots e))"
  "prefix (e_snapshots e) (e_snapshots (terminal_snapshot env sq (maybe_snapshot every env sq e)))"
  using terminal_snapshot_frame(7,8) [where env = env and sq = sq and e = "maybe_snapshot every env sq e"]
    maybe_snapshot_frame(7,8) [where every = every and env = env and sq = sq and e = e] prefix_order.trans
  by (auto simp: maybe_snapshot_frame(2))

text \<open>An iteration sends the record, logs it unless the committer is gone, and queues the reply unless that fails.\<close>

lemma engine_step_effect:
  assumes "engine_step every env sub e = Some e'"
  obtains ts events r where
    "apply_cmd (e_next_seq e) ts (sub_cmd sub) (e_state e) = Some (e_state e', events)" "u64_ok ts"
    "r = \<lparr>lr_seq = e_next_seq e, lr_ts = ts, lr_cmd = sub_cmd sub\<rparr>" "e_sent e' = e_sent e @ [r]"
    "seq_next (e_next_seq e) = Some (e_next_seq e')"
    "e_log e' = (if env_commit_ok env then e_log e @ [r] else e_log e)"
    "if env_commit_ok env \<and> env_ack_ok env
     then e_running e' = e_running e \<and> (\<exists>v. e_pending e' = e_pending e @
            [\<lparr>pa_seq = e_next_seq e, pa_events = events, pa_reply = sub_reply sub, pa_view = v\<rparr>])
     else \<not> e_running e' \<and> e_pending e' = e_pending e \<and> e_snapshots e' = e_snapshots e"
    "set (e_snapshots e') \<subseteq> insert (e_next_seq e, e_state e') (set (e_snapshots e))"
    "prefix (e_snapshots e) (e_snapshots e')"
proof -
  let ?e = "if sub_cmd sub = Open \<and> status (e_state e) = Pending
    then e\<lparr>e_origin := clock_resume (env_instant env) (now (e_state e))\<rparr> else e"
  let ?ts = "clock_now (e_origin ?e) (env_instant env)"
  obtain nx s events where n: "seq_next (e_next_seq e) = Some nx"
    and a: "apply_cmd (e_next_seq e) ?ts (sub_cmd sub) (e_state e) = Some (s, events)"
    using assms by (auto simp: engine_step_def Let_def split: option.splits if_splits)
  define r where "r = \<lparr>lr_seq = e_next_seq e, lr_ts = ?ts, lr_cmd = sub_cmd sub\<rparr>"
  have ts: "u64_ok ?ts" by (simp add: clock_now_def u64_ok_def)
  show ?thesis
  proof (cases "env_commit_ok env \<and> env_ack_ok env")
    case True
    define p where "p = \<lparr>pa_seq = e_next_seq e, pa_events = events, pa_reply = sub_reply sub,
      pa_view = if events \<noteq> [] then Some (view_of s) else None\<rparr>"
    obtain e1 where e1: "e' = terminal_snapshot env (e_next_seq e) (maybe_snapshot every env (e_next_seq e) e1)"
      "e_state e1 = s" "e_sent e1 = e_sent e @ [r]" "e_log e1 = e_log e @ [r]" "e_next_seq e1 = nx"
      "e_snapshots e1 = e_snapshots e" "e_pending e1 = e_pending e @ [p]" "e_running e1 = e_running e"
      using assms n a True by (auto simp: engine_step_def Let_def r_def p_def split: if_splits)
    have "set (e_snapshots e') \<subseteq> insert (e_next_seq e, e_state e') (set (e_snapshots e))"
      "prefix (e_snapshots e) (e_snapshots e')"
      using both_snapshots [where env = env and sq = "e_next_seq e" and every = every and e = e1] e1(1,2,6) by (simp_all add: snapshot_frames)
    then show ?thesis
      using that [of ?ts events r] n a ts True e1 by (simp add: snapshot_frames r_def p_def)
  next
    case False
    then have "e_state e' = s \<and> e_sent e' = e_sent e @ [r] \<and> e_next_seq e' = nx \<and> \<not> e_running e' \<and>
        e_log e' = (if env_commit_ok env then e_log e @ [r] else e_log e) \<and> e_pending e' = e_pending e \<and>
        e_snapshots e' = e_snapshots e"
      using assms n a by (auto simp: engine_step_def Let_def r_def split: if_splits)
    then show ?thesis using that [of ?ts events r] n a ts False r_def by auto
  qed
qed

lemma engine_step_consistent:
  assumes "engine_consistent c rs s0 e" and "engine_step every env sub e = Some e'" and "e_running e"
  shows "engine_consistent c rs s0 e'"
proof -
  obtain ts events r where a: "apply_cmd (e_next_seq e) ts (sub_cmd sub) (e_state e) = Some (e_state e', events)"
    and r: "r = \<lparr>lr_seq = e_next_seq e, lr_ts = ts, lr_cmd = sub_cmd sub\<rparr>" and sent: "e_sent e' = e_sent e @ [r]"
    and n: "seq_next (e_next_seq e) = Some (e_next_seq e')"
    and l: "e_log e' = (if env_commit_ok env then e_log e @ [r] else e_log e)"
    and q: "if env_commit_ok env \<and> env_ack_ok env
     then e_running e' = e_running e \<and> (\<exists>v. e_pending e' = e_pending e @
            [\<lparr>pa_seq = e_next_seq e, pa_events = events, pa_reply = sub_reply sub, pa_view = v\<rparr>])
     else \<not> e_running e' \<and> e_pending e' = e_pending e \<and> e_snapshots e' = e_snapshots e"
    and sn: "set (e_snapshots e') \<subseteq> insert (e_next_seq e, e_state e') (set (e_snapshots e))"
    by (rule engine_step_effect [OF assms(2)])
  let ?tell = "map (\<lambda>p. (pa_seq p, pa_events p))"
  obtain ev0 ev where run0: "run_records rs (new_state c) = Some (s0, ev0)"
    and run: "run_records (e_sent e) s0 = Some (e_state e, ev)" and g: "gapless (rs @ e_sent e)"
    and nx: "resume_at (last_seq_of (rs @ e_sent e)) = Some (e_next_seq e)" and log: "e_log e = e_sent e"
    and pend: "?tell (e_pending e) = told (e_log e) s0"
    and sns: "\<forall>x \<in> set (e_snapshots e). snapshot_of c (rs @ e_log e) \<lparr>sn_seq = fst x, sn_state = snd x\<rparr>"
    using assms(1,3) by (auto simp: engine_consistent_def)
  have run': "run_records (e_sent e') s0 = Some (e_state e', ev @ events)"
    unfolding sent using run a by (intro run_snoc) (simp_all add: r)
  then have full: "run_records ((rs @ e_sent e) @ [r]) (new_state c) = Some (e_state e', ev0 @ ev @ events)"
    using run0 unfolding sent append.assoc map_append run_append by (simp add: run_append)
  have "gapless ((rs @ e_sent e) @ [r])"
    using g nx by (intro gapless_snoc) (auto simp: resume_at_def r split: option.splits)
  moreover have "resume_at (last_seq_of ((rs @ e_sent e) @ [r])) = Some (e_next_seq e')"
    using n by (simp add: resume_at_def last_seq_of_def r)
  moreover have "told (e_log e @ [r]) s0 = told (e_log e) s0 @ [(e_next_seq e, events)]"
    using told_append [OF run, of "[r]"] a by (simp add: log r)
  moreover have "\<forall>x \<in> set (e_snapshots e'). snapshot_of c (rs @ e_log e') \<lparr>sn_seq = fst x, sn_state = snd x\<rparr>"
  proof
    fix x assume x: "x \<in> set (e_snapshots e')"
    have old: "snapshot_of c (rs @ e_log e') \<lparr>sn_seq = fst x, sn_state = snd x\<rparr>" if "x \<in> set (e_snapshots e)"
      using snapshot_of_append [of c "rs @ e_log e" _ "[r]"] sns that l by auto
    show "snapshot_of c (rs @ e_log e') \<lparr>sn_seq = fst x, sn_state = snd x\<rparr>"
    proof (cases "env_commit_ok env \<and> env_ack_ok env")
      case True
      have "snapshot_of c (rs @ e_log e') \<lparr>sn_seq = e_next_seq e, sn_state = e_state e'\<rparr>"
        using snapshot_of_last [OF full] True l log by (simp add: r)
      then show ?thesis using old sn x by auto
    next
      case False
      then show ?thesis using q x old by simp
    qed
  qed
  ultimately show ?thesis
    using run0 run' l q log pend sent unfolding engine_consistent_def by (auto split: if_splits)
qed

text \<open>A run of the engine thread: iterations until a panic or a failed send.\<close>

fun engine_run :: "u64 \<Rightarrow> (environment \<times> submission) list \<Rightarrow> engine \<Rightarrow> engine option" where
  "engine_run every [] e = Some e"
| "engine_run every ((env, sub) # steps) e =
     (case engine_step every env sub e of
        None \<Rightarrow> None
      | Some e' \<Rightarrow> if e_running e' then engine_run every steps e' else Some e')"

lemma engine_run_consistent:
  "engine_run every steps e = Some e' \<Longrightarrow> e_running e \<Longrightarrow> engine_consistent c rs s0 e \<Longrightarrow> engine_consistent c rs s0 e'"
proof (induction steps arbitrary: e)
  case (Cons x steps)
  obtain env sub where x: "x = (env, sub)" by (cases x)
  obtain e1 where e1: "engine_step every env sub e = Some e1"
    and r: "if e_running e1 then engine_run every steps e1 = Some e' else e' = e1"
    using Cons.prems(1) by (auto simp: x split: option.splits if_splits)
  then show ?case using Cons engine_step_consistent [OF Cons.prems(3) e1] by (auto split: if_splits)
qed simp

lemma engine_start_consistent:
  assumes "run_records rs (new_state c) = Some (s, ev)" and "gapless rs" and "resume_at (last_seq_of rs) = Some n"
  shows "engine_consistent c rs s (engine_start instant s n)"
  using assms by (simp add: engine_consistent_def engine_start_def)

text \<open>The same for a log that was recovered as its state.\<close>

lemma engine_log_runs:
  assumes "engine_consistent c rs s0 e"
  shows "\<exists>s ev. run_records (rs @ e_log e) (new_state c) = Some (s, ev)"
    and "\<exists>ev. run_records (rs @ e_sent e) (new_state c) = Some (e_state e, ev)" and "gapless (rs @ e_log e)"
proof -
  obtain rest where rest: "e_sent e = e_log e @ rest" using assms by (auto simp: engine_consistent_def prefix_def)
  show all: "\<exists>ev. run_records (rs @ e_sent e) (new_state c) = Some (e_state e, ev)"
    using assms by (auto simp: engine_consistent_def run_append)
  then obtain ev where "run_records ((rs @ e_log e) @ rest) (new_state c) = Some (e_state e, ev)" by (auto simp: rest)
  then show "\<exists>s ev. run_records (rs @ e_log e) (new_state c) = Some (s, ev)"
    unfolding map_append [of _ "rs @ e_log e"] run_append by (auto split: option.splits)
  have "gapless ((rs @ e_log e) @ rest)" using assms by (simp add: engine_consistent_def rest)
  then show "gapless (rs @ e_log e)" unfolding gapless_append [of "rs @ e_log e"] by blast
qed

section \<open>The standby follows\<close>

lemma standby_run_state:
  assumes "run_records rs (sb_state sb) = Some (s, ev)"
  shows "\<exists>m. standby_run rs sb = Inr \<lparr>sb_state = s, sb_mark = m\<rparr> \<and>
     (\<forall>t. replica_confirmed t m \<longleftrightarrow> replica_confirmed t (sb_mark sb) \<or> (\<exists>r \<in> set rs. t \<le> lr_seq r))"
  using assms
proof (induction rs arbitrary: sb ev)
  case Nil
  then show ?case by (intro exI [of _ "sb_mark sb"]) simp
next
  case (Cons r rs)
  obtain s1 e1 e2 where a: "apply_cmd (lr_seq r) (lr_ts r) (lr_cmd r) (sb_state sb) = Some (s1, e1)"
    and run: "run_records rs s1 = Some (s, e2)"
    by (rule run_Cons_Some [OF Cons.prems])
  let ?sb = "\<lparr>sb_state = s1, sb_mark = replica_publish (lr_seq r) (sb_mark sb)\<rparr>"
  have st: "standby_step r sb = Inr ?sb" by (simp add: standby_step_def follow_def a)
  have pub: "replica_confirmed t (replica_publish (lr_seq r) (sb_mark sb)) \<longleftrightarrow>
      replica_confirmed t (sb_mark sb) \<or> t \<le> lr_seq r" for t
    by (auto simp: replica_confirmed_def replica_publish_def split: option.splits)
  have "\<exists>m. standby_run rs ?sb = Inr \<lparr>sb_state = s, sb_mark = m\<rparr> \<and>
     (\<forall>t. replica_confirmed t m \<longleftrightarrow> replica_confirmed t (sb_mark ?sb) \<or> (\<exists>r \<in> set rs. t \<le> lr_seq r))"
    using run by (intro Cons.IH) simp
  then show ?case using st pub by auto
qed

section \<open>Acknowledgement order\<close>

lemma ack_one_fields:
  "ar_acked (ack_one conf replica mode p a) = ar_acked a @ (if pa_reply p then [(pa_seq p, pa_events p)] else [])"
  "ar_broadcast (ack_one conf replica mode p a) = ar_broadcast a @ map (Pair (pa_seq p)) (pa_events p)"
  "ar_replica_lost (ack_one conf replica mode p a) \<longleftrightarrow>
     ar_replica_lost a \<or> replica \<and> mode = Sync \<and> \<not> conf (pa_seq p)"
  by (auto simp: ack_one_def Let_def)

lemma run_acks_lost: "ar_replica_lost a \<Longrightarrow> ar_replica_lost (run_acks dur conf replica mode ps a)"
  by (induction ps arbitrary: a) (simp_all add: ack_one_fields)

lemma run_acks_spec:
  "\<exists>k. ar_acked (run_acks dur conf replica mode ps a) =
       ar_acked a @ map (\<lambda>p. (pa_seq p, pa_events p)) (filter pa_reply (take k ps)) \<and>
     ar_broadcast (run_acks dur conf replica mode ps a) =
       ar_broadcast a @ concat (map (\<lambda>p. map (Pair (pa_seq p)) (pa_events p)) (take k ps)) \<and>
     (\<forall>p \<in> set (take k ps). dur (pa_seq p)) \<and> (k < length ps \<longrightarrow> \<not> dur (pa_seq (ps ! k))) \<and>
     (replica \<and> mode = Sync \<and> \<not> ar_replica_lost (run_acks dur conf replica mode ps a) \<longrightarrow>
        (\<forall>p \<in> set (take k ps). conf (pa_seq p)))"
proof (induction ps arbitrary: a)
  case Nil
  show ?case by simp
next
  case (Cons p ps)
  show ?case
  proof (cases "dur (pa_seq p)")
    case False
    then show ?thesis by (intro exI [of _ 0]) simp
  next
    case True
    define a1 where "a1 = ack_one conf replica mode p a"
    have a1: "run_acks dur conf replica mode (p # ps) a = run_acks dur conf replica mode ps a1"
      using True by (simp add: a1_def)
    have conf: "conf (pa_seq p)"
      if "replica \<and> mode = Sync \<and> \<not> ar_replica_lost (run_acks dur conf replica mode ps a1)"
    proof -
      have "\<not> ar_replica_lost a1" using run_acks_lost that by blast
      then show ?thesis using that by (simp add: a1_def ack_one_fields)
    qed
    obtain k where k: "ar_acked (run_acks dur conf replica mode ps a1) =
         ar_acked a1 @ map (\<lambda>p. (pa_seq p, pa_events p)) (filter pa_reply (take k ps))"
       "ar_broadcast (run_acks dur conf replica mode ps a1) =
         ar_broadcast a1 @ concat (map (\<lambda>p. map (Pair (pa_seq p)) (pa_events p)) (take k ps))"
       "\<forall>p \<in> set (take k ps). dur (pa_seq p)" "k < length ps \<longrightarrow> \<not> dur (pa_seq (ps ! k))"
       "replica \<and> mode = Sync \<and> \<not> ar_replica_lost (run_acks dur conf replica mode ps a1) \<longrightarrow>
        (\<forall>p \<in> set (take k ps). conf (pa_seq p))"
      using Cons [of a1] by blast
    show ?thesis
      unfolding a1 using k conf True
      by (intro exI [of _ "Suc k"], intro conjI) (simp_all add: a1_def ack_one_fields, blast)
  qed
qed

end
