(* ===== verification/System.thy ===== *)
theory System
  imports Engine
begin

text \<open>
  The running system: the engine thread, the commit thread, the acknowledgement thread, the snapshot thread and the
  standby of \<open>Auction::open_inner\<close> (\<open>crates/auction-engine/src/engine.rs\<close>), with their channels, as one step relation;
  power losses and restarts.

  Every channel is first in, first out, so what a thread has still to receive is what was sent after what it has
  already received: the positions \<open>sy_ack_pos\<close>, \<open>sy_snap_pos\<close> and \<open>sy_replica_pos\<close> say how far each one is. The steps
  interleave freely. The invariant says that the log, the engine's state, the acknowledgements, the snapshots and
  the standby all tell the same story; from it follows that a restart after a power loss at any moment goes on from the
  state the surviving log gives, and that nothing a participant was ever told is taken back.
\<close>

section \<open>Shape of recovered states\<close>

lemma run_records_facts:
  assumes "config_ok c" and "log_width (map entry_of rs)" and "run_records rs (new_state c) = Some (s, ev)"
  shows "shape s \<and> config s = c \<and> last_seq s = last_seq_of rs"
  using assms(2,3)
proof (induction rs arbitrary: s ev rule: rev_induct)
  case Nil
  then show ?case using shape_new [OF assms(1)] by (auto simp: new_state_def last_seq_of_def)
next
  case (snoc r rs)
  obtain s1 e1 e2 where s1: "run_records rs (new_state c) = Some (s1, e1)"
    and a: "apply_cmd (lr_seq r) (lr_ts r) (lr_cmd r) s1 = Some (s, e2)"
    using snoc.prems(2) by (auto simp: run_append entry_of_def [of r] split: option.splits)
  have w: "log_width (map entry_of rs)" "u64_ok (lr_ts r)" "cmd_width (lr_cmd r)"
    using snoc.prems(1) by (simp_all add: entry_of_def [of r])
  have s1_facts: "shape s1" "config s1 = c" using snoc.IH [OF w(1) s1] by blast+
  have "shape s \<and> config s = config s1 \<and> now s = max (lr_ts r) (now s1) \<and> last_seq s = Some (lr_seq r)"
    by (rule shape_apply [OF a s1_facts(1) w(2,3)])
  with s1_facts(2) show ?case by (auto simp: last_seq_of_def)
qed

lemma resume_prefix:
  assumes "gapless rs" and "resume_at (last_seq_of rs) = Some n" and "prefix kept rs"
  shows "\<exists>n'. resume_at (last_seq_of kept) = Some n'"
proof -
  obtain rest where rest: "rs = kept @ rest" using assms(3) by (auto simp: prefix_def)
  show ?thesis
  proof (cases "kept = [] \<or> rest = []")
    case True
    then show ?thesis using assms(2) rest by (auto simp: last_seq_of_def resume_at_def)
  next
    case False
    then show ?thesis using assms(1) unfolding rest gapless_append by (auto simp: last_seq_of_def resume_at_def)
  qed
qed

section \<open>State\<close>

record engine_options =
  queue_depth :: nat
  wal_opts :: wal_options
  snapshot_every :: u64
  spin_ahead :: nanos
  replication :: replication_mode
  replica_timeout :: nanos

definition default_engine_options :: engine_options where
  "default_engine_options = \<lparr>queue_depth = 16384, wal_opts = default_wal_options, snapshot_every = 50000,
     spin_ahead = 250000, replication = Async, replica_timeout = from_secs 2\<rparr>"

text \<open>
  \<open>sy_base\<close> is what the log held when it was opened, \<open>sy_files\<close> every file that has been in the directory since, and
  \<open>sy_promised\<close> every acknowledgement ever sent, also before a restart; \<open>sy_aside\<close> are the snapshots that a restart found to
  be ahead of the log and did not use. None of the four influences what the system does.
\<close>

record system =
  sy_options :: engine_options
  sy_base :: "log_record list"
  sy_engine :: engine
  sy_rx :: "submission list"
  sy_stop :: bool
  sy_commit :: commit_sys
  sy_acks :: ack_result
  sy_ack_pos :: nat
  sy_ack_alive :: bool
  sy_snap_pos :: nat
  sy_dir :: directory
  sy_files :: directory
  sy_replica :: "standby option"
  sy_replica_pos :: nat
  sy_promised :: "(seq \<times> event list) list"
  sy_aside :: directory

section \<open>Opening\<close>

text \<open>\<open>open_inner\<close> on a recovered state and an opened log.\<close>

definition system_start ::
  "engine_options \<Rightarrow> int \<Rightarrow> standby option \<Rightarrow> directory \<Rightarrow> log_record list \<Rightarrow> auction_state \<Rightarrow> seq \<Rightarrow> wal \<Rightarrow> system" where
  "system_start options instant replica dir base s next_sq w =
     \<lparr>sy_options = options, sy_base = base, sy_engine = engine_start instant s next_sq, sy_rx = [], sy_stop = False,
      sy_commit = spawn (wal_opts options) w base,
      sy_acks = \<lparr>ar_acked = [], ar_broadcast = [], ar_view = view_of s, ar_replica_lost = False\<rparr>,
      sy_ack_pos = 0, sy_ack_alive = True, sy_snap_pos = 0, sy_dir = dir, sy_files = dir,
      sy_replica = replica, sy_replica_pos = 0, sy_promised = [], sy_aside = []\<rparr>"

definition log_contents :: "decoder \<Rightarrow> checksum \<Rightarrow> log_dir \<Rightarrow> log_record list" where
  "log_contents dec crc d = (case read_all dec crc (files d) of Inl e \<Rightarrow> [] | Inr rs \<Rightarrow> rs)"

text \<open>
  \<open>open_inner\<close>: recover, check that the log is this auction's, open the log, start the threads. \<open>on_disk\<close> is how much of
  the last segment is on stable storage.
\<close>

definition open_inner ::
  "json_reader \<Rightarrow> json_writer \<Rightarrow> decoder \<Rightarrow> checksum \<Rightarrow> snapshot_decoder \<Rightarrow> engine_options \<Rightarrow> int \<Rightarrow> standby option \<Rightarrow> nat \<Rightarrow>
   auction_config \<Rightarrow> log_dir \<Rightarrow> directory \<Rightarrow> wal_error + (log_dir \<times> system)" where
  "open_inner from_json to_json dec crc sdec options instant replica on_disk c d dir =
     (case (case recover from_json dec crc sdec d dir of
              Inr r \<Rightarrow> if config (rec_state r) \<noteq> c then Inl ManifestMismatch else Inr (rec_state r, rec_next_seq r)
            | Inl NoManifest \<Rightarrow> Inr (new_state c, seq_start)
            | Inl e \<Rightarrow> Inl e) of
        Inl e \<Rightarrow> Inl e
      | Inr (s, next_sq) \<Rightarrow>
          (case wal_open from_json to_json dec crc c (segment_limit (wal_opts options)) on_disk d of
             Inl e \<Rightarrow> Inl e
           | Inr (d', w) \<Rightarrow>
               Inr (d', system_start options instant replica dir (log_contents dec crc d) s next_sq w)))"

section \<open>Steps\<close>

text \<open>What \<open>run\<close> takes next: a submission from the queue, or the tick it owes; and the queue after it.\<close>

definition next_submission :: "nanos \<Rightarrow> system \<Rightarrow> (submission \<times> submission list) option" where
  "next_submission t sy =
     (case next_poll (sy_stop sy) False (sy_rx sy) t (e_state (sy_engine sy)) of
        Work sub \<Rightarrow> Some (sub, tl (sy_rx sy))
      | DueTick \<Rightarrow> Some (tick_submission, sy_rx sy)
      | _ \<Rightarrow> None)"

text \<open>The record the engine logged in an iteration goes into the committer's channel.\<close>

definition hand_over :: "engine \<Rightarrow> engine \<Rightarrow> commit_sys \<Rightarrow> commit_sys" where
  "hand_over e e' cs =
     (case drop (length (e_log e)) (e_log e') of
        [] \<Rightarrow> cs
      | r # _ \<Rightarrow> (case submit_record r cs of Inl err \<Rightarrow> cs | Inr cs' \<Rightarrow> cs'))"

inductive system_step ::
  "encoder \<Rightarrow> checksum \<Rightarrow> (wal_error \<Rightarrow> string) \<Rightarrow> snapshot_encoder \<Rightarrow> system \<Rightarrow> system \<Rightarrow> bool"
  for enc crc describe senc where
  sys_offer: "offer (queue_depth (sy_options sy)) (\<not> e_running (sy_engine sy)) sub (sy_rx sy) = Inr rx \<Longrightarrow>
    cmd_width (sub_cmd sub) \<Longrightarrow> system_step enc crc describe senc sy (sy\<lparr>sy_rx := rx\<rparr>)"
| sys_engine: "e_running (sy_engine sy) \<Longrightarrow> next_submission t sy = Some (sub, rx) \<Longrightarrow> \<not> queue_full (sy_commit sy) \<Longrightarrow>
    env_commit_ok env = (cs_phase (sy_commit sy) \<noteq> Gone) \<Longrightarrow> env_ack_ok env = sy_ack_alive sy \<Longrightarrow>
    engine_step (snapshot_every (sy_options sy)) env sub (sy_engine sy) = Some e \<Longrightarrow>
    system_step enc crc describe senc sy
      (sy\<lparr>sy_engine := e, sy_rx := rx, sy_commit := hand_over (sy_engine sy) e (sy_commit sy)\<rparr>)"
| sys_quit: "next_poll (sy_stop sy) False (sy_rx sy) t (e_state (sy_engine sy)) = StopNow \<Longrightarrow>
    system_step enc crc describe senc sy (sy\<lparr>sy_engine := (sy_engine sy)\<lparr>e_running := False\<rparr>\<rparr>)"
| sys_stop: "system_step enc crc describe senc sy (sy\<lparr>sy_stop := True\<rparr>)"
| sys_commit: "commit_step enc crc describe (sy_commit sy) cs \<Longrightarrow> cs_submitted cs = cs_submitted (sy_commit sy) \<Longrightarrow>
    system_step enc crc describe senc sy (sy\<lparr>sy_commit := cs\<rparr>)"
| sys_ack: "sy_ack_alive sy \<Longrightarrow> sy_ack_pos sy < length (e_pending (sy_engine sy)) \<Longrightarrow>
    p = e_pending (sy_engine sy) ! sy_ack_pos sy \<Longrightarrow> wait_for (pa_seq p) (cs_mark (sy_commit sy)) = Released \<Longrightarrow>
    (\<And>t sb. confirms t \<Longrightarrow> sy_replica sy = Some sb \<Longrightarrow> replica_confirmed t (sb_mark sb)) \<Longrightarrow>
    system_step enc crc describe senc sy
      (sy\<lparr>sy_acks := ack_one confirms (sy_replica sy \<noteq> None) (replication (sy_options sy)) p (sy_acks sy),
          sy_ack_pos := sy_ack_pos sy + 1,
          sy_promised := sy_promised sy @ (if pa_reply p then [(pa_seq p, pa_events p)] else [])\<rparr>)"
| sys_ack_stop: "sy_ack_alive sy \<Longrightarrow> sy_ack_pos sy < length (e_pending (sy_engine sy)) \<Longrightarrow>
    wait_for (pa_seq (e_pending (sy_engine sy) ! sy_ack_pos sy)) (cs_mark (sy_commit sy)) = Stopped reason \<Longrightarrow>
    system_step enc crc describe senc sy (sy\<lparr>sy_ack_alive := False\<rparr>)"
| sys_snapshot: "sy_snap_pos sy < length (e_snapshots (sy_engine sy)) \<Longrightarrow>
    dir = snapshot_job senc crc io removed (snd (e_snapshots (sy_engine sy) ! sy_snap_pos sy)) (sy_dir sy) \<Longrightarrow>
    system_step enc crc describe senc sy
      (sy\<lparr>sy_dir := dir, sy_files := dir @ sy_files sy, sy_snap_pos := sy_snap_pos sy + 1\<rparr>)"
| sys_replica: "sy_replica sy = Some sb \<Longrightarrow> sy_replica_pos sy < length (e_sent (sy_engine sy)) \<Longrightarrow>
    standby_step (e_sent (sy_engine sy) ! sy_replica_pos sy) sb = Inr sb' \<Longrightarrow>
    system_step enc crc describe senc sy (sy\<lparr>sy_replica := Some sb', sy_replica_pos := sy_replica_pos sy + 1\<rparr>)"

section \<open>The invariant\<close>

definition acks_ok :: "system \<Rightarrow> bool" where
  "acks_ok sy \<longleftrightarrow>
     (let answered = take (sy_ack_pos sy) (e_pending (sy_engine sy)); a = sy_acks sy in
      sy_ack_pos sy \<le> length (e_pending (sy_engine sy)) \<and>
      ar_acked a = map (\<lambda>p. (pa_seq p, pa_events p)) (filter pa_reply answered) \<and>
      ar_broadcast a = concat (map (\<lambda>p. map (Pair (pa_seq p)) (pa_events p)) answered) \<and>
      (\<forall>p \<in> set answered. wait_for (pa_seq p) (cs_mark (sy_commit sy)) = Released) \<and>
      (\<forall>sb. sy_replica sy = Some sb \<longrightarrow> replication (sy_options sy) = Sync \<longrightarrow> \<not> ar_replica_lost a \<longrightarrow>
         (\<forall>p \<in> set answered. replica_confirmed (pa_seq p) (sb_mark sb))))"

definition promises_ok :: "auction_config \<Rightarrow> system \<Rightarrow> bool" where
  "promises_ok c sy \<longleftrightarrow>
     (\<forall>x \<in> set (sy_promised sy). x \<in> set (told (sy_base sy @ e_log (sy_engine sy)) (new_state c)) \<and>
        wait_for (fst x) (cs_mark (sy_commit sy)) = Released) \<and>
     set (ar_acked (sy_acks sy)) \<subseteq> set (sy_promised sy)"

definition standby_ok :: "auction_state \<Rightarrow> system \<Rightarrow> bool" where
  "standby_ok s0 sy \<longleftrightarrow> (\<forall>sb. sy_replica sy = Some sb \<longrightarrow>
     sy_replica_pos sy \<le> length (e_sent (sy_engine sy)) \<and>
     (\<exists>ev. run_records (take (sy_replica_pos sy) (e_sent (sy_engine sy))) s0 = Some (sb_state sb, ev)) \<and>
     (\<forall>t. replica_confirmed t (sb_mark sb) \<longrightarrow>
        (\<exists>r \<in> set (take (sy_replica_pos sy) (e_sent (sy_engine sy))). t \<le> lr_seq r)))"

definition snapshot_entry_ok ::
  "snapshot_encoder \<Rightarrow> checksum \<Rightarrow> auction_config \<Rightarrow> log_record list \<Rightarrow> string \<times> byte list \<Rightarrow> bool" where
  "snapshot_entry_ok senc crc c rs x \<longleftrightarrow> snapshot_seq (fst x) = None \<or>
     (\<exists>sn. snapshot_body senc crc sn = Some (snd x) \<and> snapshot_of c rs sn)"

definition snapshots_ok :: "snapshot_encoder \<Rightarrow> checksum \<Rightarrow> auction_config \<Rightarrow> system \<Rightarrow> bool" where
  "snapshots_ok senc crc c sy \<longleftrightarrow> set (sy_dir sy) \<subseteq> set (sy_files sy) \<and>
     (\<forall>x \<in> set (sy_files sy). x \<in> set (sy_aside sy) \<or> snapshot_entry_ok senc crc c (sy_base sy @ e_log (sy_engine sy)) x)"

definition widths_ok :: "system \<Rightarrow> bool" where
  "widths_ok sy \<longleftrightarrow> log_width (map entry_of (sy_base sy @ e_sent (sy_engine sy))) \<and>
     list_all (\<lambda>sub. cmd_width (sub_cmd sub)) (sy_rx sy)"

definition system_inv ::
  "encoder \<Rightarrow> decoder \<Rightarrow> checksum \<Rightarrow> snapshot_encoder \<Rightarrow> auction_config \<Rightarrow> system \<Rightarrow> bool" where
  "system_inv enc dec crc senc c sy \<longleftrightarrow> widths_ok sy \<and>
     (\<exists>s0. engine_consistent c (sy_base sy) s0 (sy_engine sy) \<and> standby_ok s0 sy) \<and>
     commit_inv enc dec crc (sy_commit sy) \<and>
     cs_submitted (sy_commit sy) = sy_base sy @ e_log (sy_engine sy) \<and>
     acks_ok sy \<and> promises_ok c sy \<and> snapshots_ok senc crc c sy"

section \<open>The engine does not panic\<close>

lemma engine_step_total:
  assumes "engine_consistent c rs s0 e" and "config_ok c" and "log_width (map entry_of (rs @ e_sent e))"
    and "e_next_seq e < u64_max"
  shows "\<exists>e'. engine_step every env sub e = Some e'"
proof -
  obtain ev where run: "run_records (rs @ e_sent e) (new_state c) = Some (e_state e, ev)"
    using engine_log_runs(2) [OF assms(1)] by blast
  have "last_seq (e_state e) = last_seq_of (rs @ e_sent e)" using run_records_facts [OF assms(2,3) run] by blast
  moreover have "resume_at (last_seq_of (rs @ e_sent e)) = Some (e_next_seq e)"
    using assms(1) by (simp add: engine_consistent_def)
  ultimately have "seq_accepted (e_state e) (e_next_seq e)"
    by (auto simp: seq_accepted_def resume_at_def split: option.splits)
  then have "\<exists>m. apply_cmd (e_next_seq e) ts cmd (e_state e) = Some m" for ts cmd by (simp add: apply_cmd_Some)
  moreover have "\<exists>n. seq_next (e_next_seq e) = Some n"
    using assms(4) by (simp add: seq_next_def u64_checked_add_def u64_ok_def)
  ultimately show ?thesis
    by (auto simp: engine_step_def Let_def split: option.splits) (metis option.distinct(1))+
qed

section \<open>Every step keeps it\<close>

lemma take_of_prefix: "n \<le> length xs \<Longrightarrow> prefix xs ys \<Longrightarrow> take n ys = take n xs"
  by (auto simp: prefix_def)

lemma hand_over_commit:
  assumes "commit_inv enc dec crc cs" and "codec_ok enc dec crc" and "cs_submitted cs = base @ e_log e"
    and "\<not> queue_full cs" and "gapless (base @ e_log e')"
    and "e_log e' = e_log e \<or> e_log e' = e_log e @ [r] \<and> cs_phase cs \<noteq> Gone"
  shows "commit_inv enc dec crc (hand_over e e' cs) \<and> cs_submitted (hand_over e e' cs) = base @ e_log e' \<and>
     cs_mark (hand_over e e' cs) = cs_mark cs"
proof (cases "e_log e' = e_log e")
  case True
  then show ?thesis using assms(1,3) by (simp add: hand_over_def)
next
  case False
  then have l: "e_log e' = e_log e @ [r]" and ph: "cs_phase cs \<noteq> Gone" using assms(6) by auto
  let ?cs = "cs\<lparr>cs_queue := cs_queue cs @ [Msg_Record r], cs_submitted := cs_submitted cs @ [r]\<rparr>"
  have sub: "submit_record r cs = Inr ?cs" using ph by (simp add: submit_record_def)
  have "commit_step enc crc describe cs ?cs" for describe
    using assms(3,5) l by (intro step_submit [OF assms(4) sub]) simp
  then have "commit_inv enc dec crc ?cs" using commit_inv_step [OF _ assms(2,1)] by blast
  then show ?thesis using l sub assms(3) by (simp add: hand_over_def)
qed

lemma acks_ok_frame:
  assumes "acks_ok sy" and "prefix (e_pending (sy_engine sy)) (e_pending (sy_engine sy'))"
    and "sy_ack_pos sy' = sy_ack_pos sy" and "sy_acks sy' = sy_acks sy" and "sy_replica sy' = sy_replica sy"
    and "sy_options sy' = sy_options sy"
    and "\<And>t. wait_for t (cs_mark (sy_commit sy)) = Released \<Longrightarrow> wait_for t (cs_mark (sy_commit sy')) = Released"
  shows "acks_ok sy'"
proof -
  have "take (sy_ack_pos sy) (e_pending (sy_engine sy')) = take (sy_ack_pos sy) (e_pending (sy_engine sy))"
    and "length (e_pending (sy_engine sy)) \<le> length (e_pending (sy_engine sy'))"
    using assms(1,2) by (auto simp: acks_ok_def Let_def take_of_prefix prefix_length_le)
  then show ?thesis using assms unfolding acks_ok_def Let_def by auto
qed

lemma promises_ok_frame:
  assumes "promises_ok c sy" and "prefix (e_log (sy_engine sy)) (e_log (sy_engine sy'))" and "sy_base sy' = sy_base sy"
    and "sy_promised sy' = sy_promised sy" and "sy_acks sy' = sy_acks sy"
    and "\<And>t. wait_for t (cs_mark (sy_commit sy)) = Released \<Longrightarrow> wait_for t (cs_mark (sy_commit sy')) = Released"
  shows "promises_ok c sy'"
proof -
  obtain rest where "sy_base sy' @ e_log (sy_engine sy') = (sy_base sy @ e_log (sy_engine sy)) @ rest"
    using assms(2,3) by (auto simp: prefix_def)
  then have "set (told (sy_base sy @ e_log (sy_engine sy)) (new_state c)) \<subseteq>
      set (told (sy_base sy' @ e_log (sy_engine sy')) (new_state c))"
    using told_prefix [of "sy_base sy @ e_log (sy_engine sy)" "new_state c" rest] set_mono_prefix by metis
  then show ?thesis using assms unfolding promises_ok_def by auto
qed

lemma snapshots_ok_frame:
  assumes "snapshots_ok senc crc c sy" and "prefix (e_log (sy_engine sy)) (e_log (sy_engine sy'))"
    and "sy_base sy' = sy_base sy" and "sy_dir sy' = sy_dir sy" and "sy_files sy' = sy_files sy"
    and "sy_aside sy' = sy_aside sy"
  shows "snapshots_ok senc crc c sy'"
proof -
  obtain rest where r: "sy_base sy' @ e_log (sy_engine sy') = (sy_base sy @ e_log (sy_engine sy)) @ rest"
    using assms(2,3) by (auto simp: prefix_def)
  show ?thesis
    using assms(1,4-6) snapshot_of_append [of c "sy_base sy @ e_log (sy_engine sy)" _ rest]
    unfolding snapshots_ok_def snapshot_entry_ok_def r by metis
qed

lemma standby_ok_frame:
  assumes "standby_ok s0 sy" and "prefix (e_sent (sy_engine sy)) (e_sent (sy_engine sy'))"
    and "sy_replica sy' = sy_replica sy" and "sy_replica_pos sy' = sy_replica_pos sy"
  shows "standby_ok s0 sy'"
proof (cases "sy_replica sy")
  case None
  then show ?thesis using assms(3) by (simp add: standby_ok_def)
next
  case (Some sb)
  then have "sy_replica_pos sy \<le> length (e_sent (sy_engine sy))" using assms(1) by (simp add: standby_ok_def)
  then have "take (sy_replica_pos sy) (e_sent (sy_engine sy')) = take (sy_replica_pos sy) (e_sent (sy_engine sy))"
    and "sy_replica_pos sy \<le> length (e_sent (sy_engine sy'))"
    using take_of_prefix assms(2) prefix_length_le by (blast, fastforce)
  then show ?thesis using assms(1,3,4) unfolding standby_ok_def by simp
qed

lemma next_submission_width:
  assumes "next_submission t sy = Some (sub, rx)" and "list_all (\<lambda>sub. cmd_width (sub_cmd sub)) (sy_rx sy)"
  shows "cmd_width (sub_cmd sub) \<and> list_all (\<lambda>sub. cmd_width (sub_cmd sub)) rx"
  using assms by (cases "sy_rx sy")
    (auto simp: next_submission_def next_poll_def tick_submission_def split: if_splits option.splits)

lemma system_inv_engine:
  assumes "system_inv enc dec crc senc c sy" and "codec_ok enc dec crc" and "e_running (sy_engine sy)"
    and "next_submission t sy = Some (sub, rx)" and "\<not> queue_full (sy_commit sy)"
    and "env_commit_ok env = (cs_phase (sy_commit sy) \<noteq> Gone)"
    and "engine_step every env sub (sy_engine sy) = Some e"
  shows "system_inv enc dec crc senc c
    (sy\<lparr>sy_engine := e, sy_rx := rx, sy_commit := hand_over (sy_engine sy) e (sy_commit sy)\<rparr>)" (is "system_inv _ _ _ _ _ ?sy")
proof -
  obtain s0 where con: "engine_consistent c (sy_base sy) s0 (sy_engine sy)" and sb: "standby_ok s0 sy"
    and rest: "widths_ok sy" "commit_inv enc dec crc (sy_commit sy)"
      "cs_submitted (sy_commit sy) = sy_base sy @ e_log (sy_engine sy)" "acks_ok sy" "promises_ok c sy"
      "snapshots_ok senc crc c sy"
    using assms(1) by (auto simp: system_inv_def)
  obtain ts events r where ts: "u64_ok ts" and r: "r = \<lparr>lr_seq = e_next_seq (sy_engine sy), lr_ts = ts, lr_cmd = sub_cmd sub\<rparr>"
    and sent: "e_sent e = e_sent (sy_engine sy) @ [r]"
    and l: "e_log e = (if env_commit_ok env then e_log (sy_engine sy) @ [r] else e_log (sy_engine sy))"
    and q: "if env_commit_ok env \<and> env_ack_ok env
     then e_running e = e_running (sy_engine sy) \<and> (\<exists>v. e_pending e = e_pending (sy_engine sy) @
            [\<lparr>pa_seq = e_next_seq (sy_engine sy), pa_events = events, pa_reply = sub_reply sub, pa_view = v\<rparr>])
     else \<not> e_running e \<and> e_pending e = e_pending (sy_engine sy) \<and> e_snapshots e = e_snapshots (sy_engine sy)"
    by (rule engine_step_effect [OF assms(7)])
  have con': "engine_consistent c (sy_base sy) s0 e" by (rule engine_step_consistent [OF con assms(7,3)])
  have pre: "prefix (e_log (sy_engine sy)) (e_log e)" "prefix (e_pending (sy_engine sy)) (e_pending e)"
    "prefix (e_sent (sy_engine sy)) (e_sent e)"
    using l q sent by (auto split: if_splits)
  have ho: "commit_inv enc dec crc (hand_over (sy_engine sy) e (sy_commit sy)) \<and>
      cs_submitted (hand_over (sy_engine sy) e (sy_commit sy)) = sy_base sy @ e_log e \<and>
      cs_mark (hand_over (sy_engine sy) e (sy_commit sy)) = cs_mark (sy_commit sy)"
    using l assms(6) by (intro hand_over_commit [OF rest(2) assms(2) rest(3) assms(5) engine_log_runs(3) [OF con'], of r])
      (auto split: if_splits)
  have w: "widths_ok ?sy"
    using rest(1) next_submission_width [OF assms(4)] ts
    by (simp add: widths_ok_def sent r entry_of_def)
  have "acks_ok ?sy" using pre(2) ho by (intro acks_ok_frame [OF rest(4)]) simp_all
  moreover have "promises_ok c ?sy" using pre(1) ho by (intro promises_ok_frame [OF rest(5)]) simp_all
  moreover have "snapshots_ok senc crc c ?sy" using pre(1) by (intro snapshots_ok_frame [OF rest(6)]) simp_all
  moreover have "standby_ok s0 ?sy" using pre(3) by (intro standby_ok_frame [OF sb]) simp_all
  ultimately show ?thesis using w con' ho by (auto simp: system_inv_def)
qed

lemma pending_is_told:
  assumes "engine_consistent c rs s0 e" and "p \<in> set (e_pending e)"
  shows "(pa_seq p, pa_events p) \<in> set (told (rs @ e_log e) (new_state c))"
proof -
  obtain ev0 where "run_records rs (new_state c) = Some (s0, ev0)"
    and pre: "prefix (map (\<lambda>p. (pa_seq p, pa_events p)) (e_pending e)) (told (e_log e) s0)"
    using assms(1) by (auto simp: engine_consistent_def)
  then have "told (rs @ e_log e) (new_state c) = told rs (new_state c) @ told (e_log e) s0" by (intro told_append)
  moreover have "(pa_seq p, pa_events p) \<in> set (told (e_log e) s0)"
    using set_mono_prefix [OF pre] assms(2) by auto
  ultimately show ?thesis by simp
qed

lemma system_inv_ack:
  assumes "system_inv enc dec crc senc c sy" and "sy_ack_pos sy < length (e_pending (sy_engine sy))"
    and "p = e_pending (sy_engine sy) ! sy_ack_pos sy" and "wait_for (pa_seq p) (cs_mark (sy_commit sy)) = Released"
    and "\<And>t sb. confirms t \<Longrightarrow> sy_replica sy = Some sb \<Longrightarrow> replica_confirmed t (sb_mark sb)"
  shows "system_inv enc dec crc senc c
    (sy\<lparr>sy_acks := ack_one confirms (sy_replica sy \<noteq> None) (replication (sy_options sy)) p (sy_acks sy),
        sy_ack_pos := sy_ack_pos sy + 1,
        sy_promised := sy_promised sy @ (if pa_reply p then [(pa_seq p, pa_events p)] else [])\<rparr>)"
    (is "system_inv _ _ _ _ _ ?sy")
proof -
  obtain s0 where con: "engine_consistent c (sy_base sy) s0 (sy_engine sy)" and sb: "standby_ok s0 sy"
    and rest: "widths_ok sy" "commit_inv enc dec crc (sy_commit sy)"
      "cs_submitted (sy_commit sy) = sy_base sy @ e_log (sy_engine sy)" "acks_ok sy" "promises_ok c sy"
      "snapshots_ok senc crc c sy"
    using assms(1) by (auto simp: system_inv_def)
  have p: "p \<in> set (e_pending (sy_engine sy))" and
    tk: "take (Suc (sy_ack_pos sy)) (e_pending (sy_engine sy)) = take (sy_ack_pos sy) (e_pending (sy_engine sy)) @ [p]"
    using assms(2,3) by (simp_all add: take_Suc_conv_app_nth)
  have conf: "replica_confirmed (pa_seq p) (sb_mark sb)"
    if "sy_replica sy = Some sb" "replication (sy_options sy) = Sync"
      "\<not> ar_replica_lost (ack_one confirms (sy_replica sy \<noteq> None) (replication (sy_options sy)) p (sy_acks sy))" for sb
    using that assms(5) by (auto simp: ack_one_fields)
  have "acks_ok ?sy"
    using rest(4) assms(2,4) conf by (auto simp: acks_ok_def Let_def tk ack_one_fields)
  moreover have "promises_ok c ?sy"
    using rest(5) pending_is_told [OF con p] assms(4) by (auto simp: promises_ok_def ack_one_fields)
  moreover have "snapshots_ok senc crc c ?sy" "standby_ok s0 ?sy" "widths_ok ?sy"
    using rest(1,6) sb by (simp_all add: snapshots_ok_def standby_ok_def widths_ok_def)
  ultimately show ?thesis using con rest by (auto simp: system_inv_def)
qed

lemma snapshot_of_last_seq:
  assumes "snapshot_of c rs sn" and "config_ok c" and "log_width (map entry_of rs)"
  shows "last_seq (sn_state sn) = Some (sn_seq sn)"
proof -
  obtain k ev where k: "0 < k" "k \<le> length rs" "run_records (take k rs) (new_state c) = Some (sn_state sn, ev)"
    "sn_seq sn = lr_seq (rs ! (k - 1))" using assms(1) by (auto simp: snapshot_of_def)
  have "log_width (map entry_of (take k rs))" using assms(3) by (auto simp: list_all_iff dest: in_set_takeD)
  then have "last_seq (sn_state sn) = last_seq_of (take k rs)" using run_records_facts [OF assms(2) _ k(3)] by blast
  then show ?thesis using k by (auto simp: last_seq_of_def last_take_nth)
qed

lemma log_width_append: "log_width (map entry_of (rs @ rs')) \<Longrightarrow> log_width (map entry_of rs)"
  by simp

lemma log_width_prefix: "log_width (map entry_of (rs @ xs)) \<Longrightarrow> prefix ys xs \<Longrightarrow> log_width (map entry_of (rs @ ys))"
  by (auto simp: prefix_def)

lemma system_inv_snapshot:
  assumes "system_inv enc dec crc senc c sy" and "config_ok c"
    and "sy_snap_pos sy < length (e_snapshots (sy_engine sy))"
    and "dir = snapshot_job senc crc io removed (snd (e_snapshots (sy_engine sy) ! sy_snap_pos sy)) (sy_dir sy)"
  shows "system_inv enc dec crc senc c
    (sy\<lparr>sy_dir := dir, sy_files := dir @ sy_files sy, sy_snap_pos := sy_snap_pos sy + 1\<rparr>)"
    (is "system_inv _ _ _ _ _ ?sy")
proof -
  let ?x = "e_snapshots (sy_engine sy) ! sy_snap_pos sy" and ?log = "sy_base sy @ e_log (sy_engine sy)"
  obtain s0 where con: "engine_consistent c (sy_base sy) s0 (sy_engine sy)" and sb: "standby_ok s0 sy"
    and rest: "widths_ok sy" "commit_inv enc dec crc (sy_commit sy)" "cs_submitted (sy_commit sy) = ?log"
      "acks_ok sy" "promises_ok c sy" "snapshots_ok senc crc c sy"
    using assms(1) by (auto simp: system_inv_def)
  have "?x \<in> set (e_snapshots (sy_engine sy))" using assms(3) by simp
  then have sn: "snapshot_of c ?log \<lparr>sn_seq = fst ?x, sn_state = snd ?x\<rparr>"
    using con unfolding engine_consistent_def by blast
  have "log_width (map entry_of ?log)"
    using con rest(1) log_width_prefix unfolding engine_consistent_def widths_ok_def by blast
  then have seq: "last_seq (snd ?x) = Some (fst ?x)" using snapshot_of_last_seq [OF sn assms(2)] by simp
  have new: "y \<in> set (sy_aside sy) \<or> snapshot_entry_ok senc crc c ?log y" if "y \<in> set dir" for y
    using snapshot_job_entries [of y senc crc io removed "snd ?x" "sy_dir sy"] that rest(6) sn seq
    unfolding assms(4) snapshots_ok_def snapshot_entry_ok_def by fastforce
  then have "snapshots_ok senc crc c ?sy" using rest(6) by (auto simp: snapshots_ok_def)
  moreover have "standby_ok s0 ?sy" "widths_ok ?sy" "acks_ok ?sy" "promises_ok c ?sy"
    using rest sb by (simp_all add: standby_ok_def widths_ok_def acks_ok_def promises_ok_def)
  ultimately show ?thesis using con rest by (auto simp: system_inv_def)
qed

lemma system_inv_replica:
  assumes "system_inv enc dec crc senc c sy" and "sy_replica sy = Some sb"
    and "sy_replica_pos sy < length (e_sent (sy_engine sy))"
    and "standby_step (e_sent (sy_engine sy) ! sy_replica_pos sy) sb = Inr sb'"
  shows "system_inv enc dec crc senc c (sy\<lparr>sy_replica := Some sb', sy_replica_pos := sy_replica_pos sy + 1\<rparr>)"
    (is "system_inv _ _ _ _ _ ?sy")
proof -
  let ?r = "e_sent (sy_engine sy) ! sy_replica_pos sy" and ?old = "take (sy_replica_pos sy) (e_sent (sy_engine sy))"
  obtain s0 where con: "engine_consistent c (sy_base sy) s0 (sy_engine sy)" and sb: "standby_ok s0 sy"
    and rest: "widths_ok sy" "commit_inv enc dec crc (sy_commit sy)"
      "cs_submitted (sy_commit sy) = sy_base sy @ e_log (sy_engine sy)" "acks_ok sy" "promises_ok c sy"
      "snapshots_ok senc crc c sy"
    using assms(1) by (auto simp: system_inv_def)
  obtain s1 e1 where f: "apply_cmd (lr_seq ?r) (lr_ts ?r) (lr_cmd ?r) (sb_state sb) = Some (s1, e1)"
    and sb': "sb' = \<lparr>sb_state = s1, sb_mark = replica_publish (lr_seq ?r) (sb_mark sb)\<rparr>"
    using assms(4) by (auto simp: standby_step_def follow_def split: option.splits sum.splits)
  obtain ev where run: "run_records ?old s0 = Some (sb_state sb, ev)"
    and marks: "\<And>t. replica_confirmed t (sb_mark sb) \<Longrightarrow> \<exists>r \<in> set ?old. t \<le> lr_seq r"
    using sb assms(2) by (auto simp: standby_ok_def)
  have tk: "take (Suc (sy_replica_pos sy)) (e_sent (sy_engine sy)) = ?old @ [?r]"
    using assms(3) by (simp add: take_Suc_conv_app_nth)
  have pub: "replica_confirmed t (sb_mark sb') \<longleftrightarrow> replica_confirmed t (sb_mark sb) \<or> t \<le> lr_seq ?r" for t
    by (auto simp: sb' replica_confirmed_def replica_publish_def split: option.splits)
  have "run_records (?old @ [?r]) s0 = Some (sb_state sb', ev @ e1)"
    using run_snoc [OF run f] by (simp add: sb')
  moreover have "\<exists>r \<in> set (?old @ [?r]). t \<le> lr_seq r" if "replica_confirmed t (sb_mark sb')" for t
    using that marks unfolding pub by auto
  ultimately have "standby_ok s0 ?sy" using assms(3) by (auto simp: standby_ok_def tk)
  moreover have "acks_ok ?sy" using rest(4) assms(2) by (auto simp: acks_ok_def Let_def pub)
  moreover have "widths_ok ?sy" "promises_ok c ?sy" "snapshots_ok senc crc c ?sy"
    using rest by (simp_all add: widths_ok_def promises_ok_def snapshots_ok_def)
  ultimately show ?thesis using con rest by (auto simp: system_inv_def)
qed

lemma system_inv_commit:
  assumes "system_inv enc dec crc senc c sy" and "codec_ok enc dec crc"
    and "commit_step enc crc describe (sy_commit sy) cs" and "cs_submitted cs = cs_submitted (sy_commit sy)"
  shows "system_inv enc dec crc senc c (sy\<lparr>sy_commit := cs\<rparr>)"
proof -
  have i: "commit_inv enc dec crc (sy_commit sy)" "acks_ok sy" "promises_ok c sy"
    using assms(1) by (simp_all add: system_inv_def)
  have "commit_inv enc dec crc cs" by (rule commit_inv_step [OF assms(3,2) i(1)])
  moreover have "acks_ok (sy\<lparr>sy_commit := cs\<rparr>)"
    by (rule acks_ok_frame [OF i(2)]) (simp_all add: commit_step_released [OF assms(3)])
  moreover have "promises_ok c (sy\<lparr>sy_commit := cs\<rparr>)"
    by (rule promises_ok_frame [OF i(3)]) (simp_all add: commit_step_released [OF assms(3)])
  ultimately show ?thesis
    using assms(1,4) by (auto simp: system_inv_def widths_ok_def standby_ok_def snapshots_ok_def)
qed

lemma system_inv_other:
  assumes "system_inv enc dec crc senc c sy"
  shows "offer depth gone sub (sy_rx sy) = Inr rx \<Longrightarrow> cmd_width (sub_cmd sub) \<Longrightarrow> system_inv enc dec crc senc c (sy\<lparr>sy_rx := rx\<rparr>)"
    and "system_inv enc dec crc senc c (sy\<lparr>sy_engine := (sy_engine sy)\<lparr>e_running := False\<rparr>\<rparr>)"
    and "system_inv enc dec crc senc c (sy\<lparr>sy_stop := True\<rparr>)"
    and "system_inv enc dec crc senc c (sy\<lparr>sy_ack_alive := False\<rparr>)"
  using assms
  by (auto simp: system_inv_def widths_ok_def standby_ok_def snapshots_ok_def acks_ok_def promises_ok_def
      engine_consistent_def offer_def Let_def split: if_splits)

lemma system_inv_step:
  assumes "system_step enc crc describe senc sy sy'" and "codec_ok enc dec crc" and "config_ok c"
    and "system_inv enc dec crc senc c sy"
  shows "system_inv enc dec crc senc c sy'"
  using assms(1)
proof cases
  case (sys_offer sub rx)
  then show ?thesis using system_inv_other(1) [OF assms(4)] by blast
next
  case (sys_engine t sub rx env e)
  show ?thesis unfolding sys_engine(1)
    by (rule system_inv_engine [OF assms(4,2) sys_engine(2,3,4,5,7)])
next
  case (sys_commit cs)
  then show ?thesis using system_inv_commit [OF assms(4,2)] by blast
next
  case (sys_ack p confirms)
  show ?thesis unfolding sys_ack(1) using system_inv_ack [OF assms(4) sys_ack(3-6)] by blast
next
  case (sys_snapshot dir io removed)
  then show ?thesis using system_inv_snapshot [OF assms(4,3)] by blast
next
  case (sys_replica sb sb')
  then show ?thesis using system_inv_replica [OF assms(4)] by blast
qed (use system_inv_other [OF assms(4)] in simp_all)

end
