(* ===== verification/Restart.thy ===== *)
theory Restart
  imports System
begin

text \<open>
  Power losses and restarts. A power loss leaves a prefix of the active segment that contains all that was synced, the
  sealed segments, and any of the files that have ever been in the directory as snapshots: a rename that was not yet
  on stable storage may be lost, a file that was pruned may come back. \<open>system_run\<close> are the lives of the system:
  opened on an empty directory, any steps, power lost at any moment, opened again.

  A restart that finds a snapshot ahead of the log sets it aside: it replays the log, correctly, but leaves the file where it is.
  When a later restart finds such a file again and the log has grown past its position in the meantime, the code starts from
  it, in a state the log does not give; and beside an empty log any snapshot is trusted at once (\<open>stale_snapshot_wins\<close> and
  \<open>snapshot_without_log\<close> in \<open>Deviations\<close>). So the lives come with a condition on their restarts: \<open>system_run ok x c\<close>
  are the lives all of whose restarts satisfy \<open>ok\<close>, and the theorems are about \<open>ok = no_stale_snapshot x\<close>, the lives in
  which no restart finds a snapshot that an earlier one set aside, or one beside an empty log.
\<close>

section \<open>What survives\<close>

definition snapshot_codec_ok :: "snapshot_encoder \<Rightarrow> snapshot_decoder \<Rightarrow> bool" where
  "snapshot_codec_ok senc sdec \<longleftrightarrow> (\<forall>sn body. senc sn = Some body \<longrightarrow> sdec body = Inr sn)"

lemma told_record: "x \<in> set (told rs s) \<Longrightarrow> \<exists>r \<in> set rs. lr_seq r = fst x"
  by (induction rs arbitrary: s) (auto split: option.splits)

lemma told_kept:
  assumes "run_records rs s = Some (s', ev)" and "gapless rs" and "prefix kept rs" and "x \<in> set (told rs s)"
    and "r \<in> set kept" and "lr_seq r = fst x"
  shows "x \<in> set (told kept s)"
proof -
  obtain rest where rest: "rs = kept @ rest" using assms(3) by (auto simp: prefix_def)
  obtain s1 e1 where "run_records kept s = Some (s1, e1)"
    using assms(1) unfolding rest map_append run_append by (auto split: option.splits)
  then have "told rs s = told kept s @ told rest s1" unfolding rest by (rule told_append)
  moreover have "x \<notin> set (told rest s1)"
  proof
    assume "x \<in> set (told rest s1)"
    then obtain r' where r': "r' \<in> set rest" "lr_seq r' = fst x" using told_record by blast
    then show False using gapless_split [OF assms(2) [unfolded rest] assms(5) r'(1)] assms(6) by simp
  qed
  ultimately show ?thesis using assms(4) by auto
qed

lemma usable_snapshot:
  assumes "snapshots_ok senc crc c sy" and "set dir \<subseteq> set (sy_files sy) - set (sy_aside sy)" and "snapshot_codec_ok senc sdec"
    and "\<forall>b. u32_ok (crc b)" and "x \<in> set dir" and "snapshot_seq (fst x) \<noteq> None" and "snapshot_read sdec crc (snd x) = Inr sn"
  shows "snapshot_of c (sy_base sy @ e_log (sy_engine sy)) sn"
proof -
  have "x \<in> set (sy_files sy)" "x \<notin> set (sy_aside sy)" using assms(2,5) by blast+
  then have "snapshot_entry_ok senc crc c (sy_base sy @ e_log (sy_engine sy)) x"
    using assms(1) by (auto simp: snapshots_ok_def)
  then obtain sn' where sn': "snapshot_body senc crc sn' = Some (snd x)"
    "snapshot_of c (sy_base sy @ e_log (sy_engine sy)) sn'"
    using assms(6) by (auto simp: snapshot_entry_ok_def)
  obtain body where "senc sn' = Some body" using sn'(1) by (auto simp: snapshot_body_def)
  then have "snapshot_read sdec crc (snd x) = Inr sn'"
    using assms(3,4) sn'(1) by (intro snapshot_read_body [of senc sn' body]) (auto simp: snapshot_codec_ok_def)
  then show ?thesis using assms(7) sn'(2) by simp
qed

text \<open>A power loss leaves a prefix of the log, and all of it that anyone was told about.\<close>

lemma system_crash:
  assumes "system_inv enc dec crc senc c sy" and "codec_ok enc dec crc" and "synced (cs_wal (sy_commit sy)) \<le> n"
  obtains kept w where "read_all dec crc (crash n (cs_wal (sy_commit sy))) = Inr kept"
    "prefix kept (sy_base sy @ e_log (sy_engine sy))" "set (sy_promised sy) \<subseteq> set (told kept (new_state c))"
    "open_log dec crc limit (length (take n (active (cs_wal (sy_commit sy))))) (crash n (cs_wal (sy_commit sy))) = Inr w"
    "log_history enc dec crc w kept" "durable w = last_seq_of kept"
proof -
  let ?log = "sy_base sy @ e_log (sy_engine sy)"
  obtain s0 where con: "engine_consistent c (sy_base sy) s0 (sy_engine sy)"
    and inv: "commit_inv enc dec crc (sy_commit sy)" and sub: "cs_submitted (sy_commit sy) = ?log"
    and prom: "promises_ok c sy"
    using assms(1) by (auto simp: system_inv_def)
  obtain kept where k: "read_all dec crc (crash n (cs_wal (sy_commit sy))) = Inr kept" "prefix kept ?log"
    "\<And>r. r \<in> set ?log \<Longrightarrow> wait_for (lr_seq r) (cs_mark (sy_commit sy)) = Released \<Longrightarrow> r \<in> set kept"
    "\<exists>w. open_log dec crc limit (length (take n (active (cs_wal (sy_commit sy))))) (crash n (cs_wal (sy_commit sy))) = Inr w \<and>
       log_history enc dec crc w kept \<and> durable w = last_seq_of kept"
    using commit_crash [OF inv assms(2,3), of limit] unfolding sub by blast
  obtain s ev where run: "run_records ?log (new_state c) = Some (s, ev)" using engine_log_runs(1) [OF con] by blast
  have "x \<in> set (told kept (new_state c))" if "x \<in> set (sy_promised sy)" for x
  proof -
    have x: "x \<in> set (told ?log (new_state c))" "wait_for (fst x) (cs_mark (sy_commit sy)) = Released"
      using prom that by (auto simp: promises_ok_def)
    then obtain r where r: "r \<in> set ?log" "lr_seq r = fst x" using told_record by blast
    then show ?thesis using told_kept [OF run engine_log_runs(3) [OF con] k(2) x(1), of r] k(3) x(2) by simp
  qed
  with that k show ?thesis by blast
qed

section \<open>Starting again\<close>

text \<open>
  Opening the directory a power loss left: the system that starts is on the surviving records, in the state they
  give.
\<close>

lemma system_restart:
  assumes "system_inv enc dec crc senc c sy" and "codec_ok enc dec crc" and "snapshot_codec_ok senc sdec" and "config_ok c"
    and "synced (cs_wal (sy_commit sy)) \<le> n" and "set dir \<subseteq> set (sy_files sy) - set (sy_aside sy)" and "from_json m = Inr c"
    and "read_all dec crc (crash n (cs_wal (sy_commit sy))) \<noteq> Inr [] \<or> latest_usable sdec crc dir = None"
  obtains kept s ev nxt w where "read_all dec crc (crash n (cs_wal (sy_commit sy))) = Inr kept"
    "prefix kept (sy_base sy @ e_log (sy_engine sy))" "set (sy_promised sy) \<subseteq> set (told kept (new_state c))"
    "run_records kept (new_state c) = Some (s, ev)" "resume_at (last_seq_of kept) = Some nxt"
    "log_history enc dec crc w kept" "durable w = last_seq_of kept"
    "open_inner from_json to_json dec crc sdec options instant replica (length (take n (active (cs_wal (sy_commit sy))))) c
       \<lparr>manifest = Some m, files = crash n (cs_wal (sy_commit sy))\<rparr> dir =
     Inr (\<lparr>manifest = Some m, files = disk_files w\<rparr>, system_start options instant replica dir kept s nxt w)"
proof -
  let ?log = "sy_base sy @ e_log (sy_engine sy)"
  let ?wal = "cs_wal (sy_commit sy)"
  obtain s0 where con: "engine_consistent c (sy_base sy) s0 (sy_engine sy)" and wd: "widths_ok sy"
    and sns: "snapshots_ok senc crc c sy"
    using assms(1) by (auto simp: system_inv_def)
  obtain kept w where k: "read_all dec crc (crash n ?wal) = Inr kept" "prefix kept ?log"
    "set (sy_promised sy) \<subseteq> set (told kept (new_state c))"
    "open_log dec crc (segment_limit (wal_opts options)) (length (take n (active ?wal))) (crash n ?wal) = Inr w"
    "log_history enc dec crc w kept" "durable w = last_seq_of kept"
    by (rule system_crash [OF assms(1,2,5)])
  obtain sl ev where run: "run_records ?log (new_state c) = Some (sl, ev)" using engine_log_runs(1) [OF con] by blast
  have g: "gapless ?log" by (rule engine_log_runs(3) [OF con])
  have pre: "prefix kept (sy_base sy @ e_sent (sy_engine sy))"
    using k(2) con prefix_order.trans unfolding engine_consistent_def by (metis same_prefix_prefix)
  have kj: "kept = take (length kept) ?log" and len: "length kept \<le> length ?log"
    using prefix_length_le [OF k(2)] k(2) by (metis append_eq_conv_conj prefixE, blast)
  obtain nxt where nxt: "resume_at (last_seq_of kept) = Some nxt"
    using con pre resume_prefix unfolding engine_consistent_def by blast
  obtain s e1 where r: "run_records kept (new_state c) = Some (s, e1)"
    using run_prefix [OF run, of "length kept"] kj by metis
  have "log_width (map entry_of kept)" using wd pre by (metis widths_ok_def prefixE log_width_append)
  then have cfg: "config s = c" using run_records_facts [OF assms(4) _ r] by blast
  have "\<exists>n from. recover_from c kept (latest_usable sdec crc dir) =
      Inr \<lparr>rec_state = s, rec_next_seq = nxt, rec_replayed = n, rec_from_snapshot = from\<rparr>"
  proof (cases "latest_usable sdec crc dir")
    case None
    have "gapless kept" using gapless_take [OF g, of "length kept"] kj by simp
    from recover_log [OF r this nxt] None show ?thesis by (simp add: recover_from_def)
  next
    case (Some sn)
    then obtain x where x: "x \<in> set dir" "snapshot_seq (fst x) \<noteq> None" "snapshot_read sdec crc (snd x) = Inr sn"
      using latest_usable_in by blast
    have "snapshot_of c ?log sn"
      using usable_snapshot [OF sns assms(6,3) _ x] codec_okD(2) [OF assms(2)] by blast
    moreover have "0 < length kept" using assms(8) k(1) Some by auto
    ultimately show ?thesis
      using recover_prefix [OF run g len, of s e1 nxt sn] r nxt kj Some by metis
  qed
  then have "open_inner from_json to_json dec crc sdec options instant replica (length (take n (active ?wal))) c
       \<lparr>manifest = Some m, files = crash n ?wal\<rparr> dir =
     Inr (\<lparr>manifest = Some m, files = disk_files w\<rparr>, system_start options instant replica dir kept s nxt w)"
    using k(1,4) cfg assms(7)
    by (auto simp: open_inner_def recover_def read_manifest_def wal_open_def check_manifest_def log_contents_def)
  with that k r nxt show ?thesis by blast
qed

lemma system_start_inv:
  assumes "run_records kept (new_state c) = Some (s, ev)" and "resume_at (last_seq_of kept) = Some nxt"
    and "log_history enc dec crc w kept" and "durable w = last_seq_of kept" and "codec_ok enc dec crc"
    and "log_width (map entry_of kept)" and "replica = None \<or> replica = Some (standby_start s)"
    and "\<forall>x \<in> set dir. x \<in> set aside \<or> snapshot_entry_ok senc crc c kept x" and "set promised \<subseteq> set (told kept (new_state c))"
  shows "system_inv enc dec crc senc c
    ((system_start options instant replica dir kept s nxt w)\<lparr>sy_promised := promised, sy_aside := aside\<rparr>)" (is "system_inv _ _ _ _ _ ?sy")
proof -
  have g: "gapless kept" using history_reads_back(2) [OF assms(3,5)] .
  have con: "engine_consistent c kept s (engine_start instant s nxt)"
    by (rule engine_start_consistent [OF assms(1) g assms(2)])
  have "wait_for (fst x) (MarkLive (durable w)) = Released" if x: "x \<in> set promised" for x
  proof -
    obtain r where r: "r \<in> set kept" "lr_seq r = fst x" using x assms(9) told_record by blast
    then have "lr_seq r \<le> lr_seq (last kept)" "kept \<noteq> []" using gapless_le_last [OF g r(1)] by auto
    then show ?thesis using r(2) by (simp add: assms(4) last_seq_of_def)
  qed
  then have "promises_ok c ?sy" using assms(9)
    by (auto simp: promises_ok_def system_start_def spawn_def engine_start_def)
  moreover have "standby_ok s ?sy"
    using assms(7) by (auto simp: standby_ok_def system_start_def standby_start_def replica_confirmed_def)
  moreover have "commit_inv enc dec crc (spawn (wal_opts options) w kept)"
    by (rule commit_inv_spawn [OF assms(3,4,5)])
  moreover have "acks_ok ?sy" "widths_ok ?sy" "snapshots_ok senc crc c ?sy"
    using assms(6,8)
    by (simp_all add: acks_ok_def widths_ok_def snapshots_ok_def system_start_def engine_start_def)
  moreover have "cs_submitted (sy_commit ?sy) = sy_base ?sy @ e_log (sy_engine ?sy)"
    by (simp add: system_start_def spawn_def engine_start_def)
  ultimately show ?thesis using con by (auto simp: system_inv_def system_start_def)
qed

lemma snapshot_of_kept:
  assumes "snapshot_of c rs sn" and "gapless rs" and "prefix kept rs" and "not_after (sn_seq sn) (last_seq_of kept)"
  shows "snapshot_of c kept sn"
proof -
  obtain k ev where k: "0 < k" "k \<le> length rs" "run_records (take k rs) (new_state c) = Some (sn_state sn, ev)"
    "sn_seq sn = lr_seq (rs ! (k - 1))" using assms(1) by (auto simp: snapshot_of_def)
  obtain rest where rest: "rs = kept @ rest" using assms(3) by (auto simp: prefix_def)
  have ne: "kept \<noteq> []" and le: "sn_seq sn \<le> lr_seq (last kept)"
    using assms(4) by (auto simp: last_seq_of_def split: if_splits)
  have last: "last kept = rs ! (length kept - 1)" using ne by (simp add: rest nth_append last_conv_nth)
  have "k \<le> length kept"
  proof (rule ccontr)
    assume "\<not> k \<le> length kept"
    then have "length kept - 1 < k - 1" "k - 1 < length rs" using ne k(1,2) by (cases kept, auto)
    then have "lr_seq (rs ! (length kept - 1)) < lr_seq (rs ! (k - 1))"
      using gapless_sorted [OF assms(2)] by (simp add: sorted_wrt_iff_nth_less)
    then show False using le k(4) last by simp
  qed
  moreover have "take k kept = take k rs" "kept ! (k - 1) = rs ! (k - 1)"
    using calculation k(1) by (simp_all add: rest nth_append)
  ultimately show ?thesis using k unfolding snapshot_of_def by (intro exI [of _ k] exI [of _ ev]) simp
qed

section \<open>Lives\<close>

text \<open>The code the system calls and does not contain: \<open>serde_json\<close>, \<open>bincode\<close>, \<open>crc32fast\<close>, the text of an error.\<close>

record externals =
  x_from_json :: json_reader
  x_to_json :: json_writer
  x_enc :: encoder
  x_dec :: decoder
  x_crc :: checksum
  x_describe :: "wal_error \<Rightarrow> string"
  x_senc :: snapshot_encoder
  x_sdec :: snapshot_decoder

definition externals_ok :: "externals \<Rightarrow> bool" where
  "externals_ok x \<longleftrightarrow> codec_ok (x_enc x) (x_dec x) (x_crc x) \<and> snapshot_codec_ok (x_senc x) (x_sdec x)"

abbreviation open_auction ::
  "externals \<Rightarrow> engine_options \<Rightarrow> int \<Rightarrow> standby option \<Rightarrow> nat \<Rightarrow> auction_config \<Rightarrow> log_dir \<Rightarrow> directory \<Rightarrow>
   wal_error + (log_dir \<times> system)" where
  "open_auction x \<equiv> open_inner (x_from_json x) (x_to_json x) (x_dec x) (x_crc x) (x_sdec x)"

abbreviation read_log :: "externals \<Rightarrow> nat \<Rightarrow> system \<Rightarrow> wal_error + log_record list" where
  "read_log x n sy \<equiv> read_all (x_dec x) (x_crc x) (crash n (cs_wal (sy_commit sy)))"

text \<open>The directory after a power loss that leaves \<open>n\<close> bytes of the active segment, with the manifest \<open>m\<close>.\<close>

definition disk_after :: "byte list \<Rightarrow> nat \<Rightarrow> system \<Rightarrow> log_dir" where
  "disk_after m n sy = \<lparr>manifest = Some m, files = crash n (cs_wal (sy_commit sy))\<rparr>"

definition on_disk_after :: "nat \<Rightarrow> system \<Rightarrow> nat" where
  "on_disk_after n sy = length (take n (active (cs_wal (sy_commit sy))))"

text \<open>The snapshots that are ahead of the log \<open>rs\<close>.\<close>

definition ahead_of :: "externals \<Rightarrow> log_record list \<Rightarrow> string \<times> byte list \<Rightarrow> bool" where
  "ahead_of x rs f \<longleftrightarrow>
     (case snapshot_read (x_sdec x) (x_crc x) (snd f) of
        Inl e \<Rightarrow> False
      | Inr sn \<Rightarrow> \<not> not_after (sn_seq sn) (last_seq_of rs))"

text \<open>
  The condition on a restart that finds \<open>dir\<close> beside the log \<open>rs\<close>, after \<open>aside\<close> was set aside by the restarts before it.
\<close>

definition no_stale_snapshot :: "externals \<Rightarrow> directory \<Rightarrow> directory \<Rightarrow> log_record list \<Rightarrow> bool" where
  "no_stale_snapshot x aside dir rs \<longleftrightarrow>
     set dir \<inter> set aside = {} \<and> (rs = [] \<longrightarrow> latest_usable (x_sdec x) (x_crc x) dir = None)"

definition replica_fits :: "standby option \<Rightarrow> system \<Rightarrow> bool" where
  "replica_fits replica sy \<longleftrightarrow> replica = None \<or> replica = Some (standby_start (e_state (sy_engine sy)))"

text \<open>
  \<open>ok\<close> says which restarts a life may have, by the snapshots set aside before and the directory and the log they find.
\<close>

inductive system_run ::
  "(directory \<Rightarrow> directory \<Rightarrow> log_record list \<Rightarrow> bool) \<Rightarrow> externals \<Rightarrow> auction_config \<Rightarrow> system \<Rightarrow> bool" for ok x c where
  run_open: "open_auction x options instant replica 0 c \<lparr>manifest = None, files = []\<rparr> [] = Inr (d, sy) \<Longrightarrow>
    replica_fits replica sy \<Longrightarrow> system_run ok x c sy"
| run_step: "system_run ok x c sy \<Longrightarrow> system_step (x_enc x) (x_crc x) (x_describe x) (x_senc x) sy sy' \<Longrightarrow> system_run ok x c sy'"
| run_restart: "system_run ok x c sy \<Longrightarrow> synced (cs_wal (sy_commit sy)) \<le> n \<Longrightarrow> set dir \<subseteq> set (sy_files sy) \<Longrightarrow>
    x_from_json x m = Inr c \<Longrightarrow>
    open_auction x options instant replica (on_disk_after n sy) c (disk_after m n sy) dir = Inr (d, sy') \<Longrightarrow>
    replica_fits replica sy' \<Longrightarrow> ok (sy_aside sy) dir (sy_base sy') \<Longrightarrow>
    system_run ok x c (sy'\<lparr>sy_promised := sy_promised sy, sy_aside := sy_aside sy @ filter (ahead_of x (sy_base sy')) dir\<rparr>)"

lemma open_inner_base:
  "open_inner from_json to_json dec crc sdec options instant replica on_disk c d dir = Inr (d', sy) \<Longrightarrow>
   sy_base sy = log_contents dec crc d"
  by (auto simp: open_inner_def system_start_def split: sum.splits wal_error.splits if_splits)

lemma open_fresh_inv:
  assumes "open_auction x options instant replica 0 c \<lparr>manifest = None, files = []\<rparr> [] = Inr (d, sy)"
    and "replica_fits replica sy" and "externals_ok x"
  shows "system_inv (x_enc x) (x_dec x) (x_crc x) (x_senc x) c sy"
proof -
  obtain w where w: "open_log (x_dec x) (x_crc x) (segment_limit (wal_opts options)) 0 [] = Inr w"
    and sy: "sy = system_start options instant replica [] [] (new_state c) seq_start w"
    using assms(1)
    by (auto simp: open_inner_def recover_def read_manifest_def wal_open_def check_manifest_def write_manifest_def
        log_contents_def read_all_def split: sum.splits)
  have h: "log_history (x_enc x) (x_dec x) (x_crc x) w []" by (rule log_new [OF w])
  have d: "durable w = last_seq_of []"
    using w by (auto simp: open_log_def last_seq_in_def read_all_def last_seq_of_def split: sum.splits)
  have rep: "replica = None \<or> replica = Some (standby_start (new_state c))"
    using assms(2) by (simp add: replica_fits_def sy system_start_def engine_start_def)
  have "system_inv (x_enc x) (x_dec x) (x_crc x) (x_senc x) c
      ((system_start options instant replica [] [] (new_state c) seq_start w)\<lparr>sy_promised := [], sy_aside := []\<rparr>)"
    using assms(3) rep by (intro system_start_inv [OF _ _ h d])
      (simp_all add: externals_ok_def resume_at_def last_seq_of_def)
  then show ?thesis by (simp add: sy system_start_def)
qed

lemma restart_inv:
  assumes "system_inv (x_enc x) (x_dec x) (x_crc x) (x_senc x) c sy" and "externals_ok x" and "config_ok c"
    and "synced (cs_wal (sy_commit sy)) \<le> n" and "set dir \<subseteq> set (sy_files sy)" and "x_from_json x m = Inr c"
    and "open_auction x options instant replica (on_disk_after n sy) c (disk_after m n sy) dir = Inr (d, sy')"
    and "replica_fits replica sy'" and "no_stale_snapshot x (sy_aside sy) dir (sy_base sy')"
  shows "system_inv (x_enc x) (x_dec x) (x_crc x) (x_senc x) c
    (sy'\<lparr>sy_promised := sy_promised sy, sy_aside := sy_aside sy @ filter (ahead_of x (sy_base sy')) dir\<rparr>)"
proof -
  have ok: "codec_ok (x_enc x) (x_dec x) (x_crc x)" "snapshot_codec_ok (x_senc x) (x_sdec x)"
    using assms(2) by (simp_all add: externals_ok_def)
  have base: "sy_base sy' = log_contents (x_dec x) (x_crc x) (disk_after m n sy)" using open_inner_base [OF assms(7)] .
  have cond: "read_log x n sy \<noteq> Inr [] \<or> latest_usable (x_sdec x) (x_crc x) dir = None"
    using base assms(9) by (auto simp: no_stale_snapshot_def log_contents_def disk_after_def)
  have dir: "set dir \<subseteq> set (sy_files sy) - set (sy_aside sy)" using assms(5,9) by (auto simp: no_stale_snapshot_def)
  obtain kept s ev nxt w where k: "prefix kept (sy_base sy @ e_log (sy_engine sy))"
    "set (sy_promised sy) \<subseteq> set (told kept (new_state c))" "run_records kept (new_state c) = Some (s, ev)"
    "resume_at (last_seq_of kept) = Some nxt" "log_history (x_enc x) (x_dec x) (x_crc x) w kept"
    "durable w = last_seq_of kept"
    and o: "open_auction x options instant replica (on_disk_after n sy) c (disk_after m n sy) dir =
      Inr (\<lparr>manifest = Some m, files = disk_files w\<rparr>, system_start options instant replica dir kept s nxt w)"
    unfolding on_disk_after_def disk_after_def
    by (rule system_restart [where from_json = "x_from_json x" and to_json = "x_to_json x",
        OF assms(1) ok assms(3,4) dir assms(6) cond]) blast
  have sy': "sy' = system_start options instant replica dir kept s nxt w" using o assms(7) by simp
  obtain s0 where con: "engine_consistent c (sy_base sy) s0 (sy_engine sy)" and wd: "widths_ok sy"
    and sns: "snapshots_ok (x_senc x) (x_crc x) c sy"
    using assms(1) by (auto simp: system_inv_def)
  have "prefix kept (sy_base sy @ e_sent (sy_engine sy))"
    using k(1) con prefix_order.trans unfolding engine_consistent_def by (metis same_prefix_prefix)
  then have width: "log_width (map entry_of kept)" using wd by (metis widths_ok_def prefixE log_width_append)
  have "ahead_of x kept f \<or> snapshot_entry_ok (x_senc x) (x_crc x) c kept f" if f: "f \<in> set dir" for f
  proof (cases "snapshot_seq (fst f)")
    case (Some q)
    have "snapshot_entry_ok (x_senc x) (x_crc x) c (sy_base sy @ e_log (sy_engine sy)) f"
      using sns dir f by (auto simp: snapshots_ok_def)
    then obtain sn where sn: "snapshot_body (x_senc x) (x_crc x) sn = Some (snd f)"
      "snapshot_of c (sy_base sy @ e_log (sy_engine sy)) sn"
      using Some by (auto simp: snapshot_entry_ok_def)
    then obtain body where "x_senc x sn = Some body" by (auto simp: snapshot_body_def)
    then have "snapshot_read (x_sdec x) (x_crc x) (snd f) = Inr sn"
      using ok(2) sn(1) codec_okD(2) [OF ok(1)] by (intro snapshot_read_body [of "x_senc x" sn body]) (auto simp: snapshot_codec_ok_def)
    then have "ahead_of x kept f \<or> not_after (sn_seq sn) (last_seq_of kept)" by (simp add: ahead_of_def)
    then show ?thesis
      using snapshot_of_kept [OF sn(2) engine_log_runs(3) [OF con] k(1)] sn(1) by (auto simp: snapshot_entry_ok_def)
  qed (simp add: snapshot_entry_ok_def)
  then show ?thesis
    unfolding sy' using assms(8) k ok(1) width
    by (intro system_start_inv) (auto simp: replica_fits_def sy' system_start_def engine_start_def)
qed

lemma system_run_inv:
  assumes "system_run (no_stale_snapshot x) x c sy" and "externals_ok x" and "config_ok c"
  shows "system_inv (x_enc x) (x_dec x) (x_crc x) (x_senc x) c sy"
  using assms(1)
proof (induction rule: system_run.induct)
  case (run_open options instant replica d sy)
  then show ?case using open_fresh_inv assms(2) by blast
next
  case (run_step sy sy')
  then show ?case using system_inv_step [OF run_step(2) _ assms(3)] assms(2) by (simp add: externals_ok_def)
next
  case (run_restart sy n dir m options instant replica d sy')
  show ?case
    by (rule restart_inv [OF run_restart(8) assms(2,3) run_restart(2-7)])
qed

lemma system_runE:
  assumes "system_run (no_stale_snapshot x) x c sy" and "externals_ok x" and "config_ok c"
  obtains s0 where "engine_consistent c (sy_base sy) s0 (sy_engine sy)" "standby_ok s0 sy" "widths_ok sy"
    "acks_ok sy" "promises_ok c sy" "cs_submitted (sy_commit sy) = sy_base sy @ e_log (sy_engine sy)"
    "codec_ok (x_enc x) (x_dec x) (x_crc x)"
  using system_run_inv [OF assms] assms(2) by (auto simp: system_inv_def externals_ok_def)

section \<open>The standby has what was acknowledged\<close>

lemma confirmed_is_applied:
  assumes "engine_consistent c base s0 e" and "x \<in> set (told (base @ e_log e) (new_state c))"
    and "r \<in> set (take k (e_sent e))" and "fst x \<le> lr_seq r"
  shows "x \<in> set (told (base @ take k (e_sent e)) (new_state c))"
proof -
  obtain ev where run: "run_records (base @ e_sent e) (new_state c) = Some (e_state e, ev)"
    using engine_log_runs(2) [OF assms(1)] by blast
  have g: "gapless (base @ e_sent e)" and pre: "prefix (e_log e) (e_sent e)"
    using assms(1) by (simp_all add: engine_consistent_def)
  obtain rest where rest: "base @ e_sent e = (base @ e_log e) @ rest" using pre by (auto simp: prefix_def)
  have all: "x \<in> set (told (base @ e_sent e) (new_state c))"
    using set_mono_prefix [OF told_prefix [of "base @ e_log e" "new_state c" rest]] assms(2) unfolding rest by blast
  then obtain r' where r': "r' \<in> set (base @ e_sent e)" "lr_seq r' = fst x" using told_record by blast
  let ?kept = "base @ take k (e_sent e)"
  have split: "base @ e_sent e = ?kept @ drop k (e_sent e)" by simp
  have "gapless (?kept @ drop k (e_sent e))" using g by simp
  then have "r' \<notin> set (drop k (e_sent e))"
    using gapless_split [of ?kept "drop k (e_sent e)" r r'] assms(3,4) r'(2) by auto
  then have "r' \<in> set ?kept" using r'(1) unfolding split set_append [of ?kept] by blast
  moreover have "prefix ?kept (base @ e_sent e)" by (simp add: take_is_prefix)
  ultimately show ?thesis using told_kept [OF run g _ all] r'(2) by blast
qed

end
