(* ===== verification/Examples.thy ===== *)
theory Examples
  imports Restart
begin

text \<open>
  One small auction, used to show that the hypotheses of the theorems can be met: ten units, a clock that
  falls from 1000 by 100 a second to 100, a millisecond batch window and two participants. A resting
  bid at 900 waits while a taker buys at 1000; the clock reaches 900, the resting bid takes the rest and
  the auction clears at 900, which reprices the taker.
\<close>

definition demo_schedule :: price_schedule where
  "demo_schedule = \<lparr>ps_start_price = 1000, ps_floor_price = 100, ps_kind = Stepped 1000000000 100\<rparr>"

definition demo_config :: auction_config where
  "demo_config = new_config (AuctionId 1) 10 demo_schedule"

definition alice :: participant_id where
  "alice = ParticipantId 1"

definition bob :: participant_id where
  "bob = ParticipantId 2"

definition key_a :: idempotency_key where
  "key_a = IdempotencyKey 10"

definition key_b :: idempotency_key where
  "key_b = IdempotencyKey 11"

definition demo_log :: "log_entry list" where
  "demo_log =
     [(0, 0, SetCollateral alice 100000), (1, 0, SetCollateral bob 100000), (2, 0, Open),
      (3, 1000000, SubmitBid alice key_a 6 (bid_kind.Resting 900)),
      (4, 2000000, SubmitBid bob key_b 5 (Take 1000)),
      (5, 3000000, Tick), (6, 1000000000, Tick), (7, 1001000000, Tick)]"

definition demo_limits :: "participant_id \<Rightarrow> int" where
  "demo_limits = (\<lambda>_. 100000)"

lemma demo_config_ok: "config_ok demo_config"
  by code_simp

lemma demo_log_width: "log_width demo_log"
  by code_simp

lemma demo_runs:
  "case run demo_log (new_state demo_config) of
     None \<Rightarrow> False
   | Some (s, ev) \<Rightarrow> status s = status.Cleared \<and> clearing_price s = Some 900 \<and>
       map f_qty (fills s) = [5, 5] \<and> map f_price (fills s) = [900, 900] \<and> supply_remaining s = 0 \<and>
       outcomes s key_b = Some (outcome.Filled 5 900) \<and> last_seq s = Some 7"
  by code_simp


text \<open>The state the example ends in, and the one after its first five commands, while it still runs.\<close>

definition demo_end :: auction_state where
  "demo_end = fst (the (run demo_log (new_state demo_config)))"

definition demo_events :: "event list" where
  "demo_events = snd (the (run demo_log (new_state demo_config)))"

definition demo_mid :: auction_state where
  "demo_mid = fst (the (run (take 5 demo_log) (new_state demo_config)))"

definition demo_mid_events :: "event list" where
  "demo_mid_events = snd (the (run (take 5 demo_log) (new_state demo_config)))"

lemma demo_run: "run demo_log (new_state demo_config) = Some (demo_end, demo_events)"
  using demo_runs by (simp add: demo_end_def demo_events_def split: option.splits)

lemma demo_end_facts:
  "status demo_end = status.Cleared" "clearing_price demo_end = Some 900" "map f_qty (fills demo_end) = [5, 5]"
  "supply_remaining demo_end = 0" "outcomes demo_end key_b = Some (outcome.Filled 5 900)"
  "last_seq demo_end = Some 7"
  using demo_runs demo_run by simp_all

lemma demo_mid_runs:
  "case run (take 5 demo_log) (new_state demo_config) of
     None \<Rightarrow> False
   | Some (s, ev) \<Rightarrow> status s = Live \<and> clearing_price s = None \<and> supply_remaining s = 10 \<and> last_seq s = Some 4 \<and>
       outcomes s key_a = Some (outcome.Resting 6)"
  by code_simp

lemma demo_mid_run: "run (take 5 demo_log) (new_state demo_config) = Some (demo_mid, demo_mid_events)"
  using demo_mid_runs by (simp add: demo_mid_def demo_mid_events_def split: option.splits)

lemma demo_mid_facts:
  "status demo_mid = Live" "clearing_price demo_mid = None" "supply_remaining demo_mid = 10"
  "last_seq demo_mid = Some 4" "outcomes demo_mid key_a = Some (outcome.Resting 6)"
  using demo_mid_runs demo_mid_run by simp_all

lemma demo_mid_width: "log_width (take 5 demo_log)"
  by code_simp

definition demo_ticked :: auction_state where
  "demo_ticked = fst (the (apply_cmd 5 3000000 Tick demo_mid))"

lemma demo_ticked_runs:
  "case run (take 6 demo_log) (new_state demo_config) of
     None \<Rightarrow> False
   | Some (s, ev) \<Rightarrow> accepts_bids (status s) \<and> now s = 3000000 \<and> deadline s = Some 1000000000"
  by code_simp

lemma demo_ticked_facts:
  "\<exists>ev. apply_cmd 5 3000000 Tick demo_mid = Some (demo_ticked, ev)"
  "accepts_bids (status demo_ticked)" "now demo_ticked = 3000000" "deadline demo_ticked = Some 1000000000"
proof -
  have six: "take 6 demo_log = take 5 demo_log @ [(5, 3000000, Tick)]" by (simp add: demo_log_def)
  have "\<exists>ev. apply_cmd 5 3000000 Tick demo_mid = Some (demo_ticked, ev) \<and> accepts_bids (status demo_ticked) \<and>
      now demo_ticked = 3000000 \<and> deadline demo_ticked = Some 1000000000"
    using demo_ticked_runs unfolding six run_append demo_mid_run demo_ticked_def by (auto split: option.splits)
  then show "\<exists>ev. apply_cmd 5 3000000 Tick demo_mid = Some (demo_ticked, ev)"
    "accepts_bids (status demo_ticked)" "now demo_ticked = 3000000" "deadline demo_ticked = Some 1000000000"
    by blast+
qed

lemma demo_within_limits: "list_all (within_limits demo_limits \<circ> entry_cmd) demo_log"
  by code_simp

section \<open>A codec\<close>

text \<open>
  A serializer for commands without arguments and a checksum, enough to meet \<open>codec_ok\<close>: a tag byte, then
  sequence number and timestamp as 32-bit numbers. Other records fail to encode.
\<close>

definition tag_of :: "command \<Rightarrow> byte option" where
  "tag_of cmd = (case cmd of Open \<Rightarrow> Some 0 | Tick \<Rightarrow> Some 4 | Cancel \<Rightarrow> Some 5 | _ \<Rightarrow> None)"

definition demo_enc :: encoder where
  "demo_enc r = (if u32_ok (lr_seq r) \<and> u32_ok (lr_ts r)
     then map_option (\<lambda>t. t # to_le_bytes (lr_seq r) @ to_le_bytes (lr_ts r)) (tag_of (lr_cmd r)) else None)"

definition demo_dec :: decoder where
  "demo_dec bs =
     (if length bs \<noteq> 9 then Inl ''length''
      else let cmd = (if hd bs = 0 then Some Open else if hd bs = 4 then Some Tick
                      else if hd bs = 5 then Some Cancel else None)
           in case cmd of
                None \<Rightarrow> Inl ''tag''
              | Some c \<Rightarrow> Inr \<lparr>lr_seq = from_le_bytes (take 4 (drop 1 bs)),
                               lr_ts = from_le_bytes (drop 5 bs), lr_cmd = c\<rparr>)"

definition demo_crc :: checksum where
  "demo_crc bs = sum_list (map unat bs) mod 4294967296"

lemma demo_codec_ok: "codec_ok demo_enc demo_dec demo_crc"
proof -
  have "demo_dec p = Inr r \<and> length p = 9" if enc: "demo_enc r = Some p" for r p
  proof -
    obtain t where t: "tag_of (lr_cmd r) = Some t" "u32_ok (lr_seq r)" "u32_ok (lr_ts r)"
      and p: "p = t # to_le_bytes (lr_seq r) @ to_le_bytes (lr_ts r)"
      using enc by (auto simp: demo_enc_def split: if_splits)
    then have "demo_dec p = Inr \<lparr>lr_seq = lr_seq r, lr_ts = lr_ts r, lr_cmd = lr_cmd r\<rparr>"
      by (cases "lr_cmd r") (auto simp: demo_dec_def tag_of_def from_to_le_bytes)
    then show ?thesis by (simp add: p)
  qed
  then show ?thesis by (auto simp: codec_ok_def max_record_len_def u32_ok_def demo_crc_def)
qed

definition record_open :: log_record where
  "record_open = \<lparr>lr_seq = 0, lr_ts = 0, lr_cmd = Open\<rparr>"

definition record_tick :: log_record where
  "record_tick = \<lparr>lr_seq = 1, lr_ts = 5, lr_cmd = Tick\<rparr>"

text \<open>A log with one durable record and one that was only appended.\<close>

definition the_inr :: "'a + 'b \<Rightarrow> 'b" where
  "the_inr x = (case x of Inr y \<Rightarrow> y)"

definition log0 :: wal where
  "log0 = the_inr (open_log demo_dec demo_crc 1000 0 [])"

definition log1 :: wal where
  "log1 = fst (wal_append demo_enc demo_crc append_fine record_open log0)"

definition log2 :: wal where
  "log2 = fst (the_inr (wal_sync True log1))"

definition log3 :: wal where
  "log3 = fst (wal_append demo_enc demo_crc append_fine record_tick log2)"

lemma demo_log_steps:
  "open_log demo_dec demo_crc 1000 0 [] = Inr log0"
  "wal_append demo_enc demo_crc append_fine record_open log0 = (log1, None)"
  "wal_sync True log1 = Inr (log2, Some 0)"
  "wal_append demo_enc demo_crc append_fine record_tick log2 = (log3, None)"
  "synced log3 = 17" "length (active log3) = 34" "durable log3 = Some 0"
  by code_simp+

lemma demo_history: "log_history demo_enc demo_dec demo_crc log3 [record_open, record_tick]"
proof -
  have "log_history demo_enc demo_dec demo_crc log0 []" by (rule log_new [OF demo_log_steps(1)])
  from log_append [OF this demo_log_steps(2)]
  have "log_history demo_enc demo_dec demo_crc log1 [record_open]" by simp
  from log_append [OF log_sync [OF this demo_log_steps(3)] demo_log_steps(4)] show ?thesis by simp
qed

section \<open>A run of the engine\<close>

text \<open>An iteration in which every send succeeds and the queue is empty.\<close>

definition calm :: "int \<Rightarrow> environment" where
  "calm instant = \<lparr>env_instant = instant, env_rx_empty = True, env_commit_ok = True, env_ack_ok = True,
     env_snap_ok = True, env_terminal_snap_ok = True\<rparr>"

definition asks :: "command \<Rightarrow> submission" where
  "asks cmd = \<lparr>sub_cmd = cmd, sub_reply = True\<rparr>"

definition good_io :: batch_io where
  "good_io = \<lparr>bi_append = (\<lambda>r. append_fine), bi_sync = True, bi_polls = 5\<rparr>"

definition demo_describe :: "wal_error \<Rightarrow> string" where
  "demo_describe e = ''wal error''"

definition demo_from_json :: json_reader where
  "demo_from_json bytes = (if bytes = [123, 125] then Inr demo_config else Inl ''json'')"

definition demo_to_json :: json_writer where
  "demo_to_json c = [123, 125]"

definition demo_options :: engine_options where
  "demo_options = \<lparr>queue_depth = 4, wal_opts = \<lparr>segment_limit = 1000, linger = 500000, max_batch = 8, submit_queue_depth = 4\<rparr>,
     snapshot_every = 1, spin_ahead = 250000, replication = Sync, replica_timeout = from_secs 2\<rparr>"

section \<open>A run of the system\<close>

text \<open>
  The auction is opened with a standby; it is told to open and then cancelled; both commands are logged, made durable in
  one batch, followed by the standby and acknowledged; and a snapshot is written. The serializer of snapshots knows
  the one state it has to write.
\<close>

definition fresh_system :: "snapshot_decoder \<Rightarrow> system" where
  "fresh_system sdec = snd (the_inr (open_inner demo_from_json demo_to_json demo_dec demo_crc sdec demo_options 0
     (Some (standby_start (new_state demo_config))) 0 demo_config \<lparr>manifest = None, files = []\<rparr> []))"

definition sys0 :: system where
  "sys0 = fresh_system (\<lambda>b. Inl ''none'')"

definition sys1 :: system where
  "sys1 = sys0\<lparr>sy_rx := [asks Open]\<rparr>"

definition step_engine :: "int \<Rightarrow> submission \<Rightarrow> system \<Rightarrow> system" where
  "step_engine instant sub sy =
     (let e = the (engine_step 1 (calm instant) sub (sy_engine sy))
      in sy\<lparr>sy_engine := e, sy_rx := [], sy_commit := hand_over (sy_engine sy) e (sy_commit sy)\<rparr>)"

definition sys2 :: system where
  "sys2 = step_engine 0 (asks Open) sys1"

definition sys3 :: system where
  "sys3 = sys2\<lparr>sy_rx := [asks Cancel]\<rparr>"

definition sys4 :: system where
  "sys4 = step_engine 7 (asks Cancel) sys3"

definition sys5 :: system where
  "sys5 = sys4\<lparr>sy_commit := writer_round demo_enc demo_crc demo_describe good_io (sy_commit sys4)\<rparr>"

definition step_replica :: "system \<Rightarrow> system" where
  "step_replica sy = sy\<lparr>sy_replica := Some (the_inr (standby_step (e_sent (sy_engine sy) ! sy_replica_pos sy) (the (sy_replica sy)))),
     sy_replica_pos := sy_replica_pos sy + 1\<rparr>"

definition sys6 :: system where
  "sys6 = step_replica sys5"

definition sys7 :: system where
  "sys7 = step_replica sys6"

definition step_ack_one :: "system \<Rightarrow> system" where
  "step_ack_one sy =
     (let p = e_pending (sy_engine sy) ! sy_ack_pos sy
      in sy\<lparr>sy_acks := ack_one (\<lambda>t. replica_confirmed t (sb_mark (the (sy_replica sy)))) (sy_replica sy \<noteq> None)
                (replication (sy_options sy)) p (sy_acks sy),
            sy_ack_pos := sy_ack_pos sy + 1,
            sy_promised := sy_promised sy @ (if pa_reply p then [(pa_seq p, pa_events p)] else [])\<rparr>)"

definition sys8 :: system where
  "sys8 = step_ack_one sys7"

definition sys9 :: system where
  "sys9 = step_ack_one sys8"

definition demo_snapshot :: snapshot where
  "demo_snapshot = \<lparr>sn_seq = 1, sn_state = snd (hd (e_snapshots (sy_engine sys9)))\<rparr>"

definition demo_senc :: snapshot_encoder where
  "demo_senc sn = (if sn = demo_snapshot then Some [42] else None)"

definition demo_sdec :: snapshot_decoder where
  "demo_sdec bytes = Inr demo_snapshot"

definition demo_x :: externals where
  "demo_x = \<lparr>x_from_json = demo_from_json, x_to_json = demo_to_json, x_enc = demo_enc, x_dec = demo_dec,
     x_crc = demo_crc, x_describe = demo_describe, x_senc = demo_senc, x_sdec = demo_sdec\<rparr>"

definition demo_dir :: directory where
  "demo_dir = [(snapshot_name 1, [42] @ to_le_bytes (demo_crc [42]))]"

definition sys10 :: system where
  "sys10 = sys9\<lparr>sy_dir := demo_dir, sy_files := demo_dir @ sy_files sys9, sy_snap_pos := sy_snap_pos sys9 + 1\<rparr>"

lemma demo_externals_ok: "externals_ok demo_x"
  by (simp add: externals_ok_def demo_x_def demo_codec_ok snapshot_codec_ok_def demo_senc_def demo_sdec_def)

lemma is_some: "(case v of None \<Rightarrow> False | Some y \<Rightarrow> True) \<Longrightarrow> v = Some (the v)"
  by (cases v) simp_all

lemma is_inr: "(case v of Inl e \<Rightarrow> False | Inr y \<Rightarrow> True) \<Longrightarrow> v = Inr (the_inr v)"
  by (cases v) (simp_all add: the_inr_def)

lemma sys_facts_engine:
  "next_submission 0 sys1 = Some (asks Open, [])" "next_submission 0 sys3 = Some (asks Cancel, [])"
  "e_running (sy_engine sys1)" "e_running (sy_engine sys3)"
  "\<not> queue_full (sy_commit sys1)" "\<not> queue_full (sy_commit sys3)"
  "cs_phase (sy_commit sys1) = Writing" "cs_phase (sy_commit sys3) = Writing"
  "sy_ack_alive sys1" "sy_ack_alive sys3"
  "snapshot_every (sy_options sys1) = 1" "snapshot_every (sy_options sys3) = 1"
  "case engine_step 1 (calm 0) (asks Open) (sy_engine sys1) of None \<Rightarrow> False | Some e \<Rightarrow> True"
  "case engine_step 1 (calm 7) (asks Cancel) (sy_engine sys3) of None \<Rightarrow> False | Some e \<Rightarrow> True"
  "sy_rx sys0 = []" "sy_rx sys2 = []" "e_running (sy_engine sys0)" "e_running (sy_engine sys2)"
  "queue_depth (sy_options sys0) = 4" "queue_depth (sy_options sys2) = 4"
  by code_simp+

lemma sys_facts_other:
  "cs_phase (sy_commit sys4) = Writing" "length (cs_queue (sy_commit sys4)) = 2"
  "cs_submitted (sy_commit sys5) = cs_submitted (sy_commit sys4)"
  "case sy_replica sys5 of None \<Rightarrow> False | Some sb \<Rightarrow> True" "case sy_replica sys6 of None \<Rightarrow> False | Some sb \<Rightarrow> True"
  "sy_replica_pos sys5 < length (e_sent (sy_engine sys5))" "sy_replica_pos sys6 < length (e_sent (sy_engine sys6))"
  "case standby_step (e_sent (sy_engine sys5) ! sy_replica_pos sys5) (the (sy_replica sys5)) of Inl e \<Rightarrow> False | Inr sb \<Rightarrow> True"
  "case standby_step (e_sent (sy_engine sys6) ! sy_replica_pos sys6) (the (sy_replica sys6)) of Inl e \<Rightarrow> False | Inr sb \<Rightarrow> True"
  "sy_ack_alive sys7" "sy_ack_alive sys8"
  "sy_ack_pos sys7 < length (e_pending (sy_engine sys7))" "sy_ack_pos sys8 < length (e_pending (sy_engine sys8))"
  "wait_for (pa_seq (e_pending (sy_engine sys7) ! sy_ack_pos sys7)) (cs_mark (sy_commit sys7)) = Released"
  "wait_for (pa_seq (e_pending (sy_engine sys8) ! sy_ack_pos sys8)) (cs_mark (sy_commit sys8)) = Released"
  "last_seq (snd (hd (e_snapshots (sy_engine sys9)))) = Some 1" "length (e_snapshots (sy_engine sys9)) = 2"
  "sy_snap_pos sys9 = 0" "length (sy_dir sys9) = 0"
  by code_simp+

lemma sys_final:
  "sy_promised sys9 = [(0, [Opened 1000 10]), (1, [event.Cancelled])]" "synced (cs_wal (sy_commit sys9)) = 34"
  "\<not> ar_replica_lost (sy_acks sys9)" "replication (sy_options sys9) = Sync" "length (sy_base sys9) = 0"
  "map lr_seq (e_log (sy_engine sys9)) = [0, 1]" "ar_acked (sy_acks sys9) = [(0, [Opened 1000 10]), (1, [event.Cancelled])]"
  "case sy_replica sys9 of None \<Rightarrow> False | Some sb \<Rightarrow> True" "length (sy_aside sys9) = 0"
  by code_simp+

lemma demo_broadcast: "ar_broadcast (sy_acks sys10) = [(0, Opened 1000 10), (1, event.Cancelled)]"
proof -
  have "ar_broadcast (sy_acks sys9) = [(0, Opened 1000 10), (1, event.Cancelled)]" by code_simp
  then show ?thesis by (simp add: sys10_def)
qed

abbreviation demo_step :: "system \<Rightarrow> system \<Rightarrow> bool" where
  "demo_step \<equiv> system_step demo_enc demo_crc demo_describe demo_senc"

lemma fresh_system_opens:
  "\<exists>d. open_auction demo_x demo_options 0 (Some (standby_start (new_state demo_config))) 0 demo_config
     \<lparr>manifest = None, files = []\<rparr> [] = Inr (d, sys0)"
proof -
  have any: "open_inner demo_from_json demo_to_json demo_dec demo_crc sdec demo_options 0
      (Some (standby_start (new_state demo_config))) 0 demo_config \<lparr>manifest = None, files = []\<rparr> [] =
    open_inner demo_from_json demo_to_json demo_dec demo_crc (\<lambda>b. Inl ''none'') demo_options 0
      (Some (standby_start (new_state demo_config))) 0 demo_config \<lparr>manifest = None, files = []\<rparr> []" for sdec
    by (simp add: open_inner_def recover_def read_manifest_def)
  have "case open_inner demo_from_json demo_to_json demo_dec demo_crc (\<lambda>b. Inl ''none'') demo_options 0
      (Some (standby_start (new_state demo_config))) 0 demo_config \<lparr>manifest = None, files = []\<rparr> [] of
      Inl e \<Rightarrow> False | Inr y \<Rightarrow> True"
    by code_simp
  from is_inr [OF this] show ?thesis
    unfolding demo_x_def externals.simps any [of demo_sdec] sys0_def fresh_system_def by (metis prod.collapse)
qed

lemma demo_opens: "system_run (no_stale_snapshot demo_x) demo_x demo_config sys0"
proof -
  have "e_state (sy_engine sys0) = new_state demo_config"
    by (simp add: sys0_def fresh_system_def the_inr_def open_inner_def recover_def read_manifest_def wal_open_def
        check_manifest_def write_manifest_def open_log_def last_seq_in_def read_all_def truncate_torn_tail_def
        read_segment_def read_from.simps system_start_def engine_start_def)
  then show ?thesis
    using fresh_system_opens by (auto intro!: run_open simp: replica_fits_def)
qed

lemma demo_step_engine:
  assumes "next_submission 0 sy = Some (sub, [])" and "e_running (sy_engine sy)" and "\<not> queue_full (sy_commit sy)"
    and "cs_phase (sy_commit sy) = Writing" and "sy_ack_alive sy" and "snapshot_every (sy_options sy) = 1"
    and "case engine_step 1 (calm instant) sub (sy_engine sy) of None \<Rightarrow> False | Some e \<Rightarrow> True"
  shows "demo_step sy (step_engine instant sub sy)"
  unfolding step_engine_def Let_def using assms is_some [OF assms(7)]
  by (intro sys_engine [of sy 0 sub "[]" "calm instant"]) (simp_all add: calm_def)

lemma demo_step_replica:
  assumes "case sy_replica sy of None \<Rightarrow> False | Some sb \<Rightarrow> True" and "sy_replica_pos sy < length (e_sent (sy_engine sy))"
    and "case standby_step (e_sent (sy_engine sy) ! sy_replica_pos sy) (the (sy_replica sy)) of Inl e \<Rightarrow> False | Inr sb \<Rightarrow> True"
  shows "demo_step sy (step_replica sy)"
  unfolding step_replica_def using is_some [OF assms(1)] assms(2) is_inr [OF assms(3)] by (rule sys_replica)

lemma demo_step_ack:
  assumes "sy_ack_alive sy" and "sy_ack_pos sy < length (e_pending (sy_engine sy))"
    and "wait_for (pa_seq (e_pending (sy_engine sy) ! sy_ack_pos sy)) (cs_mark (sy_commit sy)) = Released"
  shows "demo_step sy (step_ack_one sy)"
  unfolding step_ack_one_def Let_def using assms by (intro sys_ack) simp_all

lemma demo_step_snapshot: "demo_step sys9 sys10"
proof -
  let ?s = "snd (hd (e_snapshots (sy_engine sys9)))"
  have hd: "e_snapshots (sy_engine sys9) ! sy_snap_pos sys9 = hd (e_snapshots (sy_engine sys9))"
    using sys_facts_other(17,18) by (cases "e_snapshots (sy_engine sys9)") simp_all
  have body: "snapshot_body demo_senc demo_crc \<lparr>sn_seq = 1, sn_state = ?s\<rparr> = Some ([42] @ to_le_bytes (demo_crc [42]))"
    by (simp add: snapshot_body_def demo_senc_def demo_snapshot_def)
  have empty: "sy_dir sys9 = []" using sys_facts_other(19) by simp
  have wrote: "snapshot_write demo_senc demo_crc SnapDone [] ?s = (demo_dir, Inr (Some 1))"
    unfolding snapshot_write_def sys_facts_other(16) option.case body
    by (simp add: demo_dir_def put_entry_def remove_entry_def)
  have "snapshot_seq (snapshot_name 1) = Some 1" by (rule snapshot_seq_name_aux) (simp add: machine_int)
  then have "snapshot_names demo_dir = [snapshot_name 1]"
    by (simp add: snapshot_names_def demo_dir_def List.map_filter_def)
  then have job: "demo_dir = snapshot_job demo_senc demo_crc SnapDone (\<lambda>name. True)
      (snd (e_snapshots (sy_engine sys9) ! sy_snap_pos sys9)) (sy_dir sys9)"
    by (simp add: snapshot_job_def empty hd wrote prune_def)
  have "sy_snap_pos sys9 < length (e_snapshots (sy_engine sys9))" using sys_facts_other(17,18) by simp
  from sys_snapshot [OF this job] show ?thesis unfolding sys10_def .
qed

lemma demo_commit: "demo_step sys4 sys5"
proof -
  have "cs_queue (sy_commit sys4) \<noteq> []" using sys_facts_other(2) by auto
  from step_round [OF sys_facts_other(1) this]
  have "commit_step demo_enc demo_crc demo_describe (sy_commit sys4) (sy_commit sys5)" by (simp add: sys5_def)
  from sys_commit [OF this] sys_facts_other(3) show ?thesis by (simp add: sys5_def)
qed

lemma demo_lives: "system_run (no_stale_snapshot demo_x) demo_x demo_config sys10"
proof -
  have x: "x_enc demo_x = demo_enc" "x_crc demo_x = demo_crc" "x_describe demo_x = demo_describe" "x_senc demo_x = demo_senc"
    by (simp_all add: demo_x_def)
  have go: "system_run (no_stale_snapshot demo_x) demo_x demo_config sy \<Longrightarrow> demo_step sy sy' \<Longrightarrow> system_run (no_stale_snapshot demo_x) demo_x demo_config sy'" for sy sy'
    using run_step [of "no_stale_snapshot demo_x" demo_x demo_config sy sy'] by (simp add: x)
  have "demo_step sys0 sys1"
    unfolding sys1_def by (rule sys_offer [where sub = "asks Open"]) (simp_all add: sys_facts_engine offer_def asks_def)
  moreover have "demo_step sys1 sys2" unfolding sys2_def by (rule demo_step_engine) (rule sys_facts_engine)+
  moreover have "demo_step sys2 sys3"
    unfolding sys3_def by (rule sys_offer [where sub = "asks Cancel"]) (simp_all add: sys_facts_engine offer_def asks_def)
  moreover have "demo_step sys3 sys4" unfolding sys4_def by (rule demo_step_engine) (rule sys_facts_engine)+
  moreover have "demo_step sys5 sys6" unfolding sys6_def by (rule demo_step_replica) (rule sys_facts_other)+
  moreover have "demo_step sys6 sys7" unfolding sys7_def by (rule demo_step_replica) (rule sys_facts_other)+
  moreover have "demo_step sys7 sys8" unfolding sys8_def by (rule demo_step_ack) (rule sys_facts_other)+
  moreover have "demo_step sys8 sys9" unfolding sys9_def by (rule demo_step_ack) (rule sys_facts_other)+
  ultimately show ?thesis using demo_opens demo_commit demo_step_snapshot go by metis
qed

lemma demo_lives_facts:
  "sy_promised sys10 = [(0, [Opened 1000 10]), (1, [event.Cancelled])]" "synced (cs_wal (sy_commit sys10)) = 34"
  "\<not> ar_replica_lost (sy_acks sys10)" "replication (sy_options sys10) = Sync" "sy_base sys10 = []"
  "map lr_seq (e_log (sy_engine sys10)) = [0, 1]" "ar_acked (sy_acks sys10) = [(0, [Opened 1000 10]), (1, [event.Cancelled])]"
  "sy_replica sys10 = Some (the (sy_replica sys10))" "set demo_dir \<subseteq> set (sy_files sys10) - set (sy_aside sys10)"
  using sys_final is_some [OF sys_final(8)] by (simp_all add: sys10_def)

end
