(* ===== verification/Sale_Spec.thy ===== *)
theory Sale_Spec
  imports Pricing
begin

text \<open>
  What the auction promises, as an abstract sale, and that the state machine of \<open>state.rs\<close> implements it.

  A sale has a phase, a number of units left and a book of who bought how much at what price. Four
  events change it: it opens, units are sold at a price not above any earlier one, it closes at one price for
  everybody, or it is withdrawn. Batch windows, resting bids, collateral, outcomes and rationing are
  not part of the picture; \<open>sale_apply\<close> shows that every command of the real machine is a
  sequence of these events.
\<close>

datatype sale_phase = Announced | OnSale | SoldAt price | Withdrawn

record sale =
  sale_phase :: sale_phase
  sale_left :: qty
  sale_book :: "(participant_id \<times> qty \<times> price) list"

definition below_book :: "price \<Rightarrow> sale \<Rightarrow> bool" where
  "below_book p a \<longleftrightarrow> list_all (\<lambda>(pt, q, x). p \<le> x) (sale_book a)"

inductive sale_step :: "price \<Rightarrow> sale \<Rightarrow> sale \<Rightarrow> bool" for flr where
  sale_open: "sale_phase a = Announced \<Longrightarrow> sale_step flr a (a\<lparr>sale_phase := OnSale\<rparr>)"
| sale_sell: "sale_phase a = OnSale \<Longrightarrow> below_book p a \<Longrightarrow> list_all (\<lambda>(pt, q, x). 0 < q \<and> x = p) bought \<Longrightarrow>
    left + sum_list (map (fst \<circ> snd) bought) = sale_left a \<Longrightarrow>
    sale_step flr a (a\<lparr>sale_left := left, sale_book := sale_book a @ bought\<rparr>)"
| sale_close: "sale_phase a = OnSale \<Longrightarrow> sale_left a = 0 \<or> p = flr \<Longrightarrow> below_book p a \<Longrightarrow>
    sale_step flr a (a\<lparr>sale_phase := SoldAt p, sale_book := map (\<lambda>(pt, q, x). (pt, q, p)) (sale_book a)\<rparr>)"
| sale_withdraw: "sale_phase a = Announced \<or> sale_phase a = OnSale \<Longrightarrow>
    sale_step flr a (a\<lparr>sale_phase := Withdrawn\<rparr>)"

abbreviation sale_steps :: "price \<Rightarrow> sale \<Rightarrow> sale \<Rightarrow> bool" where
  "sale_steps flr \<equiv> (sale_step flr)\<^sup>*\<^sup>*"

inductive_cases sale_step_closed: "sale_step flr a a'"

text \<open>The abstract sale on its own: it never sells more than it has, and a closed sale has one price.\<close>

definition booked_units :: "sale \<Rightarrow> nat" where
  "booked_units a = sum_list (map (fst \<circ> snd) (sale_book a))"

definition one_price :: "sale \<Rightarrow> bool" where
  "one_price a \<longleftrightarrow> (case sale_phase a of SoldAt p \<Rightarrow> list_all (\<lambda>(pt, q, x). x = p) (sale_book a) | _ \<Rightarrow> True)"

lemma sale_step_units: "sale_step flr a a' \<Longrightarrow> booked_units a' + sale_left a' = booked_units a + sale_left a"
  by (erule sale_step_closed) (auto simp: booked_units_def comp_def case_prod_beta)

lemma sale_step_one_price: "sale_step flr a a' \<Longrightarrow> one_price a \<Longrightarrow> one_price a'"
  by (erule sale_step_closed) (auto simp: one_price_def list_all_iff)

section \<open>The state machine as a sale\<close>

definition book_line :: "fill \<Rightarrow> participant_id \<times> qty \<times> price" where
  "book_line f = (f_participant f, f_qty f, f_price f)"

definition phase_of :: "auction_state \<Rightarrow> sale_phase" where
  "phase_of s = (case status s of
     Pending \<Rightarrow> Announced
   | Live \<Rightarrow> OnSale
   | status.Cleared \<Rightarrow> SoldAt (unwrap_or (clearing_price s) (floor_price (config s)))
   | status.Cancelled \<Rightarrow> Withdrawn)"

definition sale_of :: "auction_state \<Rightarrow> sale" where
  "sale_of s = \<lparr>sale_phase = phase_of s, sale_left = supply_remaining s, sale_book = map book_line (fills s)\<rparr>"

lemma sale_of_cong:
  "status s' = status s \<Longrightarrow> clearing_price s' = clearing_price s \<Longrightarrow> config s' = config s \<Longrightarrow>
   supply_remaining s' = supply_remaining s \<Longrightarrow> fills s' = fills s \<Longrightarrow> sale_of s' = sale_of s"
  by (simp add: sale_of_def phase_of_def split: status.splits)

lemma sale_only_accounts: "only_accounts s s' \<Longrightarrow> sale_of s' = sale_of s"
  by (rule sale_of_cong) (simp_all add: only_accounts_def)

lemma reserve_sale: "reserve pt p q s = (s', b) \<Longrightarrow> sale_of s' = sale_of s"
  using reserve_only_accounts sale_only_accounts by blast

lemma book_line_new_fills:
  "list_all (\<lambda>(pt, q, x). 0 < q \<and> x = p) (map book_line (new_fills p n bas))"
  using new_fills_pos [of p n bas] new_fills_price [of _ p n bas] by (auto simp: list_all_iff book_line_def)

lemma book_line_cleared: "map book_line (cleared_fills p fs) = map (\<lambda>(pt, q, x). (pt, q, p)) (map book_line fs)"
  by (simp add: cleared_fills_def book_line_def)

lemma below_bookI: "fills_above p s \<Longrightarrow> below_book p (sale_of s)"
  by (auto simp: below_book_def sale_of_def fills_above_def book_line_def list_all_iff)

lemma sale_clear:
  assumes "status s = Live" and "supply_remaining s = 0 \<or> p = floor_price (config s)" and "fills_above p s"
  shows "sale_step (floor_price (config s)) (sale_of s) (sale_of (fst (clear p (s, ev))))"
proof -
  have "sale_step (floor_price (config s)) (sale_of s)
      (sale_of s\<lparr>sale_phase := SoldAt p, sale_book := map (\<lambda>(pt, q, x). (pt, q, p)) (sale_book (sale_of s))\<rparr>)"
    using assms(1,2) below_bookI [OF assms(3)] by (intro sale_close) (auto simp: sale_of_def phase_of_def)
  moreover have "sale_of (fst (clear p (s, ev))) =
      sale_of s\<lparr>sale_phase := SoldAt p, sale_book := map (\<lambda>(pt, q, x). (pt, q, p)) (sale_book (sale_of s))\<rparr>"
    by (simp add: sale_of_def phase_of_def clear_frame book_line_cleared)
  ultimately show ?thesis by simp
qed

lemma sale_flush:
  assumes "priced s" and "shape_at t s"
  shows "sale_steps (floor_price (config s)) (sale_of s) (sale_of (fst (flush_window (s, ev))))"
  using assms(2)
proof (cases rule: flush_shape_cases [where ev = ev])
  case none
  then show ?thesis by simp
next
  case (live w allocs rem ex s1 e1)
  let ?p = "w_price w" and ?bids = "sort_bids (w_bids w)" and ?flr = "floor_price (config s)"
  let ?new = "new_fills ?p (next_fill_id s) (zip ?bids allocs)"
  have fr: "config s1 = config s" "supply_remaining s1 = rem" "status s1 = status s"
    "clearing_price s1 = clearing_price s" "fills s1 = fills s @ ?new"
    using live(7) by (simp_all add: settles_def)
  have st: "status s = Live" using live(2) by (simp add: accepts_bids_def)
  have u: "u64_ok (supply_remaining s)" and cfg: "config_ok (config s)" using assms(2) by (simp_all add: shape_at_def)
  have above: "fills_above ?p s" using assms(1) live(1) by (simp add: priced_def prices_descend_def)
  have "?p = snd (window_bounds s t)" using assms(2) live(1) by (metis shape_at_def snd_conv window_shape_def)
  then have "?p \<le> start_price (config s)" using window_price_bounds [OF cfg, of t] by simp
  then have above1: "fills_above ?p s1"
    using above new_fills_price by (fastforce simp: fills_above_def fr)
  have "sum_list (map f_qty ?new) + rem = supply_remaining s"
    using match_supply [OF live(3) u live(4)] by (simp add: filled_qty_new filled_qty_def [symmetric])
  then have sum: "rem + sum_list (map (fst \<circ> snd) (map book_line ?new)) = sale_left (sale_of s)"
    by (simp add: sale_of_def book_line_def comp_def)
  have "sale_step ?flr (sale_of s)
      (sale_of s\<lparr>sale_left := rem, sale_book := sale_book (sale_of s) @ map book_line ?new\<rparr>)"
    using st below_bookI [OF above] book_line_new_fills sum
    by (intro sale_sell [where p = ?p]) (simp_all add: sale_of_def phase_of_def)
  moreover have "sale_of s1 = sale_of s\<lparr>sale_left := rem, sale_book := sale_book (sale_of s) @ map book_line ?new\<rparr>"
    using st by (simp add: sale_of_def phase_of_def fr)
  ultimately have sell: "sale_step ?flr (sale_of s) (sale_of s1)" by simp
  show ?thesis
  proof (cases ex)
    case True
    have "\<forall>b \<in> set ?bids. bid_ok b" using live(3) by (simp add: window_ok_def)
    from match_levels_spec [OF this u live(4)] True have "rem = 0" by (auto split: if_splits)
    then have "sale_step ?flr (sale_of s1) (sale_of (fst (clear ?p (s1, e1))))"
      using sale_clear [of s1 ?p e1] st above1 by (simp add: fr)
    with sell show ?thesis using True by (simp add: live(8))
  next
    case False
    then show ?thesis using sell by (simp add: live(8))
  qed
qed

lemma sale_micro:
  assumes "micro cmd s s'" and "shape s" and "priced s"
  shows "sale_steps (floor_price (config s)) (sale_of s) (sale_of s')"
  using assms(1)
proof cases
  case micro_open
  have "sale_step (floor_price (config s)) (sale_of s) (sale_of s\<lparr>sale_phase := OnSale\<rparr>)"
    using micro_open by (intro sale_open) (simp add: sale_of_def phase_of_def)
  moreover have "sale_of s' = sale_of s\<lparr>sale_phase := OnSale\<rparr>"
    using micro_open by (simp add: sale_of_def phase_of_def)
  ultimately show ?thesis by simp
next
  case (micro_flush ev ev')
  then show ?thesis using sale_flush [OF assms(3,2), of ev] by simp
next
  case (micro_clear ev ev')
  have "config_ok (config s)" using assms(2) by (simp add: shape_at_def)
  then have "fills_above (floor_price (config s)) s"
    using assms(3) window_price_bounds [of s "now s"] by (fastforce simp: priced_defs)
  then show ?thesis
    using sale_clear [of s "floor_price (config s)" ev] micro_clear by (simp add: accepts_bids_def r_into_rtranclp)
next
  case (micro_cancel ev ev')
  have "sale_of s' = sale_of s\<lparr>sale_phase := Withdrawn\<rparr>"
    using cancel_accounts [OF micro_cancel(3)] by (simp add: sale_of_def phase_of_def only_accounts_def)
  moreover have "sale_step (floor_price (config s)) (sale_of s) (sale_of s\<lparr>sale_phase := Withdrawn\<rparr>)"
    using micro_cancel(2)
    by (intro sale_withdraw) (auto simp: sale_of_def phase_of_def is_terminal_def split: status.splits)
  ultimately show ?thesis by simp
next
  case (micro_short pt key q kind p s1)
  then show ?thesis
    using reserve_sale [OF micro_short(4)] sale_of_cong [of s' s1] by simp
next
  case (micro_take pt key q x i p s1 sq)
  then show ?thesis
    using reserve_sale [OF micro_take(8)] sale_of_cong [of s' s1] by simp
next
  case (micro_rest pt key q limit s1 sq)
  then show ?thesis
    using reserve_sale [OF micro_rest(7)] sale_of_cong [of s' s1] by simp
qed (use sale_of_cong [of s' s] in simp_all)

lemma sale_micros:
  "micros cmd s s' \<Longrightarrow> shape s \<Longrightarrow> priced s \<Longrightarrow> cmd_width cmd \<Longrightarrow>
     sale_steps (floor_price (config s)) (sale_of s) (sale_of s')"
proof (induction rule: rtranclp_induct)
  case (step y z)
  then have "shape y" "config y = config s" using shape_micros by blast+
  moreover have "priced y" using pricing.inv_micros [OF step(1)] step by blast
  ultimately show ?case using sale_micro [OF step(2)] step by (simp add: rtranclp_trans)
qed simp

lemma sale_apply:
  assumes "apply_cmd sq ts cmd s = Some (s', ev)" and "shape s" and "priced s" and "u64_ok ts" and "cmd_width cmd"
  shows "sale_steps (floor_price (config s)) (sale_of s) (sale_of s')"
proof -
  let ?a = "fst (advanced sq ts s)"
  have st: "sale_of (stamped sq ts s) = sale_of s" "config (stamped sq ts s) = config s"
    using sale_of_cong [of "stamped sq ts s" s] by (simp_all add: stamped_def)
  have sq: "seq_accepted s sq" using assms(1) by (simp add: apply_cmd_Some)
  have "priced (stamped sq ts s)"
    using pricing.inv_stamp [OF assms(3,2) _ sq, of "max ts (now s)"] by (simp add: stamped_def)
  from sale_flush [OF this shape_stamped [OF assms(2)], of "[]"]
  have "sale_steps (floor_price (config s)) (sale_of s) (sale_of ?a)"
    using st by (auto simp: advanced_def split: option.splits)
  moreover have "shape ?a" "config ?a = config s" using shape_advanced [OF assms(2,4), of sq] by blast+
  moreover have "priced ?a" using pricing.inv_advanced [OF assms(3,2) sq] .
  ultimately show ?thesis
    using sale_micros [OF apply_micro [OF assms(1,2,4)] _ _ assms(5)] by (simp add: rtranclp_trans)
qed

end
