(* ===== verification/Deviations.thy ===== *)
theory Deviations
  imports Examples Sale_Spec
begin

text \<open>
  Concrete runs in which the code departs from what its documentation or a comment says. Each is
  evaluated in the model; none is an assumption of the other theories, whose theorems exclude these cases by
  an explicit hypothesis.
\<close>

section \<open>Collateral and negative limits\<close>

text \<open>
  A resting bid with a negative limit reserves a negative amount, which raises what its owner may spend:
  a participant who was never given collateral buys ten units at 1000.
\<close>

definition overdraw_log :: "log_entry list" where
  "overdraw_log =
     [(0, 0, Open), (1, 0, SubmitBid alice key_a 10 (bid_kind.Resting (- 1000))),
      (2, 0, SubmitBid alice key_b 10 (Take 1000))]"

theorem negative_limit_overdraws:
  "case run overdraw_log (new_state (with_batch_window 0 demo_config)) of
     None \<Rightarrow> False
   | Some (s, ev) \<Rightarrow> map f_participant (fills s) = [alice] \<and> map f_qty (fills s) = [10] \<and>
       map f_price (fills s) = [1000] \<and> collateral_of s alice = \<lparr>coll_limit = 0, coll_committed = 10000\<rparr>"
  by code_simp

text \<open>A limit may be set below what is already committed; nothing is then turned away.\<close>

definition lowered_log :: "log_entry list" where
  "lowered_log =
     [(0, 0, SetCollateral alice 10000), (1, 0, Open),
      (2, 0, SubmitBid alice key_a 10 (Take 1000)), (3, 0, SetCollateral alice 1)]"

theorem limit_below_committed:
  "case run lowered_log (new_state (with_batch_window 0 demo_config)) of
     None \<Rightarrow> False
   | Some (s, ev) \<Rightarrow> collateral_of s alice = \<lparr>coll_limit = 1, coll_committed = 10000\<rparr>"
  by code_simp

section \<open>When the clock starts\<close>

text \<open>
  The engine restarts its clock at the auction's own time when it handles \<open>Open\<close>. If any command came
  before, that is not zero: a limit granted an hour after the process started makes the auction
  open at its floor price.
\<close>

theorem open_is_not_zero:
  "case engine_run 50000
      [(calm 3600000000000, asks (SetCollateral alice 100000)), (calm 3600000000001, asks Open)]
      (engine_start 0 (new_state demo_config) seq_start) of
     None \<Rightarrow> False
   | Some e \<Rightarrow> status (e_state e) = Live \<and> now (e_state e) = 3600000000000 \<and>
       current_price (e_state e) = floor_price demo_config"
  by code_simp

section \<open>Silent commands\<close>

text \<open>A tick that finds nothing due produces no event.\<close>

theorem tick_without_event:
  "case run [(0, 0, Open), (1, 5, Tick)] (new_state demo_config) of
     None \<Rightarrow> False | Some (s, ev) \<Rightarrow> ev = [Opened 1000 10]"
  by code_simp

text \<open>
  The engine publishes a new view only with a command that has events. A silent tick still moves the clock: the price, the
  time and the sequence number it leaves differ from those the readers of the view keep seeing.
\<close>

theorem silent_tick_changes_the_view:
  "case run [(0, 0, Open)] (new_state demo_config) of
     None \<Rightarrow> False
   | Some (s, _) \<Rightarrow>
       (case apply_cmd 1 1000000000 Tick s of
          None \<Rightarrow> False
        | Some (s', ev) \<Rightarrow> ev = [] \<and> v_price (view_of s) = 1000 \<and> v_price (view_of s') = 900 \<and>
            v_elapsed (view_of s') = 1000000000 \<and> v_seq (view_of s) = Some 0 \<and> v_seq (view_of s') = Some 1)"
  by code_simp

section \<open>Alarms of degenerate schedules\<close>

text \<open>
  With a zero step duration the price is at the floor at once, but the alarm is set for later; with a
  zero step size as well it is never set.
\<close>

theorem zero_duration_alarm:
  "price_at \<lparr>ps_start_price = 1000, ps_floor_price = 100, ps_kind = Stepped 0 100\<rparr> 0 = 100 \<and>
   time_to_reach \<lparr>ps_start_price = 1000, ps_floor_price = 100, ps_kind = Stepped 0 100\<rparr> 100 = Some 9 \<and>
   price_at \<lparr>ps_start_price = 1000, ps_floor_price = 100, ps_kind = Stepped 0 0\<rparr> 0 = 100 \<and>
   time_to_reach \<lparr>ps_start_price = 1000, ps_floor_price = 100, ps_kind = Stepped 0 0\<rparr> 100 = None"
  by code_simp

section \<open>Snapshots and the log\<close>

text \<open>A snapshot is trusted when the log is empty, although it is then ahead of the log.\<close>

theorem snapshot_without_log:
  assumes "seq_next (sn_seq sn) = Some n"
  shows "recover_from c [] (Some sn) =
     Inr \<lparr>rec_state = sn_state sn, rec_next_seq = n, rec_replayed = 0, rec_from_snapshot = Some (sn_seq sn)\<rparr>"
  using assms by (simp add: recover_from_def)

text \<open>
  A snapshot set aside because it was ahead of the log stays in the directory. Once the log has grown
  past it with other commands, recovery takes it: the commands at its positions are skipped. Here the first
  run sold to Alice and its snapshot survived while its last record did not; the log was then
  continued with a sale to Bob, and recovery restores the sale to Alice.
\<close>

definition base_records :: "log_record list" where
  "base_records =
     [\<lparr>lr_seq = 0, lr_ts = 0, lr_cmd = SetCollateral alice 10000\<rparr>,
      \<lparr>lr_seq = 1, lr_ts = 0, lr_cmd = SetCollateral bob 10000\<rparr>, \<lparr>lr_seq = 2, lr_ts = 0, lr_cmd = Open\<rparr>]"

definition lost_record :: log_record where
  "lost_record = \<lparr>lr_seq = 3, lr_ts = 0, lr_cmd = SubmitBid alice key_a 10 (Take 1000)\<rparr>"

definition kept_record :: log_record where
  "kept_record = \<lparr>lr_seq = 3, lr_ts = 0, lr_cmd = SubmitBid bob key_b 10 (Take 1000)\<rparr>"

definition buyers_after :: "log_record list \<Rightarrow> snapshot option \<Rightarrow> participant_id list option" where
  "buyers_after rs sn =
     (case recover_from (with_batch_window 0 demo_config) rs sn of
        Inl e \<Rightarrow> None
      | Inr r \<Rightarrow> Some (map f_participant (fills (rec_state r))))"

definition stale_snapshot :: snapshot where
  "stale_snapshot =
     (case run_records (base_records @ [lost_record]) (new_state (with_batch_window 0 demo_config)) of
        Some (s, ev) \<Rightarrow> \<lparr>sn_seq = 3, sn_state = s\<rparr>)"

theorem stale_snapshot_wins:
  "buyers_after base_records (Some stale_snapshot) = Some [] \<and>
   buyers_after (base_records @ [kept_record]) None = Some [bob] \<and>
   buyers_after (base_records @ [kept_record]) (Some stale_snapshot) = Some [alice]"
  by code_simp

section \<open>Durability of what a restart finds\<close>

text \<open>
  A process crash leaves what was written but not synced in the operating system's hands. Reopening the log
  then calls it durable without syncing it, and a power loss still takes it.
\<close>

theorem reopened_not_synced:
  "case open_log demo_dec demo_crc 1000 (synced log3) (crash 34 log3) of
     Inl e \<Rightarrow> False
   | Inr w \<Rightarrow> durable w = Some 1 \<and> synced w = 17 \<and>
       read_all demo_dec demo_crc (crash (synced w) w) = Inr [record_open]"
  by code_simp

section \<open>Segment names beyond eight digits\<close>

text \<open>
  The name of segment 100000000 has nine digits, which the reader of names does not accept: the segment would be
  written and never listed.
\<close>

theorem ninth_digit_is_lost:
  "segment_name 100000000 = ''wal-100000000.log'' \<and> segment_index (segment_name 100000000) = None \<and>
   segment_index (segment_name 99999999) = Some 99999999"
  by code_simp

end
