(* ===== verification/Runs.thy ===== *)
theory Runs
  imports Outcomes
begin

text \<open>
  The invariants of the state machine on the states a log leaves, one lemma each, and the price those states show.
\<close>

text \<open>
  A state the auction can be in is what a log leaves: \<open>run log (new_state c) = Some (s, ev)\<close>. The
  hypotheses on \<open>c\<close> and \<open>log\<close> are those the Rust types and the schedule constructors enforce.
\<close>

lemma run_shape:
  assumes "config_ok c" and "log_width log" and "run log (new_state c) = Some (s, ev)"
  shows "shape s" and "config s = c"
  using run_reachable [OF reachable_start [OF assms(1), of "\<lambda>_. True"] assms(2) _ assms(3)] reachable_shape
  by (auto simp: list_all_iff)

lemmas all_admitted = list_all_iff comp_def

lemma run_units:
  assumes "config_ok c" and "log_width log" and "run log (new_state c) = Some (s, ev)"
  shows "units_ok s"
  using units.inv_run [OF assms(1,2) _ assms(3)] by (simp add: all_admitted)

lemma run_priced:
  assumes "config_ok c" and "log_width log" and "run log (new_state c) = Some (s, ev)"
  shows "priced s"
  using pricing.inv_run [OF assms(1,2) _ assms(3)] by (simp add: all_admitted)

lemma run_booked:
  assumes "config_ok c" and "log_width log" and "run log (new_state c) = Some (s, ev)"
  shows "booked s"
  using booking.inv_run [OF assms(1,2) _ assms(3)] by (simp add: all_admitted)

lemma run_solvent:
  assumes "config_ok c" and "log_width log" and "run log (new_state c) = Some (s, ev)"
    and "0 \<le> floor_price c" and "\<forall>pt. 0 \<le> L pt" and "list_all (within_limits L \<circ> entry_cmd) log"
  shows "accounts_ok L s"
  using solvency.inv_run [OF assms(1,2,6,3)] run_shape(2) [OF assms(1-3)] assms(4,5)
  by (simp add: solvent_def)

text \<open>The price shown lies between floor and start price, also after the auction has cleared.\<close>

lemma run_clearing_price:
  assumes "config_ok c" and "log_width log" and "run log (new_state c) = Some (s, ev)" and "clearing_price s = Some p"
  shows "floor_price c \<le> p \<and> p \<le> start_price c"
proof -
  have p: "priced s" and c: "config s = c" using run_priced [OF assms(1-3)] run_shape(2) [OF assms(1-3)] .
  then have "sold_out_at s p \<or> floored_at s p" using assms(4) by (simp add: priced_def price_earned_def)
  moreover have "floor_price c \<le> start_price c" using clock_price_bounds [OF assms(1), of 0] by simp
  ultimately show ?thesis
    using window_price_bounds [of s] assms(1) c by (auto simp: sold_out_at_def floored_at_def)
qed

lemma run_current_price:
  assumes "config_ok c" and "log_width log" and "run log (new_state c) = Some (s, ev)"
  shows "floor_price c \<le> current_price s \<and> current_price s \<le> start_price c"
  using run_clearing_price [OF assms] clock_price_bounds [OF assms(1)] run_shape(2) [OF assms]
  by (auto simp: current_price_def split: option.splits)

end
