(* ===== verification/Crash_Victim.thy ===== *)
theory Crash_Victim
  imports Restart Runs
begin

text \<open>
  The driver of the crash tests, \<open>crates/auction-wal/src/bin/crash_victim.rs\<close>: a process that opens a log, and then
  for ever makes up a command, has it committed, applies it and prints a line. The process is killed at some
  moment and started again on what is left.

  \<open>victim_run\<close> are its lives. The invariant ties what was printed, in every life, to the log; the property that
  follows from it is what \<open>tests/crash.rs\<close> checks after each kill.
\<close>

section \<open>The commands it makes up\<close>

definition victim_config :: "u64 \<Rightarrow> auction_config option" where
  "victim_config supply = map_option (new_config (AuctionId 0) supply) (stepped 1000 100 (from_secs 1) 10)"

definition victim_options :: wal_options where
  "victim_options = default_wal_options\<lparr>segment_limit := 256 * 1024\<rparr>"

definition victim_key :: "u64 \<Rightarrow> idempotency_key" where
  "victim_key n = IdempotencyKey (or (push_bit 96 1) (of_nat n))"

text \<open>The subtraction of the resting limit is unchecked; the price is never below 100.\<close>

definition next_command :: "auction_state \<Rightarrow> u64 \<Rightarrow> command" where
  "next_command s n =
     (let who = ParticipantId (of_nat (n mod 4)) in
      if n = 0 then Open
      else if n \<le> 4 then SetCollateral (ParticipantId (of_nat (n - 1))) 100000000
      else if n mod 5 = 0 then Tick
      else if n mod 5 \<le> 3 then SubmitBid who (victim_key n) (1 + n mod 3) (Take (current_price s))
      else SubmitBid who (victim_key n) (1 + n mod 2) (bid_kind.Resting (current_price s - 20)))"

lemma victim_config_facts:
  assumes "victim_config supply = Some c" and "u64_ok supply"
  shows "config_ok c" and "floor_price c = 100" and "start_price c = 1000" and "total_supply c = supply"
  using assms
  by (auto simp: victim_config_def stepped_def new_config_def config_ok_def schedule_ok_def machine_int
      floor_price_def start_price_def from_secs_def from_millis_def)

lemma next_command_width:
  assumes "victim_config supply = Some c" and "u64_ok supply"
    and "log_width log" and "run log (new_state c) = Some (s, ev)"
  shows "cmd_width (next_command s n)"
proof -
  have "100 \<le> current_price s \<and> current_price s \<le> 1000"
    using run_current_price [OF victim_config_facts(1) [OF assms(1,2)] assms(3,4)] victim_config_facts [OF assms(1,2)] by simp
  moreover have "n mod 3 < 3" "n mod 2 < 2" by simp_all
  ultimately show ?thesis by (auto simp: next_command_def Let_def machine_int)
qed

section \<open>The process\<close>

text \<open>
  \<open>v_pending\<close> is the record \<open>Committer::commit\<close> is waiting for; \<open>v_printed\<close> holds the lines printed so far, also
  by earlier processes.
\<close>

record victim =
  v_state :: auction_state
  v_next :: seq
  v_round :: u64
  v_pending :: "log_record option"
  v_commit :: commit_sys
  v_alive :: bool
  v_printed :: "string list"

definition acked_line :: "seq \<Rightarrow> string" where
  "acked_line n = ''acked '' @ show_nat n"

definition victim_record :: "victim \<Rightarrow> log_record" where
  "victim_record v =
     \<lparr>lr_seq = v_next v, lr_ts = from_millis (as_millis (now (v_state v)) + 1 + v_round v mod 7),
      lr_cmd = next_command (v_state v) (v_next v)\<rparr>"

text \<open>Every \<open>expect\<close> that fails ends the process.\<close>

definition victim_panic :: "victim \<Rightarrow> victim" where
  "victim_panic v = v\<lparr>v_alive := False\<rparr>"

text \<open>The first half of an iteration, up to the wait in \<open>commit\<close>.\<close>

definition victim_submit :: "victim \<Rightarrow> victim" where
  "victim_submit v =
     (case submit_record (victim_record v) (v_commit v) of
        Inl e \<Rightarrow> victim_panic v
      | Inr cs \<Rightarrow> v\<lparr>v_commit := cs, v_pending := Some (victim_record v)\<rparr>)"

text \<open>The second half: one look at the watermark, then apply, print and go on. \<open>written\<close>: whether the line came out.\<close>

definition victim_resume :: "bool \<Rightarrow> victim \<Rightarrow> victim" where
  "victim_resume written v =
     (case v_pending v of
        None \<Rightarrow> v
      | Some r \<Rightarrow>
          (case wait_for (lr_seq r) (cs_mark (v_commit v)) of
             Parked \<Rightarrow> v
           | Stopped reason \<Rightarrow> victim_panic v
           | Released \<Rightarrow>
               (case apply_cmd (lr_seq r) (lr_ts r) (lr_cmd r) (v_state v) of
                  None \<Rightarrow> victim_panic v
                | Some (s, events) \<Rightarrow>
                    (let v = v\<lparr>v_state := s, v_pending := None\<rparr> in
                     if \<not> written then victim_panic v
                     else let v = v\<lparr>v_printed := v_printed v @ [acked_line (v_next v)]\<rparr> in
                       case seq_next (v_next v) of
                         None \<Rightarrow> victim_panic v
                       | Some n \<Rightarrow> v\<lparr>v_next := n, v_round := v_round v + 1\<rparr>))))"

text \<open>Both threads, in any order.\<close>

inductive victim_step :: "externals \<Rightarrow> victim \<Rightarrow> victim \<Rightarrow> bool" for x where
  vic_submit: "v_alive v \<Longrightarrow> v_pending v = None \<Longrightarrow> \<not> queue_full (v_commit v) \<Longrightarrow> victim_step x v (victim_submit v)"
| vic_resume: "v_alive v \<Longrightarrow> victim_step x v (victim_resume written v)"
| vic_commit: "commit_step (x_enc x) (x_crc x) (x_describe x) (v_commit v) cs \<Longrightarrow>
    cs_submitted cs = cs_submitted (v_commit v) \<Longrightarrow> victim_step x v (v\<lparr>v_commit := cs\<rparr>)"

section \<open>Its lives\<close>

text \<open>The start of \<open>main\<close>: open the log, recover, spawn the commit thread. No snapshots are taken.\<close>

definition victim_open ::
  "externals \<Rightarrow> auction_config \<Rightarrow> nat \<Rightarrow> log_dir \<Rightarrow> wal_error + (log_dir \<times> victim)" where
  "victim_open x c on_disk d =
     (case wal_open (x_from_json x) (x_to_json x) (x_dec x) (x_crc x) c (segment_limit victim_options) on_disk d of
        Inl e \<Rightarrow> Inl e
      | Inr (d', w) \<Rightarrow>
          (case recover (x_from_json x) (x_dec x) (x_crc x) (x_sdec x) d' [] of
             Inl e \<Rightarrow> Inl e
           | Inr r \<Rightarrow>
               Inr (d', \<lparr>v_state = rec_state r, v_next = rec_next_seq r, v_round = 0, v_pending = None,
                   v_commit = spawn victim_options w (log_contents (x_dec x) (x_crc x) d'),
                   v_alive = True, v_printed = []\<rparr>)))"

text \<open>
  A crash leaves \<open>n\<close> bytes of the active segment. A kill leaves all of them, a power loss at least what was synced.
  What survived counts as synced when it is opened again, so a power loss after a mere kill is not among these lives:
  \<open>Wal::open\<close> does not sync what it finds.
\<close>

definition victim_disk :: "byte list \<Rightarrow> nat \<Rightarrow> victim \<Rightarrow> log_dir" where
  "victim_disk m n v = \<lparr>manifest = Some m, files = crash n (cs_wal (v_commit v))\<rparr>"

definition victim_on_disk :: "nat \<Rightarrow> victim \<Rightarrow> nat" where
  "victim_on_disk n v = length (take n (active (cs_wal (v_commit v))))"

inductive victim_run :: "externals \<Rightarrow> auction_config \<Rightarrow> victim \<Rightarrow> bool" for x c where
  victim_first: "victim_open x c 0 \<lparr>manifest = None, files = []\<rparr> = Inr (d, v) \<Longrightarrow>
    x_from_json x (x_to_json x c) = Inr c \<Longrightarrow> victim_run x c v"
| victim_goes_on: "victim_run x c v \<Longrightarrow> victim_step x v v' \<Longrightarrow> victim_run x c v'"
| victim_again: "victim_run x c v \<Longrightarrow> synced (cs_wal (v_commit v)) \<le> n \<Longrightarrow> x_from_json x m = Inr c \<Longrightarrow>
    victim_open x c (victim_on_disk n v) (victim_disk m n v) = Inr (d, v') \<Longrightarrow>
    victim_run x c (v'\<lparr>v_printed := v_printed v\<rparr>)"

section \<open>What was printed is in the log\<close>

definition numbered :: "log_record list \<Rightarrow> bool" where
  "numbered rs \<longleftrightarrow> map lr_seq rs = [0..<length rs]"

text \<open>
  The records \<open>rs\<close> are applied and released; beyond them at most the pending one was submitted.
\<close>

definition victim_log :: "victim \<Rightarrow> log_record list \<Rightarrow> bool" where
  "victim_log v rs \<longleftrightarrow>
     cs_submitted (v_commit v) = rs @ (case v_pending v of None \<Rightarrow> [] | Some r \<Rightarrow> [r]) \<and>
     (\<forall>r \<in> set rs. wait_for (lr_seq r) (cs_mark (v_commit v)) = Released) \<and>
     subseq (v_printed v) (map (acked_line \<circ> lr_seq) rs) \<and>
     (v_alive v \<longrightarrow> resume_at (last_seq_of rs) = Some (v_next v))"

definition victim_inv :: "externals \<Rightarrow> auction_config \<Rightarrow> victim \<Rightarrow> bool" where
  "victim_inv x c v \<longleftrightarrow>
     commit_inv (x_enc x) (x_dec x) (x_crc x) (v_commit v) \<and> numbered (cs_submitted (v_commit v)) \<and>
     log_width (map entry_of (cs_submitted (v_commit v))) \<and>
     (\<exists>rs ev. victim_log v rs \<and> run_records rs (new_state c) = Some (v_state v, ev))"

lemma numbered_append: "numbered (xs @ ys) \<longleftrightarrow> numbered xs \<and> map lr_seq ys = [length xs..<length xs + length ys]"
  by (auto simp: numbered_def upt_add_eq_append [of 0])

lemma numbered_resume: "numbered rs \<Longrightarrow> resume_at (last_seq_of rs) = Some n \<Longrightarrow> n = length rs"
  by (cases rs rule: rev_cases)
    (auto simp: numbered_append resume_at_def last_seq_of_def seq_start_def dest: seq_next_less)

lemma numbered_resumes: "numbered rs \<Longrightarrow> length rs \<le> u64_max \<Longrightarrow> resume_at (last_seq_of rs) = Some (length rs)"
  by (cases rs rule: rev_cases)
    (auto simp: numbered_append resume_at_def last_seq_of_def seq_start_def seq_next_def u64_checked_add_def u64_ok_def)

lemma victim_inv_panic: "victim_inv x c v \<Longrightarrow> victim_inv x c (victim_panic v)"
  by (simp add: victim_inv_def victim_log_def victim_panic_def) blast

lemma victim_inv_commit:
  assumes "victim_inv x c v" and "commit_step (x_enc x) (x_crc x) (x_describe x) (v_commit v) cs"
    and "cs_submitted cs = cs_submitted (v_commit v)" and "externals_ok x"
  shows "victim_inv x c (v\<lparr>v_commit := cs\<rparr>)"
proof -
  have "commit_inv (x_enc x) (x_dec x) (x_crc x) cs"
    using commit_inv_step [OF assms(2)] assms(1,4) by (simp add: victim_inv_def externals_ok_def)
  moreover have "victim_log (v\<lparr>v_commit := cs\<rparr>) rs" if "victim_log v rs" for rs
    using that assms(3) commit_step_released [OF assms(2)] by (auto simp: victim_log_def)
  ultimately show ?thesis using assms(1,3) unfolding victim_inv_def by auto
qed

lemma victim_inv_submit:
  assumes "victim_inv x c v" and "v_alive v" and "v_pending v = None" and "\<not> queue_full (v_commit v)"
    and "externals_ok x" and "victim_config supply = Some c" and "u64_ok supply"
  shows "victim_inv x c (victim_submit v)"
proof (cases "submit_record (victim_record v) (v_commit v)")
  case (Inl e)
  then show ?thesis using victim_inv_panic [OF assms(1)] by (simp add: victim_submit_def)
next
  case (Inr cs)
  let ?r = "victim_record v"
  obtain rs ev where l: "victim_log v rs" and run: "run_records rs (new_state c) = Some (v_state v, ev)"
    and i: "commit_inv (x_enc x) (x_dec x) (x_crc x) (v_commit v)" "numbered (cs_submitted (v_commit v))"
      "log_width (map entry_of (cs_submitted (v_commit v)))"
    using assms(1) by (auto simp: victim_inv_def)
  have rs: "cs_submitted (v_commit v) = rs" and nx: "resume_at (last_seq_of rs) = Some (v_next v)"
    using l assms(2,3) by (simp_all add: victim_log_def)
  have cs: "cs_submitted cs = rs @ [?r]" "cs_mark cs = cs_mark (v_commit v)"
    using Inr rs by (auto simp: submit_record_def split: if_splits)
  have "gapless rs" using i(1) rs by (simp add: commit_inv_def)
  then have "gapless (rs @ [?r])"
    using nx by (intro gapless_snoc) (auto simp: resume_at_def victim_record_def split: option.splits)
  then have "commit_inv (x_enc x) (x_dec x) (x_crc x) cs"
    using commit_inv_step [OF step_submit [OF assms(4) Inr] _ i(1)] assms(5) rs by (simp add: externals_ok_def)
  moreover have "numbered (rs @ [?r])"
    using i(2) numbered_resume [OF _ nx] by (simp add: rs numbered_append victim_record_def)
  moreover have "entry_width (entry_of ?r)"
    using next_command_width [OF assms(6,7) _ run] i(3) rs
    by (simp add: entry_of_def [of "victim_record v"]) (simp add: victim_record_def from_millis_def)
  moreover have "victim_log (victim_submit v) rs"
    using l assms(2,3) Inr cs by (simp add: victim_log_def victim_submit_def)
  ultimately show ?thesis
    using i(3) run Inr cs rs unfolding victim_inv_def by (auto simp: victim_submit_def)
qed

lemma victim_inv_resume:
  assumes "victim_inv x c v" and "v_alive v"
  shows "victim_inv x c (victim_resume written v)"
proof (cases "\<exists>r s e. v_pending v = Some r \<and> wait_for (lr_seq r) (cs_mark (v_commit v)) = Released \<and>
    apply_cmd (lr_seq r) (lr_ts r) (lr_cmd r) (v_state v) = Some (s, e)")
  case False
  then have "victim_resume written v = v \<or> victim_resume written v = victim_panic v"
    by (auto simp: victim_resume_def split: option.splits wait_result.splits)
  then show ?thesis using assms(1) victim_inv_panic by auto
next
  case True
  then obtain r s e where r: "v_pending v = Some r" "wait_for (lr_seq r) (cs_mark (v_commit v)) = Released"
    "apply_cmd (lr_seq r) (lr_ts r) (lr_cmd r) (v_state v) = Some (s, e)" by blast
  obtain rs ev where l: "victim_log v rs" and run: "run_records rs (new_state c) = Some (v_state v, ev)"
    and i: "commit_inv (x_enc x) (x_dec x) (x_crc x) (v_commit v)" "numbered (cs_submitted (v_commit v))"
      "log_width (map entry_of (cs_submitted (v_commit v)))"
    using assms(1) by (auto simp: victim_inv_def)
  have sub: "cs_submitted (v_commit v) = rs @ [r]" and nx: "resume_at (last_seq_of rs) = Some (v_next v)"
    using l r(1) assms(2) by (simp_all add: victim_log_def)
  then have q: "lr_seq r = v_next v"
    using i(2) numbered_resume [OF _ nx] by (simp add: numbered_append)
  have run': "run_records (rs @ [r]) (new_state c) = Some (s, ev @ e)" by (rule run_snoc [OF run r(3)])
  have "victim_log (victim_resume written v) (rs @ [r])"
    using l r q sub
    by (auto simp: victim_log_def victim_resume_def victim_panic_def Let_def resume_at_def last_seq_of_def
        split: option.splits intro: list_emb_append_mono)
  moreover have "v_state (victim_resume written v) = s" "v_commit (victim_resume written v) = v_commit v"
    using r by (auto simp: victim_resume_def victim_panic_def Let_def split: option.splits)
  ultimately show ?thesis using i run' unfolding victim_inv_def by auto
qed

section \<open>What a crash leaves\<close>

lemma width_prefix: "log_width (map entry_of rs) \<Longrightarrow> prefix kept rs \<Longrightarrow> log_width (map entry_of kept)"
  by (auto simp: prefix_def)

lemma numbered_prefix: "numbered rs \<Longrightarrow> prefix kept rs \<Longrightarrow> numbered kept"
  by (auto simp: prefix_def numbered_append)

text \<open>All that was printed survives, and replaying what survived does not fail.\<close>

lemma victim_crash:
  assumes "victim_inv x c v" and "externals_ok x" and "config_ok c" and "synced (cs_wal (v_commit v)) \<le> n"
  obtains kept s ev w where "read_all (x_dec x) (x_crc x) (crash n (cs_wal (v_commit v))) = Inr kept"
    "prefix kept (cs_submitted (v_commit v))" "subseq (v_printed v) (map (acked_line \<circ> lr_seq) kept)"
    "run_records kept (new_state c) = Some (s, ev)"
    "open_log (x_dec x) (x_crc x) limit (victim_on_disk n v) (crash n (cs_wal (v_commit v))) = Inr w"
    "log_history (x_enc x) (x_dec x) (x_crc x) w kept" "durable w = last_seq_of kept"
proof -
  obtain rs ev where l: "victim_log v rs" and run: "run_records rs (new_state c) = Some (v_state v, ev)"
    and i: "commit_inv (x_enc x) (x_dec x) (x_crc x) (v_commit v)" "numbered (cs_submitted (v_commit v))"
      "log_width (map entry_of (cs_submitted (v_commit v)))"
    using assms(1) by (auto simp: victim_inv_def)
  have codec: "codec_ok (x_enc x) (x_dec x) (x_crc x)" using assms(2) by (simp add: externals_ok_def)
  obtain kept where k: "read_all (x_dec x) (x_crc x) (crash n (cs_wal (v_commit v))) = Inr kept"
    "prefix kept (cs_submitted (v_commit v))"
    "\<And>r. r \<in> set (cs_submitted (v_commit v)) \<Longrightarrow>
      wait_for (lr_seq r) (cs_mark (v_commit v)) = Released \<Longrightarrow> r \<in> set kept"
    "\<exists>w. open_log (x_dec x) (x_crc x) limit (victim_on_disk n v) (crash n (cs_wal (v_commit v))) = Inr w \<and>
       log_history (x_enc x) (x_dec x) (x_crc x) w kept \<and> durable w = last_seq_of kept"
    using commit_crash [OF i(1) codec assms(4), of limit] unfolding victim_on_disk_def by blast
  let ?sub = "cs_submitted (v_commit v)"
  have g: "gapless ?sub" using i(1) by (simp add: commit_inv_def)
  have "prefix rs ?sub" and "set rs \<subseteq> set kept" using k(3) l by (auto simp: victim_log_def)
  moreover have "distinct ?sub" using i(2) distinct_map [of lr_seq ?sub] by (simp add: numbered_def)
  then have "distinct rs" using calculation(1) by (auto simp: prefix_def)
  ultimately have "prefix rs kept"
    using prefix_length_prefix [OF _ k(2)] card_mono [of "set kept" "set rs"] card_length [of kept] distinct_card [of rs] by auto
  then obtain rest where rest: "kept = rs @ rest" by (auto simp: prefix_def)
  have printed: "subseq (v_printed v) (map (acked_line \<circ> lr_seq) kept)"
    using l unfolding rest by (auto simp: victim_log_def intro: list_emb_append_mono)
  have "\<exists>s ev. run_records kept (new_state c) = Some (s, ev)"
  proof (cases rest)
    case Nil
    then show ?thesis using run rest by simp
  next
    case (Cons r rest')
    then have all: "kept = rs @ [r]" using k(2) l unfolding rest victim_log_def
      by (cases "v_pending v") (auto simp: prefix_def)
    then have sub: "?sub = rs @ [r]" using k(2) l by (cases "v_pending v") (auto simp: victim_log_def prefix_def)
    have "resume_at (last_seq_of rs) = Some (lr_seq r)"
      using g i(2) unfolding sub gapless_append [of rs]
      by (cases "rs = []") (auto simp: numbered_append numbered_def resume_at_def last_seq_of_def seq_start_def)
    moreover have "last_seq (v_state v) = last_seq_of rs"
      using run_records_facts [OF assms(3) _ run] i(3) sub by simp
    ultimately have "seq_accepted (v_state v) (lr_seq r)"
      by (auto simp: seq_accepted_def resume_at_def split: option.splits)
    then obtain s e where "apply_cmd (lr_seq r) (lr_ts r) (lr_cmd r) (v_state v) = Some (s, e)"
      by (metis apply_cmd_Some surj_pair)
    then show ?thesis using run_snoc [OF run] all by blast
  qed
  then show ?thesis using that k(1,2,4) printed by blast
qed

lemma replay_resumes:
  "replay None at k s rs = Inr r \<Longrightarrow> resume_at (if rs = [] then at else last_seq_of rs) = Some (rec_next_seq r)"
proof (induction rs arbitrary: at k s)
  case Nil
  then show ?case by (auto simp: resume_at_def split: option.splits)
next
  case (Cons a rs)
  obtain s' k' where "replay None (Some (lr_seq a)) k' s' rs = Inr r"
    using Cons.prems by (auto simp: is_before_def split: option.splits sum.splits if_splits)
  from Cons.IH [OF this] show ?case by (auto simp: last_seq_of_def split: if_splits)
qed

lemma victim_recovers:
  assumes "read_all dec crc fs = Inr kept" and "run_records kept (new_state c) = Some (s, ev)"
    and "numbered kept" and "gapless kept" and "length kept \<le> u64_max" and "from_json m = Inr c"
  shows "\<exists>r. recover from_json dec crc sdec \<lparr>manifest = Some m, files = fs\<rparr> [] = Inr r \<and>
     rec_state r = s \<and> rec_next_seq r = length kept"
  using recover_log [OF assms(2,4) numbered_resumes [OF assms(3,5)]] assms(1,6)
  by (simp add: recover_def read_manifest_def latest_usable_def snapshot_list_def recover_from_def)

text \<open>A process that starts on \<open>kept\<close>.\<close>

lemma victim_open_inv:
  assumes "open_log (x_dec x) (x_crc x) (segment_limit victim_options) on_disk fs = Inr w"
    and "check_manifest (x_from_json x) (x_to_json x) c d = Inr \<lparr>manifest = Some m, files = fs\<rparr>" and "x_from_json x m = Inr c"
    and "log_history (x_enc x) (x_dec x) (x_crc x) w kept" and "durable w = last_seq_of kept"
    and "run_records kept (new_state c) = Some (s, ev)" and "numbered kept" and "log_width (map entry_of kept)"
    and "externals_ok x" and "length kept \<le> u64_max" and "subseq printed (map (acked_line \<circ> lr_seq) kept)"
  obtains v where "victim_open x c on_disk d = Inr (\<lparr>manifest = Some m, files = disk_files w\<rparr>, v)"
    "victim_inv x c (v\<lparr>v_printed := printed\<rparr>)" "cs_submitted (v_commit v) = kept" "v_alive v"
proof -
  have codec: "codec_ok (x_enc x) (x_dec x) (x_crc x)" using assms(9) by (simp add: externals_ok_def)
  have reads: "read_all (x_dec x) (x_crc x) (disk_files w) = Inr kept" and g: "gapless kept"
    using history_reads_back [OF assms(4) codec] by blast+
  obtain r where r: "recover (x_from_json x) (x_dec x) (x_crc x) (x_sdec x) \<lparr>manifest = Some m, files = disk_files w\<rparr> [] = Inr r"
    "rec_state r = s" "rec_next_seq r = length kept"
    using victim_recovers [where from_json = "x_from_json x", OF reads assms(6,7) g assms(10,3)] by blast
  define v where "v = \<lparr>v_state = s, v_next = length kept, v_round = 0, v_pending = None,
    v_commit = spawn victim_options w kept, v_alive = True, v_printed = []\<rparr>"
  have "victim_open x c on_disk d = Inr (\<lparr>manifest = Some m, files = disk_files w\<rparr>, v)"
    using assms(1,2) r reads by (simp add: victim_open_def wal_open_def log_contents_def v_def)
  moreover have "commit_inv (x_enc x) (x_dec x) (x_crc x) (spawn victim_options w kept)"
    by (rule commit_inv_spawn [OF assms(4,5) codec])
  moreover have "victim_log (v\<lparr>v_printed := printed\<rparr>) kept"
    using assms(5,11) numbered_resumes [OF assms(7,10)] gapless_le_last [OF g]
    by (auto simp: victim_log_def v_def spawn_def last_seq_of_def)
  ultimately show ?thesis
    using that [of v] assms(6-8) by (auto simp: victim_inv_def v_def spawn_def)
qed

lemma victim_run_inv:
  assumes "victim_run x c v" and "externals_ok x" and "victim_config supply = Some c" and "u64_ok supply"
  shows "victim_inv x c v"
  using assms(1)
proof (induction rule: victim_run.induct)
  case (victim_first d v)
  obtain w where w: "open_log (x_dec x) (x_crc x) (segment_limit victim_options) 0 [] = Inr w"
    using victim_first(1)
    by (auto simp: victim_open_def wal_open_def check_manifest_def read_manifest_def write_manifest_def split: sum.splits)
  have d: "durable w = last_seq_of []"
    using w by (auto simp: open_log_def last_seq_in_def read_all_def last_seq_of_def split: sum.splits)
  obtain v' where v': "victim_open x c 0 \<lparr>manifest = None, files = []\<rparr> =
      Inr (\<lparr>manifest = Some (x_to_json x c), files = disk_files w\<rparr>, v')"
    "victim_inv x c (v'\<lparr>v_printed := []\<rparr>)"
    by (rule victim_open_inv [OF w _ victim_first(2) log_new [OF w] d _ _ _ assms(2),
          where printed = "[]" and d = "\<lparr>manifest = None, files = []\<rparr>"])
      (auto simp: check_manifest_def read_manifest_def write_manifest_def numbered_def)
  have "v_printed v' = []" using v'(1) by (auto simp: victim_open_def split: sum.splits prod.splits)
  then have "v'\<lparr>v_printed := []\<rparr> = v'" by simp
  then show ?case using v' victim_first(1) by simp
next
  case (victim_goes_on v v')
  from victim_goes_on(2) show ?case
  proof cases
    case vic_submit
    then show ?thesis using victim_inv_submit [OF victim_goes_on(3) _ _ _ assms(2-4)] by simp
  next
    case (vic_resume written)
    then show ?thesis using victim_inv_resume [OF victim_goes_on(3)] by simp
  next
    case (vic_commit cs)
    then show ?thesis using victim_inv_commit [OF victim_goes_on(3) _ _ assms(2)] by simp
  qed
next
  case (victim_again v n m d v')
  show ?case
  proof -
    have inv: "numbered (cs_submitted (v_commit v))" "log_width (map entry_of (cs_submitted (v_commit v)))"
      using victim_again(5) by (simp_all add: victim_inv_def)
    obtain kept s ev w where k: "read_all (x_dec x) (x_crc x) (crash n (cs_wal (v_commit v))) = Inr kept"
      "prefix kept (cs_submitted (v_commit v))" "subseq (v_printed v) (map (acked_line \<circ> lr_seq) kept)"
      "run_records kept (new_state c) = Some (s, ev)"
      "open_log (x_dec x) (x_crc x) (segment_limit victim_options) (victim_on_disk n v) (crash n (cs_wal (v_commit v))) = Inr w"
      "log_history (x_enc x) (x_dec x) (x_crc x) w kept" "durable w = last_seq_of kept"
      by (rule victim_crash [OF victim_again(5) assms(2) victim_config_facts(1) [OF assms(3,4)] victim_again(2)])
    have num: "numbered kept" by (rule numbered_prefix [OF inv(1) k(2)])
    have "length kept \<le> u64_max"
    proof -
      have reads: "read_all (x_dec x) (x_crc x) (disk_files w) = Inr kept"
        using history_reads_back(1) [OF k(6)] assms(2) by (simp add: externals_ok_def)
      obtain r where "replay None None 0 (new_state c) kept = Inr r"
        using victim_again(3,4) k(5) reads
        by (auto simp: victim_open_def wal_open_def check_manifest_def read_manifest_def victim_disk_def recover_def
            recover_from_def latest_usable_def snapshot_list_def split: sum.splits)
      from replay_resumes [OF this] obtain q where q: "resume_at (last_seq_of kept) = Some q"
        by (auto simp: last_seq_of_def split: if_splits)
      then have "u64_ok q"
        by (auto simp: resume_at_def seq_next_def u64_checked_add_def seq_start_def split: option.splits if_splits)
      then show ?thesis using numbered_resume [OF num q] by (simp add: u64_ok_def)
    qed
    note len = this
    have "victim_inv x c (v''\<lparr>v_printed := v_printed v\<rparr>)"
      if "victim_open x c (victim_on_disk n v) (victim_disk m n v) = Inr (d'', v'')" for d'' v''
      using victim_open_inv [OF k(5) _ victim_again(3) k(6,7,4) num width_prefix [OF inv(2) k(2)] assms(2) len k(3),
        where d = "victim_disk m n v"] that victim_again(3)
      by (auto simp: check_manifest_def read_manifest_def victim_disk_def)
    then show ?thesis using victim_again(4) by blast
  qed
qed

end
