(* ===== verification/Shutdown.thy ===== *)
theory Shutdown
  imports Restart
begin

text \<open>
  \<open>Auction::shutdown\<close> and \<open>Auction::drop\<close>, that is \<open>stop_all\<close> in \<open>crates/auction-engine/src/engine.rs\<close>: the stop flag, then
  the engine thread is joined, which empties its queue first; then the commit thread, which writes what it was given
  and closes its watermark; then the acknowledgement thread, which answers what is durable.

  \<open>stop_all\<close> is one function on the system of all threads. It is shown to be a schedule of \<open>system_step\<close>, so all
  invariants hold after it, and to leave nothing unanswered.
\<close>

section \<open>The three joins\<close>

text \<open>The engine blocks on a full channel until the commit thread has taken a batch; \<open>ios\<close> are the batches it writes.\<close>

fun make_room ::
  "externals \<Rightarrow> batch_io list \<Rightarrow> commit_sys \<Rightarrow> commit_sys" where
  "make_room x [] cs = cs"
| "make_room x (io # ios) cs =
     (if queue_full cs then make_room x ios (writer_round (x_enc x) (x_crc x) (x_describe x) io cs) else cs)"

text \<open>
  The engine thread after the stop flag is up: one iteration per queued submission, and out of the loop when the queue
  is empty. Each iteration has its environment and the batches the commit thread writes while it blocks; when
  these are used up the thread still blocks. A panic ends the thread.
\<close>

fun drain_engine :: "externals \<Rightarrow> (environment \<times> batch_io list) list \<Rightarrow> system \<Rightarrow> system" where
  "drain_engine x [] sy =
     (if sy_rx sy = [] then sy\<lparr>sy_engine := (sy_engine sy)\<lparr>e_running := False\<rparr>\<rparr> else sy)"
| "drain_engine x ((env, ios) # rest) sy =
     (case sy_rx sy of
        [] \<Rightarrow> sy\<lparr>sy_engine := (sy_engine sy)\<lparr>e_running := False\<rparr>\<rparr>
      | sub # rx \<Rightarrow>
          (let sy = sy\<lparr>sy_commit := make_room x ios (sy_commit sy)\<rparr>;
               env = env\<lparr>env_commit_ok := cs_phase (sy_commit sy) \<noteq> Gone, env_ack_ok := sy_ack_alive sy\<rparr>
           in if queue_full (sy_commit sy) then sy
              else (case engine_step (snapshot_every (sy_options sy)) env sub (sy_engine sy) of
                      None \<Rightarrow> sy\<lparr>sy_engine := (sy_engine sy)\<lparr>e_running := False\<rparr>\<rparr>
                    | Some e \<Rightarrow>
                        (let sy = sy\<lparr>sy_engine := e, sy_rx := rx, sy_commit := hand_over (sy_engine sy) e (sy_commit sy)\<rparr>
                         in if e_running e then drain_engine x rest sy else sy))))"

text \<open>\<open>CommitThread::shutdown\<close>: the stop message, then join.\<close>

definition stop_commit :: "externals \<Rightarrow> batch_io list \<Rightarrow> batch_io list \<Rightarrow> commit_sys \<Rightarrow> commit_sys" where
  "stop_commit x room ios cs =
     writer_run (x_enc x) (x_crc x) (x_describe x) ios (send_stop (make_room x room cs))"

text \<open>The acknowledgement thread, once the engine's end of its channel is gone.\<close>

definition ack_next :: "(seq \<Rightarrow> bool) \<Rightarrow> pending_ack \<Rightarrow> system \<Rightarrow> system" where
  "ack_next confirms p sy =
     sy\<lparr>sy_acks := ack_one confirms (sy_replica sy \<noteq> None) (replication (sy_options sy)) p (sy_acks sy),
        sy_ack_pos := sy_ack_pos sy + 1,
        sy_promised := sy_promised sy @ (if pa_reply p then [(pa_seq p, pa_events p)] else [])\<rparr>"

fun ack_all :: "(seq \<Rightarrow> bool) \<Rightarrow> pending_ack list \<Rightarrow> system \<Rightarrow> system" where
  "ack_all confirms [] sy = sy"
| "ack_all confirms (p # ps) sy =
     (if wait_for (pa_seq p) (cs_mark (sy_commit sy)) = Released then ack_all confirms ps (ack_next confirms p sy) else sy)"

definition stop_all ::
  "externals \<Rightarrow> (environment \<times> batch_io list) list \<Rightarrow> batch_io list \<Rightarrow> batch_io list \<Rightarrow> (seq \<Rightarrow> bool) \<Rightarrow> system \<Rightarrow> system" where
  "stop_all x work room ios confirms sy =
     (let sy = drain_engine x work (sy\<lparr>sy_stop := True\<rparr>);
          sy = sy\<lparr>sy_commit := stop_commit x room ios (sy_commit sy)\<rparr>
      in ack_all confirms (drop (sy_ack_pos sy) (e_pending (sy_engine sy))) sy)"

lemma ack_all_acks:
  "sy_acks (ack_all confirms ps sy) =
     run_acks (\<lambda>t. wait_for t (cs_mark (sy_commit sy)) = Released) confirms (sy_replica sy \<noteq> None) (replication (sy_options sy)) ps (sy_acks sy)"
  by (induction ps arbitrary: sy) (simp_all add: ack_next_def)

section \<open>Rounds of the commit thread\<close>

abbreviation quiet_step :: "externals \<Rightarrow> commit_sys \<Rightarrow> commit_sys \<Rightarrow> bool" where
  "quiet_step x cs cs' \<equiv> commit_step (x_enc x) (x_crc x) (x_describe x) cs cs' \<and> cs_submitted cs' = cs_submitted cs"

text \<open>Nobody asked the thread to stop, it has not failed, and the channel is within its bound.\<close>

definition writing :: "commit_sys \<Rightarrow> bool" where
  "writing cs \<longleftrightarrow> cs_phase cs = Writing \<and> Msg_Stop \<notin> set (cs_queue cs) \<and>
     length (cs_queue cs) \<le> submit_queue_depth (cs_options cs)"

lemma gather_no_stop:
  "gather limit polls batch q = (batch', stopping, rest) \<Longrightarrow> Msg_Stop \<notin> set q \<Longrightarrow> \<not> stopping \<and> Msg_Stop \<notin> set rest"
  by (induction limit polls batch q rule: gather.induct) (auto split: if_splits msg.splits)

lemma round_submitted: "cs_submitted (writer_round enc crc describe io cs) = cs_submitted cs"
  by (auto simp: writer_round_def commit_batch_def split: list.splits msg.splits prod.splits option.splits)

lemma round_writing:
  assumes "codec_ok enc dec crc" and "commit_inv enc dec crc cs" and "writing cs" and "cs_queue cs \<noteq> []"
    and "list_all (encodable enc) (cs_submitted cs)" and "batch_fine io"
  shows "writing (writer_round enc crc describe io cs) \<and> cs_options (writer_round enc crc describe io cs) = cs_options cs \<and>
    length (cs_queue (writer_round enc crc describe io cs)) < length (cs_queue cs)"
proof -
  have ph: "cs_phase cs = Writing" and ns: "Msg_Stop \<notin> set (cs_queue cs)" using assms(3) by (simp_all add: writing_def)
  obtain w st q p where r: "writer_round enc crc describe io cs = cs\<lparr>cs_wal := w, cs_mark := st, cs_queue := q, cs_phase := p\<rparr>"
    "length q < length (cs_queue cs)" "p = Draining \<or> p = Writing"
    using round_fine [OF assms(1,2) ph assms(4-6)] by blast
  obtain r q0 where q0: "cs_queue cs = Msg_Record r # q0" using assms(4) ns by (cases "cs_queue cs" rule: records_in.cases) auto
  obtain batch stopping rest where g: "gather (max_batch (cs_options cs)) (bi_polls io) [r] q0 = (batch, stopping, rest)"
    by (metis prod_cases3)
  have "\<not> stopping" "Msg_Stop \<notin> set rest" using gather_no_stop [OF g] ns q0 by auto
  moreover have "cs_queue (writer_round enc crc describe io cs) = rest"
    "cs_phase (writer_round enc crc describe io cs) = Writing \<or> cs_phase (writer_round enc crc describe io cs) = Closed"
    using q0 g calculation(1) by (auto simp: writer_round_def commit_batch_def split: prod.splits option.splits)
  ultimately show ?thesis using r assms(3) by (auto simp: writing_def)
qed

lemma make_room_quiet:
  assumes "codec_ok (x_enc x) dec (x_crc x)" and "commit_inv (x_enc x) dec (x_crc x) cs" and "writing cs"
    and "0 < submit_queue_depth (cs_options cs)"
    and "list_all (encodable (x_enc x)) (cs_submitted cs)" and "list_all batch_fine ios" and "ios \<noteq> []"
  shows "(quiet_step x)\<^sup>*\<^sup>* cs (make_room x ios cs) \<and> writing (make_room x ios cs) \<and> \<not> queue_full (make_room x ios cs) \<and>
    cs_options (make_room x ios cs) = cs_options cs"
proof (cases "queue_full cs")
  case False
  then show ?thesis using assms(3,7) by (cases ios) simp_all
next
  case True
  obtain io rest where ios: "ios = io # rest" using assms(7) by (cases ios) auto
  let ?cs = "writer_round (x_enc x) (x_crc x) (x_describe x) io cs"
  have ne: "cs_queue cs \<noteq> []" using True assms(4) by (auto simp: queue_full_def)
  have r: "writing ?cs" "cs_options ?cs = cs_options cs" "length (cs_queue ?cs) < length (cs_queue cs)"
    using round_writing [OF assms(1,2,3) ne assms(5), of io] assms(6) by (simp_all add: ios)
  have nf: "\<not> queue_full ?cs" using r assms(3) by (auto simp: queue_full_def writing_def)
  have "quiet_step x cs ?cs"
    using step_round [of cs] assms(3) ne by (simp add: writing_def round_submitted)
  moreover have "make_room x ios cs = ?cs" using True nf by (cases rest) (simp_all add: ios)
  ultimately show ?thesis using r nf by auto
qed

lemma writer_run_quiet: "(quiet_step x)\<^sup>*\<^sup>* cs (writer_run (x_enc x) (x_crc x) (x_describe x) ios cs)"
proof (induction ios arbitrary: cs)
  case (Cons io ios)
  let ?cs = "case cs_phase cs of Writing \<Rightarrow> writer_round (x_enc x) (x_crc x) (x_describe x) io cs
    | Draining \<Rightarrow> writer_drain (x_enc x) (x_crc x) (x_describe x) io cs | _ \<Rightarrow> cs"
  have "quiet_step x cs ?cs \<or> ?cs = cs"
  proof (cases "cs_phase cs")
    case Writing
    then show ?thesis
      using step_round [OF Writing] by (cases "cs_queue cs = []") (auto simp: round_submitted, simp add: writer_round_def)
  next
    case Draining
    have "cs_submitted (writer_drain (x_enc x) (x_crc x) (x_describe x) io cs) = cs_submitted cs"
      by (auto simp: writer_drain_def commit_batch_def Let_def split: prod.splits option.splits)
    then show ?thesis using step_drain [OF Draining] Draining by auto
  qed simp_all
  then show ?case using Cons [of ?cs] by (auto intro: converse_rtranclp_into_rtranclp)
qed simp

section \<open>A schedule of the system\<close>

abbreviation steps :: "externals \<Rightarrow> system \<Rightarrow> system \<Rightarrow> bool" where
  "steps x \<equiv> (system_step (x_enc x) (x_crc x) (x_describe x) (x_senc x))\<^sup>*\<^sup>*"

lemma run_steps: "steps x sy sy' \<Longrightarrow> system_run ok x c sy \<Longrightarrow> system_run ok x c sy'"
  by (induction rule: rtranclp_induct) (auto intro: run_step)

lemma quiet_steps: "(quiet_step x)\<^sup>*\<^sup>* (sy_commit sy) cs \<Longrightarrow> steps x sy (sy\<lparr>sy_commit := cs\<rparr>)"
proof (induction rule: rtranclp_induct)
  case (step cs cs')
  have "system_step (x_enc x) (x_crc x) (x_describe x) (x_senc x) (sy\<lparr>sy_commit := cs\<rparr>) ((sy\<lparr>sy_commit := cs\<rparr>)\<lparr>sy_commit := cs'\<rparr>)"
    using step(2) by (intro sys_commit) auto
  then show ?case using step(3) by (auto intro: rtranclp.rtrancl_into_rtrancl)
qed simp

lemma ack_all_steps:
  assumes "sy_ack_alive sy" and "drop (sy_ack_pos sy) (e_pending (sy_engine sy)) = ps"
    and "\<And>t sb. confirms t \<Longrightarrow> sy_replica sy = Some sb \<Longrightarrow> replica_confirmed t (sb_mark sb)"
  shows "steps x sy (ack_all confirms ps sy)"
  using assms
proof (induction ps arbitrary: sy)
  case (Cons p ps)
  have lt: "sy_ack_pos sy < length (e_pending (sy_engine sy))" using Cons.prems(2) by (cases "sy_ack_pos sy < length (e_pending (sy_engine sy))") auto
  have p: "p = e_pending (sy_engine sy) ! sy_ack_pos sy" "drop (Suc (sy_ack_pos sy)) (e_pending (sy_engine sy)) = ps"
    using Cons.prems(2) lt by (auto simp: Cons_nth_drop_Suc [symmetric])
  show ?case
  proof (cases "wait_for (pa_seq p) (cs_mark (sy_commit sy)) = Released")
    case True
    have "system_step (x_enc x) (x_crc x) (x_describe x) (x_senc x) sy (ack_next confirms p sy)"
      unfolding ack_next_def using Cons.prems(3) by (intro sys_ack [OF Cons.prems(1) lt p(1) True]) blast
    moreover have "steps x (ack_next confirms p sy) (ack_all confirms ps (ack_next confirms p sy))"
      using Cons.prems p(2) by (intro Cons.IH) (simp_all add: ack_next_def)
    ultimately show ?thesis using True by (auto intro: converse_rtranclp_into_rtranclp)
  qed simp
qed simp

text \<open>The running system just before it is told to stop.\<close>

definition working :: "system \<Rightarrow> bool" where
  "working sy \<longleftrightarrow> e_running (sy_engine sy) \<and> sy_ack_alive sy \<and> writing (sy_commit sy) \<and>
     0 < submit_queue_depth (cs_options (sy_commit sy))"

text \<open>One iteration of the drain: the record goes to the committer, the reply to the acknowledgement thread.\<close>

lemma drain_iteration:
  fixes env :: environment
  assumes "system_run (no_stale_snapshot x) x c sy" and "externals_ok x" and "config_ok c" and "working sy"
    and "sy_rx sy = sub # rx" and "sy_stop sy" and "e_next_seq (sy_engine sy) < u64_max"
    and "list_all (encodable (x_enc x)) (cs_submitted (sy_commit sy))" and "list_all batch_fine ios" and "ios \<noteq> []"
  defines "cs \<equiv> make_room x ios (sy_commit sy)"
    and "env' \<equiv> env\<lparr>env_commit_ok := True, env_ack_ok := True\<rparr>"
  obtains e r where "\<not> queue_full cs" "cs_phase cs = Writing"
    "engine_step (snapshot_every (sy_options sy)) env' sub (sy_engine sy) = Some e"
    "steps x sy (sy\<lparr>sy_engine := e, sy_rx := rx, sy_commit := hand_over (sy_engine sy) e cs\<rparr>)"
    "working (sy\<lparr>sy_engine := e, sy_rx := rx, sy_commit := hand_over (sy_engine sy) e cs\<rparr>)"
    "e_log e = e_log (sy_engine sy) @ [r]" "lr_cmd r = sub_cmd sub" "e_next_seq e = e_next_seq (sy_engine sy) + 1"
    "map pa_reply (e_pending e) = map pa_reply (e_pending (sy_engine sy)) @ [sub_reply sub]"
    "cs_options (hand_over (sy_engine sy) e cs) = cs_options (sy_commit sy)"
proof -
  have codec: "codec_ok (x_enc x) (x_dec x) (x_crc x)" using assms(2) by (simp add: externals_ok_def)
  have inv: "system_inv (x_enc x) (x_dec x) (x_crc x) (x_senc x) c sy" by (rule system_run_inv [OF assms(1-3)])
  then have ci: "commit_inv (x_enc x) (x_dec x) (x_crc x) (sy_commit sy)" by (simp add: system_inv_def)
  obtain s0 where con: "engine_consistent c (sy_base sy) s0 (sy_engine sy)" and wd: "widths_ok sy"
    using inv by (auto simp: system_inv_def)
  have w: "e_running (sy_engine sy)" "sy_ack_alive sy" "writing (sy_commit sy)" "0 < submit_queue_depth (cs_options (sy_commit sy))"
    using assms(4) by (simp_all add: working_def)
  have room: "(quiet_step x)\<^sup>*\<^sup>* (sy_commit sy) cs" "writing cs" "\<not> queue_full cs" "cs_options cs = cs_options (sy_commit sy)"
    using make_room_quiet [OF codec ci w(3,4) assms(8-10)] by (simp_all add: cs_def)
  have sub: "cs_submitted cs = cs_submitted (sy_commit sy)"
    using room(1) by (induction rule: rtranclp_induct) auto
  have ph: "cs_phase cs = Writing" using room(2) by (simp add: writing_def)
  obtain e where e: "engine_step (snapshot_every (sy_options sy)) env' sub (sy_engine sy) = Some e"
    using engine_step_total [OF con assms(3) _ assms(7)] wd unfolding widths_ok_def by blast
  obtain ts events r v where r: "r = \<lparr>lr_seq = e_next_seq (sy_engine sy), lr_ts = ts, lr_cmd = sub_cmd sub\<rparr>"
    "e_log e = e_log (sy_engine sy) @ [r]" "e_running e" "seq_next (e_next_seq (sy_engine sy)) = Some (e_next_seq e)"
    "e_pending e = e_pending (sy_engine sy) @
       [\<lparr>pa_seq = e_next_seq (sy_engine sy), pa_events = events, pa_reply = sub_reply sub, pa_view = v\<rparr>]"
    by (rule engine_step_effect [OF e]) (use w(1) in \<open>auto simp: env'_def\<close>)
  have ho: "hand_over (sy_engine sy) e cs = cs\<lparr>cs_queue := cs_queue cs @ [Msg_Record r], cs_submitted := cs_submitted cs @ [r]\<rparr>"
    using r(2) ph by (simp add: hand_over_def submit_record_def)
  have "steps x sy (sy\<lparr>sy_commit := cs\<rparr>)" by (rule quiet_steps [OF room(1)])
  moreover have "system_step (x_enc x) (x_crc x) (x_describe x) (x_senc x) (sy\<lparr>sy_commit := cs\<rparr>)
      ((sy\<lparr>sy_commit := cs\<rparr>)\<lparr>sy_engine := e, sy_rx := rx, sy_commit := hand_over (sy_engine sy) e cs\<rparr>)"
    using sys_engine [of "sy\<lparr>sy_commit := cs\<rparr>" 0 sub rx env' e] assms(5,6) w room(3) ph e
    by (simp add: next_submission_def next_poll_def env'_def)
  ultimately have "steps x sy (sy\<lparr>sy_engine := e, sy_rx := rx, sy_commit := hand_over (sy_engine sy) e cs\<rparr>)"
    by (auto intro: rtranclp.rtrancl_into_rtrancl)
  moreover have "working (sy\<lparr>sy_engine := e, sy_rx := rx, sy_commit := hand_over (sy_engine sy) e cs\<rparr>)"
    using w room r(3) ho by (auto simp: working_def writing_def queue_full_def)
  ultimately show ?thesis using that room(3,4) ph e r ho sub seq_next_less [OF r(4)] by simp
qed

lemma make_room_submitted [simp]: "cs_submitted (make_room x ios cs) = cs_submitted cs"
  by (induction ios arbitrary: cs) (simp_all add: round_submitted)

lemma hand_over_submitted: "prefix (cs_submitted cs) (cs_submitted (hand_over e e' cs))"
  by (auto simp: hand_over_def submit_record_def split: list.splits sum.splits if_splits)

lemma drain_submitted: "prefix (cs_submitted (sy_commit sy)) (cs_submitted (sy_commit (drain_engine x work sy)))"
proof (induction x work sy rule: drain_engine.induct)
  case (2 x env ios rest sy)
  show ?case
  proof (cases "sy_rx sy")
    case (Cons sub rx)
    let ?cs = "make_room x ios (sy_commit sy)"
    let ?env = "env\<lparr>env_commit_ok := cs_phase ?cs \<noteq> Gone, env_ack_ok := sy_ack_alive sy\<rparr>"
    show ?thesis
    proof (cases "queue_full ?cs \<or> engine_step (snapshot_every (sy_options sy)) ?env sub (sy_engine sy) = None")
      case False
      then obtain e where e: "\<not> queue_full ?cs" "engine_step (snapshot_every (sy_options sy)) ?env sub (sy_engine sy) = Some e"
        by auto
      have "prefix (cs_submitted (sy_commit sy)) (cs_submitted (hand_over (sy_engine sy) e ?cs))"
        using hand_over_submitted [of ?cs] by simp
      then show ?thesis
        using 2 [OF Cons refl refl _ _ refl, of e] e Cons prefix_order.trans by (auto simp: Let_def)
    qed (auto simp: Cons Let_def)
  qed simp
qed simp

text \<open>The engine empties its queue, whatever batches the commit thread writes meanwhile, and quits.\<close>

definition work_fine :: "(environment \<times> batch_io list) list \<Rightarrow> bool" where
  "work_fine work \<longleftrightarrow> list_all (\<lambda>w. list_all batch_fine (snd w) \<and> snd w \<noteq> []) work"

definition drained :: "externals \<Rightarrow> system \<Rightarrow> system \<Rightarrow> bool" where
  "drained x sy sy' \<longleftrightarrow> steps x sy sy' \<and> \<not> e_running (sy_engine sy') \<and> sy_rx sy' = [] \<and> sy_ack_alive sy' \<and>
     writing (sy_commit sy') \<and> 0 < submit_queue_depth (cs_options (sy_commit sy')) \<and>
     cs_options (sy_commit sy') = cs_options (sy_commit sy) \<and>
     sy_ack_pos sy' = sy_ack_pos sy \<and> sy_replica sy' = sy_replica sy \<and>
     (\<exists>rs. e_log (sy_engine sy') = e_log (sy_engine sy) @ rs \<and> map lr_cmd rs = map sub_cmd (sy_rx sy)) \<and>
     map pa_reply (e_pending (sy_engine sy')) = map pa_reply (e_pending (sy_engine sy)) @ map sub_reply (sy_rx sy)"

lemma drained_quit:
  assumes "working sy" and "sy_stop sy" and "sy_rx sy = []"
  shows "drained x sy (sy\<lparr>sy_engine := (sy_engine sy)\<lparr>e_running := False\<rparr>\<rparr>)"
proof -
  have "next_poll (sy_stop sy) False (sy_rx sy) 0 (e_state (sy_engine sy)) = StopNow"
    using assms(2,3) by (simp add: next_poll_def)
  from sys_quit [OF this] show ?thesis using assms by (auto simp: working_def drained_def)
qed

lemma drained_more:
  assumes "drained x sy1 sy'" and "steps x sy sy1" and "sy_rx sy = sub # sy_rx sy1"
    and "e_log (sy_engine sy1) = e_log (sy_engine sy) @ [r]" and "lr_cmd r = sub_cmd sub"
    and "map pa_reply (e_pending (sy_engine sy1)) = map pa_reply (e_pending (sy_engine sy)) @ [sub_reply sub]"
    and "sy_ack_pos sy1 = sy_ack_pos sy" and "sy_replica sy1 = sy_replica sy"
    and "cs_options (sy_commit sy1) = cs_options (sy_commit sy)"
  shows "drained x sy sy'"
proof -
  obtain rs where "e_log (sy_engine sy') = e_log (sy_engine sy1) @ rs" "map lr_cmd rs = map sub_cmd (sy_rx sy1)"
    using assms(1) by (auto simp: drained_def)
  then have "e_log (sy_engine sy') = e_log (sy_engine sy) @ r # rs \<and> map lr_cmd (r # rs) = map sub_cmd (sy_rx sy)"
    using assms(3-5) by simp
  moreover have "steps x sy sy'" using assms(1,2) by (auto simp: drained_def)
  ultimately show ?thesis using assms(1,3,6-9) unfolding drained_def by auto
qed

lemma drain_empties:
  assumes "system_run (no_stale_snapshot x) x c sy" and "externals_ok x" and "config_ok c" and "working sy" and "sy_stop sy"
    and "length (sy_rx sy) \<le> length work" and "work_fine work"
    and "e_next_seq (sy_engine sy) + length (sy_rx sy) \<le> u64_max"
    and "list_all (encodable (x_enc x)) (cs_submitted (sy_commit (drain_engine x work sy)))"
  shows "drained x sy (drain_engine x work sy)"
  using assms(1,4-9)
proof (induction work arbitrary: sy)
  case Nil
  then show ?case using drained_quit [OF Nil.prems(2,3)] by simp
next
  case (Cons w work)
  obtain env ios where w: "w = (env, ios)" by (cases w)
  show ?case
  proof (cases "sy_rx sy")
    case Nil
    then show ?thesis using drained_quit [OF Cons.prems(2,3)] by (simp add: w)
  next
    case rx: (Cons sub rx)
    let ?cs = "make_room x ios (sy_commit sy)" and ?env = "env\<lparr>env_commit_ok := True, env_ack_ok := True\<rparr>"
    have enc: "list_all (encodable (x_enc x)) (cs_submitted (sy_commit sy))"
      using Cons.prems(7) drain_submitted [of sy x "w # work"] by (auto simp: prefix_def)
    have io: "list_all batch_fine ios" "ios \<noteq> []" "work_fine work"
      using Cons.prems(5) by (simp_all add: work_fine_def w)
    have q: "e_next_seq (sy_engine sy) < u64_max" using Cons.prems(6) rx by simp
    obtain e r where e: "\<not> queue_full ?cs" "cs_phase ?cs = Writing"
      "engine_step (snapshot_every (sy_options sy)) ?env sub (sy_engine sy) = Some e"
      and st: "steps x sy (sy\<lparr>sy_engine := e, sy_rx := rx, sy_commit := hand_over (sy_engine sy) e ?cs\<rparr>)" (is "steps x sy ?sy")
      and wk: "working (sy\<lparr>sy_engine := e, sy_rx := rx, sy_commit := hand_over (sy_engine sy) e ?cs\<rparr>)"
      and r: "e_log e = e_log (sy_engine sy) @ [r]" "lr_cmd r = sub_cmd sub" "e_next_seq e = e_next_seq (sy_engine sy) + 1"
      "map pa_reply (e_pending e) = map pa_reply (e_pending (sy_engine sy)) @ [sub_reply sub]"
      and opt: "cs_options (hand_over (sy_engine sy) e ?cs) = cs_options (sy_commit sy)"
      by (rule drain_iteration [OF Cons.prems(1) assms(2,3) Cons.prems(2) rx Cons.prems(3) q enc io(1,2), of env])
    have run: "e_running e" "sy_ack_alive sy" using wk by (simp_all add: working_def)
    have d: "drain_engine x (w # work) sy = drain_engine x work ?sy"
      using e run by (simp add: w rx Let_def)
    have "drained x ?sy (drain_engine x work ?sy)"
    proof (rule Cons.IH [OF run_steps [OF st Cons.prems(1)] wk _ _ io(3)])
      show "sy_stop ?sy" "length (sy_rx ?sy) \<le> length work" using Cons.prems(3,4) rx by simp_all
      show "e_next_seq (sy_engine ?sy) + length (sy_rx ?sy) \<le> u64_max" using Cons.prems(6) rx r(3) by simp
      show "list_all (encodable (x_enc x)) (cs_submitted (sy_commit (drain_engine x work ?sy)))"
        using Cons.prems(7) unfolding d .
    qed
    then show ?thesis
      unfolding d using rx r opt by (intro drained_more [OF _ st, of _ sub r]) simp_all
  qed
qed

section \<open>Nothing is left unanswered\<close>

lemma stop_commit_closes:
  assumes "codec_ok (x_enc x) dec (x_crc x)" and "commit_inv (x_enc x) dec (x_crc x) cs" and "writing cs"
    and "0 < submit_queue_depth (cs_options cs)" and "list_all (encodable (x_enc x)) (cs_submitted cs)"
    and "list_all batch_fine room" and "room \<noteq> []" and "list_all batch_fine ios"
    and "submit_queue_depth (cs_options cs) + 1 < length ios"
  shows "(quiet_step x)\<^sup>*\<^sup>* cs (stop_commit x room ios cs) \<and> cs_submitted (stop_commit x room ios cs) = cs_submitted cs \<and>
    cs_phase (stop_commit x room ios cs) = Closed \<and>
    mark_durable (cs_mark (stop_commit x room ios cs)) = last_seq_of (cs_submitted cs)"
proof -
  let ?cs = "make_room x room cs"
  have m: "(quiet_step x)\<^sup>*\<^sup>* cs ?cs" "writing ?cs" "\<not> queue_full ?cs" "cs_options ?cs = cs_options cs"
    using make_room_quiet [OF assms(1-7)] by blast+
  have s: "quiet_step x ?cs (send_stop ?cs)" using step_stop [OF m(3)] by (simp add: send_stop_def)
  have qs: "(quiet_step x)\<^sup>*\<^sup>* cs (send_stop ?cs)" using m(1) s by (rule rtranclp.rtrancl_into_rtrancl)
  have inv: "commit_inv (x_enc x) dec (x_crc x) (send_stop ?cs)"
    using qs by (induction rule: rtranclp_induct) (auto intro: assms(2) commit_inv_step [OF _ assms(1)])
  have "cs_phase (send_stop ?cs) = Writing \<and> Msg_Stop \<in> set (cs_queue (send_stop ?cs)) \<and>
      length (cs_queue (send_stop ?cs)) < length ios"
    using m(2-4) assms(9) by (auto simp: send_stop_def writing_def queue_full_def)
  then have closed: "cs_phase (stop_commit x room ios cs) = Closed \<and>
      mark_durable (cs_mark (stop_commit x room ios cs)) = last_seq_of (cs_submitted (send_stop ?cs))"
    unfolding stop_commit_def using assms(5,8)
    by (intro writer_run_flushes [OF assms(1) inv]) (simp_all add: send_stop_def)
  have all: "(quiet_step x)\<^sup>*\<^sup>* cs (stop_commit x room ios cs)"
    using qs writer_run_quiet unfolding stop_commit_def by (rule rtranclp_trans)
  then have "cs_submitted (stop_commit x room ios cs) = cs_submitted cs"
    by (induction rule: rtranclp_induct) auto
  moreover have "cs_submitted (send_stop ?cs) = cs_submitted cs" by (simp add: send_stop_def)
  ultimately show ?thesis using closed all by simp
qed

lemma last_releases_all:
  assumes "gapless rs" and "r \<in> set rs" and "mark_durable st = last_seq_of rs"
  shows "wait_for (lr_seq r) st = Released"
  using gapless_le_last [OF assms(1,2)] assms(2,3) by (auto simp: commit_mark.released_iff last_seq_of_def)

lemma ack_all_frame:
  "sy_engine (ack_all confirms ps sy) = sy_engine sy" "sy_rx (ack_all confirms ps sy) = sy_rx sy"
  "sy_commit (ack_all confirms ps sy) = sy_commit sy" "sy_base (ack_all confirms ps sy) = sy_base sy"
  by (induction ps arbitrary: sy) (simp_all add: ack_next_def)

section \<open>The channel stays within its bound\<close>

definition bounded :: "commit_sys \<Rightarrow> bool" where
  "bounded cs \<longleftrightarrow> length (cs_queue cs) \<le> submit_queue_depth (cs_options cs)"

lemma commit_batch_queue:
  "cs_queue (commit_batch enc crc describe io batch after cs) = cs_queue cs"
  "cs_options (commit_batch enc crc describe io batch after cs) = cs_options cs"
  by (auto simp: commit_batch_def split: prod.splits option.splits)

lemma bounded_commit:
  assumes "commit_step enc crc describe cs cs'" and "bounded cs"
  shows "bounded cs'"
  using assms(1)
proof cases
  case (step_submit r)
  then show ?thesis by (auto simp: submit_record_def bounded_def queue_full_def split: if_splits)
next
  case (step_round io)
  then show ?thesis
    using assms(2) by (auto simp: writer_round_def bounded_def commit_batch_queue split: list.splits msg.splits prod.splits
        dest!: gather_shorter)
next
  case (step_drain io)
  then show ?thesis by (auto simp: writer_drain_def bounded_def commit_batch_queue Let_def)
qed (use assms(2) in \<open>auto simp: bounded_def send_stop_def queue_full_def\<close>)

lemma bounded_run:
  assumes "system_run ok x c sy"
  shows "bounded (sy_commit sy)"
  using assms
proof (induction rule: system_run.induct)
  case (run_open options instant replica d sy)
  then show ?case
    by (auto simp: open_inner_def system_start_def spawn_def bounded_def split: sum.splits wal_error.splits if_splits)
next
  case (run_step sy sy')
  from run_step(2) show ?case
  proof cases
    case (sys_engine t sub rx env e)
    then show ?thesis
      using run_step(3) by (auto simp: hand_over_def submit_record_def bounded_def queue_full_def split: list.splits sum.splits if_splits)
  next
    case (sys_commit cs)
    then show ?thesis using bounded_commit run_step(3) by auto
  qed (use run_step(3) in simp_all)
next
  case (run_restart sy n dir m options instant replica d sy')
  then show ?case
    by (auto simp: open_inner_def system_start_def spawn_def bounded_def split: sum.splits wal_error.splits if_splits)
qed

section \<open>The last facts of a shutdown\<close>

lemma stop_commit_submitted [simp]: "cs_submitted (stop_commit x room ios cs) = cs_submitted cs"
proof -
  have "(quiet_step x)\<^sup>*\<^sup>* (send_stop (make_room x room cs)) (stop_commit x room ios cs)"
    unfolding stop_commit_def by (rule writer_run_quiet)
  then have "cs_submitted (stop_commit x room ios cs) = cs_submitted (send_stop (make_room x room cs))"
    by (induction rule: rtranclp_induct) auto
  then show ?thesis by (simp add: send_stop_def)
qed

lemma ack_all_pos:
  assumes "\<forall>p \<in> set ps. wait_for (pa_seq p) (cs_mark (sy_commit sy)) = Released"
  shows "sy_ack_pos (ack_all confirms ps sy) = sy_ack_pos sy + length ps"
  using assms by (induction ps arbitrary: sy) (simp_all add: ack_next_def)

text \<open>When every record is released, a power loss leaves all of them.\<close>

lemma released_log_survives:
  assumes "commit_inv enc dec crc cs" and "codec_ok enc dec crc" and "synced (cs_wal cs) \<le> n"
    and "\<And>r. r \<in> set (cs_submitted cs) \<Longrightarrow> wait_for (lr_seq r) (cs_mark cs) = Released"
  shows "read_all dec crc (crash n (cs_wal cs)) = Inr (cs_submitted cs)"
proof -
  obtain kept where k: "read_all dec crc (crash n (cs_wal cs)) = Inr kept" "prefix kept (cs_submitted cs)"
    "\<forall>r \<in> set (cs_submitted cs). wait_for (lr_seq r) (cs_mark cs) = Released \<longrightarrow> r \<in> set kept"
    using commit_crash [OF assms(1-3)] by blast
  obtain rest where rest: "cs_submitted cs = kept @ rest" using k(2) by (auto simp: prefix_def)
  have "gapless (kept @ rest)" using assms(1) by (simp add: commit_inv_def flip: rest)
  then have "r \<notin> set kept" if "r \<in> set rest" for r using gapless_split that by blast
  then have "rest = []" using k(3) assms(4) by (cases rest) (auto simp: rest)
  then show ?thesis using k(1) rest by simp
qed

text \<open>When the watermark has reached the last record, nobody waits any longer and the whole log survives.\<close>

lemma everything_released:
  assumes "system_run (no_stale_snapshot x) x c sy" and "externals_ok x" and "config_ok c"
    and "mark_durable (cs_mark (sy_commit sy)) = last_seq_of (cs_submitted (sy_commit sy))"
  shows "\<forall>p \<in> set (e_pending (sy_engine sy)). wait_for (pa_seq p) (cs_mark (sy_commit sy)) = Released"
    and "\<forall>n \<ge> synced (cs_wal (sy_commit sy)). read_log x n sy = Inr (sy_base sy @ e_log (sy_engine sy))"
proof -
  obtain s0 where e: "engine_consistent c (sy_base sy) s0 (sy_engine sy)"
    "cs_submitted (sy_commit sy) = sy_base sy @ e_log (sy_engine sy)"
    by (rule system_runE [OF assms(1-3)])
  have codec: "codec_ok (x_enc x) (x_dec x) (x_crc x)" using assms(2) by (simp add: externals_ok_def)
  have inv: "commit_inv (x_enc x) (x_dec x) (x_crc x) (sy_commit sy)"
    using system_run_inv [OF assms(1-3)] by (simp add: system_inv_def)
  then have g: "gapless (cs_submitted (sy_commit sy))" by (simp add: commit_inv_def)
  note free = last_releases_all [OF g _ assms(4)]
  show "\<forall>p \<in> set (e_pending (sy_engine sy)). wait_for (pa_seq p) (cs_mark (sy_commit sy)) = Released"
  proof
    fix p assume "p \<in> set (e_pending (sy_engine sy))"
    from told_record [OF pending_is_told [OF e(1) this]] obtain r where
      "r \<in> set (cs_submitted (sy_commit sy))" "lr_seq r = pa_seq p" unfolding e(2) by auto
    then show "wait_for (pa_seq p) (cs_mark (sy_commit sy)) = Released" using free by metis
  qed
  show "\<forall>n \<ge> synced (cs_wal (sy_commit sy)). read_log x n sy = Inr (sy_base sy @ e_log (sy_engine sy))"
    using released_log_survives [OF inv codec] free e(2) by simp
qed

end
