(* ===== verification/Waiting.thy ===== *)
theory Waiting
  imports System
begin

text \<open>
  How the engine thread waits, \<open>next\<close> in \<open>crates/auction-engine/src/engine.rs\<close>: it looks (\<open>next_poll\<close>), and when there
  is nothing to do it spins if a deadline is near and parks otherwise, with a cap. The theory shows that a park ends
  early enough for every deadline and late enough to be worth it, and when the loop returns.
\<close>

section \<open>The pause\<close>

definition max_park :: nanos where
  "max_park = from_millis 100"

datatype pause = Snooze | Park nanos

definition pause_for :: "engine_options \<Rightarrow> nanos \<Rightarrow> auction_state \<Rightarrow> pause" where
  "pause_for options t s =
     (case deadline s of
        None \<Rightarrow> Park max_park
      | Some due \<Rightarrow>
          (let remaining = due - t
           in if remaining \<le> spin_ahead options then Snooze
              else Park (min (remaining - spin_ahead options) max_park)))"

section \<open>The loop\<close>

text \<open>
  What one round finds: the stop flag, whether every sender is gone, the queue and the clock when it looks, and what
  ends its park if it parks.
\<close>

datatype wake = Received submission | TimedOut | Disconnected

record look =
  lk_stop :: bool
  lk_gone :: bool
  lk_rx :: "submission list"
  lk_now :: nanos
  lk_wake :: wake

fun next_loop :: "engine_options \<Rightarrow> auction_state \<Rightarrow> look list \<Rightarrow> next_action" where
  "next_loop options s [] = Wait"
| "next_loop options s (l # looks) =
     (case next_poll (lk_stop l) (lk_gone l) (lk_rx l) (lk_now l) s of
        Wait \<Rightarrow>
          (case pause_for options (lk_now l) s of
             Snooze \<Rightarrow> next_loop options s looks
           | Park d \<Rightarrow>
               (case lk_wake l of
                  Received sub \<Rightarrow> Work sub
                | TimedOut \<Rightarrow> next_loop options s looks
                | Disconnected \<Rightarrow> StopNow))
      | action \<Rightarrow> action)"

section \<open>Parks\<close>

lemma max_park_pos: "0 < max_park"
  by (simp add: max_park_def from_millis_def machine_int)

lemma park_bounds:
  assumes "pause_for options t s = Park d"
  shows "0 < d \<and> d \<le> max_park"
  using assms max_park_pos by (auto simp: pause_for_def Let_def split: option.splits if_splits)

lemma park_ends_early:
  assumes "pause_for options t s = Park d" and "deadline s = Some due"
  shows "t + d + spin_ahead options \<le> due"
  using assms by (auto simp: pause_for_def Let_def split: if_splits)

lemma fold_min_first: "fold min xs (a :: nat) \<le> a"
proof (induction xs arbitrary: a)
  case (Cons x xs)
  then show ?case using order_trans [OF Cons [of "min x a"] min.cobounded2] by simp
qed simp

lemma deadline_le:
  assumes "accepts_bids (status s)" and "open_window_of s = Some w" and "window_close (now s) (batch_window (config s)) = Some d"
  shows "\<exists>due. deadline s = Some due \<and> due \<le> max d (now s)"
proof -
  obtain ds where ds: "map (\<lambda>d. max d (now s)) (List.map_filter id [Some d,
      (case next_trigger (resting s) of None \<Rightarrow> None | Some limit \<Rightarrow> time_to_reach (schedule (config s)) limit),
      time_to_reach (schedule (config s)) (floor_price (config s))]) = max d (now s) # ds"
    by (simp add: List.map_filter_simps)
  then show ?thesis
    using assms fold_min_first [of ds] by (simp add: deadline_def Let_def)
qed

lemma window_close_near:
  assumes "window_close t w = Some d"
  shows "d \<le> t + w"
proof -
  have "d = min (min (t div w + 1) u64_max * w) u64_max"
    using assms by (auto simp: window_close_def window_index_def u64_saturating_mul_def u64_saturating_add_def Let_def
        split: if_splits)
  then have "d \<le> min (t div w + 1) u64_max * w" by simp
  also have "\<dots> \<le> (t div w + 1) * w" by (intro mult_le_mono1) simp
  also have "\<dots> \<le> t + w" by (simp add: add_mult_distrib div_times_less_eq_dividend)
  finally show ?thesis .
qed

text \<open>With a threshold of at least the batch window, the thread never parks while a window is open.\<close>

lemma open_window_spins:
  assumes "accepts_bids (status s)" and "open_window_of s = Some w" and "0 < batch_window (config s)"
    and "batch_window (config s) \<le> spin_ahead options" and "now s \<le> t"
  shows "pause_for options t s = Snooze"
proof -
  obtain d where d: "window_close (now s) (batch_window (config s)) = Some d"
    using assms(3) by (auto simp: window_close_def Let_def)
  obtain due where due: "deadline s = Some due" "due \<le> max d (now s)" using deadline_le [OF assms(1,2) d] by blast
  then have "due - t \<le> spin_ahead options" using window_close_near [OF d] assms(4,5) by auto
  then show ?thesis using due(1) by (simp add: pause_for_def)
qed

section \<open>Returning\<close>

text \<open>A round that finds the deadline passed, a queued command or the stop flag is the last one.\<close>

definition decides :: "auction_state \<Rightarrow> look \<Rightarrow> bool" where
  "decides s l \<longleftrightarrow> lk_rx l \<noteq> [] \<or> lk_stop l \<or> lk_gone l \<or>
     (case deadline s of None \<Rightarrow> False | Some due \<Rightarrow> due \<le> lk_now l)"

lemma next_poll_decides:
  "next_poll (lk_stop l) (lk_gone l) (lk_rx l) (lk_now l) s \<noteq> Wait \<longleftrightarrow> decides s l"
  by (auto simp: next_poll_def decides_def split: list.splits option.splits)

lemma next_loop_returns: "\<exists>l \<in> set looks. decides s l \<Longrightarrow> next_loop options s looks \<noteq> Wait"
proof (induction looks)
  case (Cons l looks)
  then show ?case
    using next_poll_decides [of l s] by (auto split: next_action.splits pause.splits wake.splits)
qed simp

lemma next_loop_ticks_on_time:
  "next_loop options s looks = DueTick \<Longrightarrow> \<exists>l \<in> set looks. \<exists>due. deadline s = Some due \<and> due \<le> lk_now l \<and> lk_rx l = []"
proof (induction looks)
  case (Cons l looks)
  then show ?case
    by (auto simp: next_poll_def split: list.splits option.splits pause.splits wake.splits if_splits)
qed simp

end
