(* ===== verification/Replication.thy ===== *)
theory Replication
  imports Engine
begin

text \<open>
  The in-process standby of \<open>crates/auction-engine/src/replication.rs\<close> as its users see it: \<open>LocalReplica\<close> with its
  channel, its thread and its flag, and the operations of the trait \<open>Replica\<close>. The loop of the thread never ends by
  itself, so it is a partial function; \<open>stop\<close> makes it end, and only after everything sent has been applied.
\<close>

section \<open>State and operations\<close>

record replica_lost =
  rl_seq :: seq
  rl_timeout :: nanos

record local_replica =
  lp_queue :: "log_record list"
  lp_standby :: standby
  lp_stopping :: bool
  lp_thread :: bool

definition replica_start :: "auction_state \<Rightarrow> local_replica" where
  "replica_start s = \<lparr>lp_queue = [], lp_standby = standby_start s, lp_stopping = False, lp_thread = True\<rparr>"

text \<open>The channel is unbounded; without the thread nobody receives.\<close>

definition replica_send :: "log_record \<Rightarrow> local_replica \<Rightarrow> local_replica" where
  "replica_send record lp = (if lp_thread lp then lp\<lparr>lp_queue := lp_queue lp @ [record]\<rparr> else lp)"

definition replica_get :: "seq option \<Rightarrow> seq option" where
  "replica_get current = current"

definition replica_confirmed_seq :: "local_replica \<Rightarrow> seq option" where
  "replica_confirmed_seq lp = replica_get (sb_mark (lp_standby lp))"

definition replica_state :: "local_replica \<Rightarrow> auction_state" where
  "replica_state lp = sb_state (lp_standby lp)"

text \<open>
  \<open>wait_for\<close>: look, and after every wake-up look again. \<open>marks\<close> is what the watermark was at each look before the
  timeout, and a wait that times out does not look again.
\<close>

fun replica_wait :: "seq \<Rightarrow> nanos \<Rightarrow> seq option list \<Rightarrow> replica_lost + unit" where
  "replica_wait target timeout [] = Inl \<lparr>rl_seq = target, rl_timeout = timeout\<rparr>"
| "replica_wait target timeout (current # marks) =
     (if replica_confirmed target current then Inr () else replica_wait target timeout marks)"

text \<open>\<open>follow\<close>, the loop of the thread: apply and confirm what arrives; on an empty queue, stop if told to.\<close>

partial_function (option) replica_follow :: "local_replica \<Rightarrow> (wal_error + local_replica) option" where
  "replica_follow lp =
     (case lp_queue lp of
        [] \<Rightarrow> if lp_stopping lp then Some (Inr (lp\<lparr>lp_thread := False\<rparr>)) else replica_follow lp
      | record # rest \<Rightarrow>
          (case standby_step record (lp_standby lp) of
             Inl e \<Rightarrow> Some (Inl e)
           | Inr sb \<Rightarrow> replica_follow (lp\<lparr>lp_queue := rest, lp_standby := sb\<rparr>)))"

text \<open>\<open>stop\<close>: set the flag and join the thread, if it was not joined before.\<close>

definition replica_stop :: "local_replica \<Rightarrow> (wal_error + local_replica) option" where
  "replica_stop lp =
     (let lp = lp\<lparr>lp_stopping := True\<rparr> in if lp_thread lp then replica_follow lp else Some (Inr lp))"

section \<open>Stopping\<close>

lemma replica_follow_stops:
  "lp_stopping lp \<Longrightarrow> replica_follow lp =
     Some (case standby_run (lp_queue lp) (lp_standby lp) of
       Inl e \<Rightarrow> Inl e
     | Inr sb \<Rightarrow> Inr (lp\<lparr>lp_queue := [], lp_standby := sb, lp_thread := False\<rparr>))"
proof (induction "lp_queue lp" arbitrary: lp)
  case Nil
  then show ?case by (subst replica_follow.simps) (simp add: Nil(1) [symmetric])
next
  case (Cons r rest)
  show ?case
  proof (cases "standby_step r (lp_standby lp)")
    case (Inr sb)
    then show ?thesis
      using Cons(1) [of "lp\<lparr>lp_queue := rest, lp_standby := sb\<rparr>"] Cons(3)
      by (subst replica_follow.simps) (simp add: Cons(2) [symmetric] split: sum.split)
  next
    case (Inl e)
    then show ?thesis by (subst replica_follow.simps) (simp add: Cons(2) [symmetric])
  qed
qed

lemma sends_queue: "lp_thread lp \<Longrightarrow> fold replica_send rs lp = lp\<lparr>lp_queue := lp_queue lp @ rs\<rparr>"
  by (induction rs arbitrary: lp) (simp_all add: replica_send_def)

lemma replica_wait_confirms: "replica_wait target timeout marks = Inr () \<longleftrightarrow> (\<exists>m \<in> set marks. replica_confirmed target m)"
  by (induction marks) auto

lemma replica_wait_lost:
  "replica_wait target timeout marks = Inl l \<Longrightarrow> l = \<lparr>rl_seq = target, rl_timeout = timeout\<rparr>"
  by (induction marks) (auto split: if_splits)

lemma replica_stop_state:
  assumes "lp_thread lp" and "run_records (lp_queue lp) (replica_state lp) = Some (s, ev)"
  shows "\<exists>lp'. replica_stop lp = Some (Inr lp') \<and> lp_queue lp' = [] \<and> \<not> lp_thread lp' \<and> replica_state lp' = s \<and>
    (\<forall>t. replica_confirmed t (replica_confirmed_seq lp') \<longleftrightarrow>
       replica_confirmed t (replica_confirmed_seq lp) \<or> (\<exists>r \<in> set (lp_queue lp). t \<le> lr_seq r))"
proof -
  obtain m where "standby_run (lp_queue lp) (lp_standby lp) = Inr \<lparr>sb_state = s, sb_mark = m\<rparr>"
    "\<forall>t. replica_confirmed t m \<longleftrightarrow> replica_confirmed t (sb_mark (lp_standby lp)) \<or> (\<exists>r \<in> set (lp_queue lp). t \<le> lr_seq r)"
    using standby_run_state assms(2) by (fastforce simp: replica_state_def)
  then show ?thesis
    using assms(1) replica_follow_stops [of "lp\<lparr>lp_stopping := True\<rparr>"]
    by (simp add: replica_stop_def replica_state_def replica_confirmed_seq_def replica_get_def)
qed

end
