(* ===== verification/Display_Text.thy ===== *)
theory Display_Text
  imports Engine
begin

text \<open>
  The \<open>Display\<close> implementations of \<open>auction-proto\<close> (\<open>ids.rs\<close>, \<open>money.rs\<close>, \<open>time.rs\<close>, \<open>lib.rs\<close>), of \<open>FillId\<close>
  (\<open>event.rs\<close>) and of the errors (\<open>WalError\<close> in \<open>error.rs\<close>, \<open>Shed\<close> in \<open>ingress.rs\<close>). The text of a \<open>Uuid\<close>, of a path and
  of an error of another crate is an argument.
\<close>

section \<open>Numbers\<close>

definition show_int :: "int \<Rightarrow> string" where
  "show_int x = (if x < 0 then CHR ''-'' # show_nat (nat (- x)) else show_nat (nat x))"

definition display_price :: "price \<Rightarrow> string" where
  "display_price p = show_int p"

definition display_qty :: "qty \<Rightarrow> string" where
  "display_qty q = show_nat q"

definition display_nanos :: "nanos \<Rightarrow> string" where
  "display_nanos t = show_nat t @ ''ns''"

definition display_seq :: "seq \<Rightarrow> string" where
  "display_seq s = ''#'' @ show_nat s"

definition display_fill_id :: "u64 \<Rightarrow> string" where
  "display_fill_id n = ''fill_'' @ show_nat n"

section \<open>Identifiers\<close>

primrec display_auction_id :: "(uuid \<Rightarrow> string) \<Rightarrow> auction_id \<Rightarrow> string" where
  "display_auction_id show_uuid (AuctionId u) = ''auc_'' @ show_uuid u"

primrec display_participant_id :: "(uuid \<Rightarrow> string) \<Rightarrow> participant_id \<Rightarrow> string" where
  "display_participant_id show_uuid (ParticipantId u) = ''par_'' @ show_uuid u"

primrec display_key :: "(uuid \<Rightarrow> string) \<Rightarrow> idempotency_key \<Rightarrow> string" where
  "display_key show_uuid (IdempotencyKey u) = ''idem_'' @ show_uuid u"

section \<open>Rejections and errors\<close>

primrec display_reason :: "reject_reason \<Rightarrow> string" where
  "display_reason NotLive = ''auction is not live''"
| "display_reason (PriceMoved server_price) = ''price moved; server price is '' @ display_price server_price"
| "display_reason SupplyExhausted = ''supply exhausted''"
| "display_reason InsufficientCollateral = ''insufficient collateral''"
| "display_reason ZeroQuantity = ''quantity must be positive''"
| "display_reason RateLimited = ''rate limited''"
| "display_reason reject_reason.Busy = ''system busy; bid was not executed''"
| "display_reason (LimitAboveClock server_price) =
     ''limit price is above the clock price of '' @ display_price server_price"
| "display_reason Unfilled = ''auction ended before the clock reached this bid''"
| "display_reason UnknownBid = ''no live bid under this key''"

primrec display_shed :: "shed \<Rightarrow> string" where
  "display_shed (shed.Busy reason) = display_reason reason"
| "display_shed (EngineStopped why) = ''the auction engine has stopped: '' @ why"

text \<open>\<open>path\<close> and \<open>source\<close> are the texts of the fields the model leaves out; a panic prints no error.\<close>

primrec display_wal_error :: "string \<Rightarrow> string \<Rightarrow> wal_error \<Rightarrow> string" where
  "display_wal_error path source Io = ''io error on '' @ path @ '': '' @ source"
| "display_wal_error path source Encode = ''could not encode record: '' @ source"
| "display_wal_error path source (Corrupt offset detail) =
     ''corrupt record in '' @ path @ '' at offset '' @ show_nat offset @ '': '' @ detail"
| "display_wal_error path source (SequenceGap from found) =
     ''log jumps from '' @ display_seq from @ '' to '' @ display_seq found @ '': a command is missing''"
| "display_wal_error path source ManifestMismatch =
     ''manifest in '' @ path @ '' does not match the auction being opened''"
| "display_wal_error path source NoManifest = ''no manifest in '' @ path @ '': not an auction log directory''"
| "display_wal_error path source (CommitterStopped why) = ''the commit thread has stopped: '' @ why"
| "display_wal_error path source Aborted = ''''"

section \<open>What a text tells\<close>

lemma show_nat_inject [simp]: "show_nat a = show_nat b \<longleftrightarrow> a = b"
  using show_nat_digits by metis

lemma show_nat_no_sign: "show_nat n \<noteq> CHR ''-'' # cs"
  using show_nat_digits [of n] by auto

lemma show_int_inject [simp]: "show_int a = show_int b \<longleftrightarrow> a = b"
  using show_nat_no_sign show_nat_no_sign [symmetric] by (auto simp: show_int_def)

lemma display_reason_inject [simp]: "display_reason r = display_reason r' \<longleftrightarrow> r = r'"
  by (cases r; cases r') (simp_all add: display_price_def)

end
