(* ===== verification/Widths.thy ===== *)
theory Widths
  imports Runs
begin

text \<open>
  The widths of everything a state holds. \<open>Auction_Shape\<close> carries those the operations of the machine depend on. This
  theory adds the register of outcomes, the accounts, the sequence numbers that bids and fills bear, the ladder with its
  running total and its levels, and puts them together:
  in a state that a log leaves, every integer is a value of the Rust type of its field.
\<close>

section \<open>Register and accounts\<close>

primrec outcome_width :: "outcome \<Rightarrow> bool" where
  "outcome_width (outcome.Queued q) \<longleftrightarrow> u64_ok q"
| "outcome_width (outcome.Resting q) \<longleftrightarrow> u64_ok q"
| "outcome_width (outcome.Filled q p) \<longleftrightarrow> u64_ok q \<and> i64_ok p"
| "outcome_width (outcome.Rejected r) \<longleftrightarrow> reason_width r"
| "outcome_width outcome.Cancelled \<longleftrightarrow> True"
| "outcome_width (FilledThenCancelled q p) \<longleftrightarrow> u64_ok q \<and> i64_ok p"

definition coll_width :: "collateral \<Rightarrow> bool" where
  "coll_width c \<longleftrightarrow> i64_ok (coll_limit c) \<and> i64_ok (coll_committed c)"

definition values_ok :: "('b \<Rightarrow> bool) \<Rightarrow> ('a \<rightharpoonup> 'b) \<Rightarrow> bool" where
  "values_ok W m \<longleftrightarrow> (\<forall>k x. m k = Some x \<longrightarrow> W x)"

lemma values_ok_upd: "values_ok W m \<Longrightarrow> W x \<Longrightarrow> values_ok W (m(k \<mapsto> x))"
  by (simp add: values_ok_def)

lemma values_ok_fun_upd: "values_ok W m \<Longrightarrow> (\<And>x. v = Some x \<Longrightarrow> W x) \<Longrightarrow> values_ok W (m(k := v))"
  by (simp add: values_ok_def)

definition books_width :: "auction_state \<Rightarrow> bool" where
  "books_width s \<longleftrightarrow> values_ok outcome_width (outcomes s) \<and> values_ok coll_width (collateral_map s)"

text \<open>Every write to the register or the accounts keeps the widths.\<close>

lemma merge_width: "outcome_width x \<Longrightarrow> (\<And>y. prior = Some y \<Longrightarrow> outcome_width y) \<Longrightarrow> outcome_width (merge_outcome prior x)"
  by (cases "(prior, x)" rule: merge_outcome.cases) auto

lemma set_outcome_width [simp]: "books_width s \<Longrightarrow> outcome_width x \<Longrightarrow> books_width (set_outcome k x s)"
  unfolding books_width_def set_outcome_def
  by (auto intro!: values_ok_upd merge_width) (auto simp: values_ok_def)

lemma quote_width:
  assumes "values_ok outcome_width m" and "i64_ok p"
  shows "values_ok outcome_width (m(k := quote_at p (m k)))"
proof (rule values_ok_fun_upd [OF assms(1)])
  fix x assume "quote_at p (m k) = Some x"
  moreover have "m k = Some y \<Longrightarrow> outcome_width y" for y using assms(1) by (auto simp: values_ok_def)
  ultimately show "outcome_width x" using assms(2) by (auto simp: quote_at_def split: option.splits outcome.splits)
qed

lemma entry_width_kept:
  assumes "values_ok coll_width m" and "\<And>c. coll_width c \<Longrightarrow> coll_width (f c)"
  shows "values_ok coll_width (coll_entry pt f m)"
proof -
  have "coll_width (unwrap_or (m pt) no_collateral)"
    using assms(1) by (cases "m pt") (auto simp: values_ok_def coll_width_def no_collateral_def)
  then show ?thesis using assms by (simp add: coll_entry_def values_ok_upd)
qed

lemma ledger_width [simp]:
  "values_ok coll_width m \<Longrightarrow> values_ok coll_width (release m pt p q)"
  "values_ok coll_width m \<Longrightarrow> values_ok coll_width (commit m pt p q)"
  by (auto simp: release_def commit_def Let_def coll_width_def intro!: entry_width_kept)

lemma books_width_collateral:
  "books_width s \<Longrightarrow> values_ok coll_width m \<Longrightarrow> books_width (s\<lparr>collateral_map := m\<rparr>)"
  by (simp add: books_width_def)

lemma books_width_accounts: "books_width s \<Longrightarrow> values_ok coll_width (collateral_map s)"
  by (simp add: books_width_def)

lemma books_width_sales [simp]:
  "books_width (s\<lparr>next_fill_id := n, fills := fs\<rparr>) = books_width s" "books_width (s\<lparr>window := w\<rparr>) = books_width s"
  "books_width (s\<lparr>resting := l\<rparr>) = books_width s" "books_width (s\<lparr>status := st\<rparr>) = books_width s"
  by (simp_all add: books_width_def)

lemmas books_intros = books_width_collateral ledger_width books_width_accounts set_outcome_width

lemma reserve_width: "reserve pt p q s = (s', ok) \<Longrightarrow> books_width s \<Longrightarrow> books_width s'"
  by (auto simp: reserve_def Let_def books_width_def coll_width_def intro!: entry_width_kept
      split: option.splits if_splits)

section \<open>The loops\<close>

abbreviation booked_width :: "machine \<Rightarrow> bool" where
  "booked_width m \<equiv> books_width (fst m)"

lemma fold_width:
  assumes "\<And>x m. x \<in> set xs \<Longrightarrow> booked_width m \<Longrightarrow> booked_width (f x m)" and "booked_width m"
  shows "booked_width (fold f xs m)"
  using assms
proof (induction xs arbitrary: m)
  case (Cons x xs)
  show ?case using Cons.IH [of "f x m"] Cons.prems by simp
qed simp

lemma turn_away_width:
  "booked_width m \<Longrightarrow> booked_width (turn_away_pending b m)"
  "booked_width m \<Longrightarrow> reason_width r \<Longrightarrow> booked_width (turn_away_resting r rb m)"
  by (cases m; simp add: books_intros)+

lemma settle_width:
  "booked_width m \<Longrightarrow> u64_ok (snd ba) \<Longrightarrow> i64_ok p \<Longrightarrow> booked_width (settle_plain p ba m)"
proof -
  assume a: "booked_width m" "u64_ok (snd ba)" "i64_ok p"
  have g: "books_width (s\<lparr>collateral_map := c, next_fill_id := n, fills := fs\<rparr>) = books_width (s\<lparr>collateral_map := c\<rparr>)"
    for s :: auction_state and c n fs by (simp add: books_width_def)
  show ?thesis using a by (cases m; cases ba) (simp add: Let_def g books_intros)
qed

lemma reprice_width:
  assumes "i64_ok p"
  shows "booked_width m \<Longrightarrow> booked_width (snd (reprice_fills p fs m))"
proof (induction fs arbitrary: m)
  case (Cons f fs)
  have "booked_width (snd (reprice_fill p f m))"
    using Cons.prems assms by (cases m) (simp add: Let_def books_width_def quote_width)
  then show ?case using Cons.IH by (simp only: reprice_fills_Cons snd_conv)
qed simp

lemma clear_width:
  assumes "books_width s" and "i64_ok p"
  shows "books_width (fst (clear p (s, ev)))"
proof -
  have "booked_width (snd (reprice_fills p (fills s) (s\<lparr>status := status.Cleared, clearing_price := Some p\<rparr>, ev)))"
    using assms by (intro reprice_width) (simp_all add: books_width_def)
  then show ?thesis
    unfolding clear_phases Let_def by (intro fold_width turn_away_width) (simp_all add: books_width_def)
qed

lemma flush_width:
  assumes "books_width s" and "shape_at t s"
  shows "books_width (fst (flush_window (s, ev)))"
  using assms(2)
proof (cases rule: flush_shape_cases [where ev = ev])
  case none
  then show ?thesis using assms(1) by simp
next
  case (live w allocs rem ex s1 e1)
  have p: "i64_ok (w_price w)"
    using assms(2) live(1) window_price_ok [of s t] by (cases "window_bounds s t") (simp add: shape_at_def window_shape_def)
  have u: "u64_ok (supply_remaining s)" and ok: "\<forall>b \<in> set (sort_bids (w_bids w)). bid_ok b"
    using assms(2) live(3) by (simp_all add: shape_at_def window_ok_def)
  have "u64_ok (snd ba)" if ba: "ba \<in> set (zip (sort_bids (w_bids w)) allocs)" for ba
  proof -
    have "snd ba \<le> pb_qty (fst ba)"
      using match_levels_spec [OF ok u live(4)] ba by (cases ba) (auto simp: list_all2_iff)
    moreover have "u64_ok (pb_qty (fst ba))" using ok ba by (cases ba) (auto dest: set_zip_leftD simp: bid_ok_def)
    ultimately show ?thesis using u64_ok_mono by blast
  qed
  then have "booked_width (s1, e1)"
    unfolding live(6) [symmetric] using assms(1) p
    by (intro fold_width settle_width) (simp_all add: books_width_def)
  then show ?thesis using clear_width p by (simp add: live(8))
qed

section \<open>Sequence numbers\<close>

text \<open>The sequence numbers that bids and fills bear are those of commands that were applied.\<close>

definition seqs_of :: "auction_state \<Rightarrow> seq set" where
  "seqs_of s = pb_seq ` set (window_bids s) \<union> rb_seq ` set (ladder_bids (resting s)) \<union> f_seq ` set (fills s)"

definition dated :: "auction_state \<Rightarrow> bool" where
  "dated s \<longleftrightarrow> (\<forall>q \<in> seqs_of s. \<exists>l. last_seq s = Some l \<and> q \<le> l)"

lemma seqs_cong: "window s' = window s \<Longrightarrow> resting s' = resting s \<Longrightarrow> fills s' = fills s \<Longrightarrow> seqs_of s' = seqs_of s"
  by (simp add: seqs_of_def window_bids_def)

lemma seqs_accounts: "only_accounts s s' \<Longrightarrow> seqs_of s' = seqs_of s"
  by (intro seqs_cong) (simp_all add: only_accounts_def)

lemma new_fills_seqs: "f_seq ` set (new_fills p n bas) \<subseteq> pb_seq ` set (map fst bas)"
  by (induction p n bas rule: new_fills.induct) auto

lemma cleared_seqs: "f_seq ` set (cleared_fills p fs) = f_seq ` set fs"
  by (simp add: cleared_fills_def image_image)

lemma seqs_clear: "ladder_ok (resting s) \<Longrightarrow> seqs_of (fst (clear p (s, ev))) \<subseteq> seqs_of s"
  using ladder_cleared by (auto simp: seqs_of_def clear_frame cleared_seqs window_bids_def)

lemma seqs_flush:
  assumes "shape_at t s"
  shows "seqs_of (fst (flush_window (s, ev))) \<subseteq> seqs_of s"
  using assms
proof (cases rule: flush_shape_cases [where ev = ev])
  case (live w allocs rem ex s1 e1)
  have lad: "ladder_ok (resting s)" using assms by (simp add: shape_at_def ladder_shape_def)
  have "set (map fst (zip (sort_bids (w_bids w)) allocs)) \<subseteq> set (w_bids w)"
    using set_zip_leftD by fastforce
  then have "f_seq ` set (new_fills (w_price w) (next_fill_id s) (zip (sort_bids (w_bids w)) allocs)) \<subseteq> pb_seq ` set (w_bids w)"
    using new_fills_seqs by fast
  then have "seqs_of s1 \<subseteq> seqs_of s" "resting s1 = resting s"
    using live(1,7) by (auto simp: seqs_of_def settles_def window_bids_def)
  then show ?thesis using seqs_clear [of s1] lad by (auto simp: live(8))
qed simp

lemma seqs_micro:
  assumes "micro cmd s s'" and "shape s"
  shows "seqs_of s' \<subseteq> seqs_of s \<union> set_option (last_seq s)"
proof -
  have lad: "ladder_ok (resting s)" using assms(2) by (simp add: shape_at_def ladder_shape_def)
  show ?thesis using assms(1)
  proof cases
    case micro_open
    then show ?thesis by (simp add: seqs_of_def)
  next
    case (micro_limit pt lim)
    then show ?thesis by (simp add: seqs_of_def)
  next
    case (micro_reject pt key q kind r)
    then show ?thesis by (simp add: seqs_of_def)
  next
    case (micro_short pt key q kind p s1)
    then show ?thesis using reserve_claims [OF micro_short(4)] by (simp add: seqs_of_def)
  next
    case (micro_take pt key q x i p s1 sq)
    then show ?thesis
      using reserve_claims [OF micro_take(8)] by (auto simp: seqs_of_def take_bid_def)
  next
    case (micro_rest pt key q limit s1 sq)
    have "set (ladder_bids (ladder_insert (rest_bid sq pt key q limit) (resting s))) =
        insert (rest_bid sq pt key q limit) (set (ladder_bids (resting s)))"
      by (simp add: ladder.bids_put [OF lad])
    then show ?thesis
      using reserve_claims [OF micro_rest(7)] micro_rest by (auto simp: seqs_of_def rest_bid_def)
  next
    case (micro_withdraw pt key l bid)
    then show ?thesis using withdrawn_sub [OF lad micro_withdraw(3)] by (auto simp: seqs_of_def)
  next
    case (micro_trigger i p l bs)
    have "set (ladder_bids l) \<union> set bs = set (ladder_bids (resting s))"
      using arg_cong [OF ladder.fire_conserves [OF lad, of "clock_price (config s) (now s)"], of set_mset] micro_trigger(5)
      by simp
    then show ?thesis using micro_trigger(1) by (auto simp: seqs_of_def triggered_bid_def)
  next
    case (micro_flush ev ev')
    then show ?thesis using seqs_flush [OF assms(2), of ev] by auto
  next
    case (micro_clear ev ev')
    then show ?thesis using seqs_clear [OF lad, of "floor_price (config s)" ev] by auto
  next
    case (micro_cancel ev ev')
    then show ?thesis
      using cancel_accounts [OF micro_cancel(3)] ladder_cleared [OF lad]
      by (auto simp: seqs_of_def only_accounts_def window_bids_def)
  qed
qed

section \<open>Prices\<close>

definition prices_width :: "auction_state \<Rightarrow> bool" where
  "prices_width s \<longleftrightarrow> (\<forall>p. clearing_price s = Some p \<longrightarrow> i64_ok p) \<and> (\<forall>f \<in> set (fills s). i64_ok (f_price f))"

lemma prices_clear: "i64_ok p \<Longrightarrow> prices_width (fst (clear p (s, ev)))"
  by (auto simp: prices_width_def clear_frame dest: cleared_fills_price)

lemma window_width: "shape_at t s \<Longrightarrow> window s = Some w \<Longrightarrow> i64_ok (w_price w)"
  using window_price_ok [of s t] by (cases "window_bounds s t") (simp add: shape_at_def window_shape_def)

lemma prices_flush:
  assumes "prices_width s" and "shape_at t s"
  shows "prices_width (fst (flush_window (s, ev)))"
  using assms(2)
proof (cases rule: flush_shape_cases [where ev = ev])
  case (live w allocs rem ex s1 e1)
  have p: "i64_ok (w_price w)" using window_width [OF assms(2) live(1)] .
  then have "prices_width s1"
    using assms(1) live(7) by (auto simp: prices_width_def settles_def dest: new_fills_price)
  then show ?thesis using prices_clear [OF p] by (simp add: live(8))
qed (use assms(1) in simp)

lemma prices_micro:
  assumes "prices_width s" and "shape s" and "micro cmd s s'"
  shows "prices_width s'"
  using assms(3)
proof (cases rule: micro_sales_cases)
  case (flush ev)
  then show ?thesis using prices_flush [OF assms(1,2)] by simp
next
  case (clear ev)
  have "i64_ok (floor_price (config s))"
    using assms(2) by (simp add: shape_at_def config_ok_def schedule_ok_def floor_price_def)
  then show ?thesis using clear prices_clear by simp
next
  case quiet
  then show ?thesis using assms(1) by (simp add: quiet_def prices_width_def)
qed

section \<open>The ladder's total\<close>

definition lots_width :: "auction_state \<Rightarrow> bool" where
  "lots_width s \<longleftrightarrow> u64_ok (total_qty (resting s))"

lemma drained_width: "u64_ok n \<Longrightarrow> u64_ok (fold (\<lambda>b n. n - rb_qty b) bs n)"
  by (induction bs arbitrary: n) simp_all

lemma ladder_total_width:
  "u64_ok (total_qty (ladder_insert b l))"
  "u64_ok (total_qty l) \<Longrightarrow> u64_ok (total_qty (fst (drain_triggered p l)))"
  "u64_ok (total_qty (fst (drain_all l)))"
  "u64_ok (total_qty l) \<Longrightarrow> u64_ok (total_qty (fst (ladder_remove pt k l)))"
  by (auto simp: ladder_insert_def drain_triggered_def drain_all_def ladder_remove_def case_prod_beta Let_def drained_width
      split: option.splits)

lemma ladder_new_total: "total_qty ladder_new = 0"
  by (simp add: ladder_new_def)

lemma lots_clear: "lots_width (fst (clear p (s, ev)))"
  by (simp add: lots_width_def clear_frame ladder_total_width)

lemma lots_flush:
  assumes "lots_width s" and "shape_at t s"
  shows "lots_width (fst (flush_window (s, ev)))"
  using assms(2)
proof (cases rule: flush_shape_cases [where ev = ev])
  case (live w allocs rem ex s1 e1)
  then have "lots_width s1" using assms(1) by (simp add: lots_width_def settles_def)
  then show ?thesis using lots_clear by (simp add: live(8))
qed (use assms(1) in simp)

lemma lots_micro:
  assumes "lots_width s" and "shape s" and "micro cmd s s'"
  shows "lots_width s'"
  using assms(3)
proof cases
  case (micro_short pt key q kind p s1)
  then show ?thesis using assms(1) reserve_only_accounts [OF micro_short(4)] by (simp add: lots_width_def only_accounts_def)
next
  case (micro_take pt key q x i p s1 sq)
  then show ?thesis using assms(1) reserve_only_accounts [OF micro_take(8)] by (simp add: lots_width_def only_accounts_def)
next
  case (micro_withdraw pt key l b)
  then show ?thesis using assms(1) ladder_total_width(4) [of "resting s" pt key] by (simp add: lots_width_def)
next
  case (micro_trigger i p l bs)
  then show ?thesis
    using assms(1) ladder_total_width(2) [of "resting s" "clock_price (config s) (now s)"] by (simp add: lots_width_def)
next
  case (micro_flush ev ev')
  then show ?thesis using lots_flush [OF assms(1,2), of ev] by simp
next
  case (micro_clear ev ev')
  then show ?thesis using lots_clear [of "floor_price (config s)" s ev] by simp
next
  case (micro_cancel ev ev')
  then show ?thesis
    using cancel_accounts [OF micro_cancel(3)] by (simp add: lots_width_def only_accounts_def ladder_total_width)
qed (use assms(1) in \<open>simp_all add: lots_width_def ladder_total_width\<close>)

section \<open>Register and accounts are kept\<close>

lemma books_micro:
  assumes "books_width s" and "shape s" and "micro cmd s s'" and "cmd_width cmd"
  shows "books_width s'"
proof -
  have floor: "i64_ok (floor_price (config s))"
    using assms(2) by (simp add: shape_at_def config_ok_def schedule_ok_def floor_price_def)
  show ?thesis using assms(3)
  proof cases
    case micro_open
    then show ?thesis using assms(1) by simp
  next
    case (micro_limit pt lim)
    then show ?thesis
      using assms(1,4) books_width_accounts
      by (auto intro!: books_width_collateral entry_width_kept simp: coll_width_def)
  next
    case (micro_reject pt key q kind r)
    then show ?thesis using assms(1) by simp
  next
    case (micro_short pt key q kind p s1)
    then show ?thesis using reserve_width [OF micro_short(4) assms(1)] by simp
  next
    case (micro_take pt key q x i p s1 sq)
    have "books_width (push_pending i p (take_bid sq pt key q p) s1)"
      using reserve_width [OF micro_take(8) assms(1)] by (simp add: books_width_def)
    then show ?thesis using micro_take(1,2) assms(4) by simp
  next
    case (micro_rest pt key q limit s1 sq)
    then show ?thesis using reserve_width [OF micro_rest(7) assms(1)] assms(4) by simp
  next
    case (micro_withdraw pt key l bid)
    have "books_width (s\<lparr>resting := l, collateral_map := release (collateral_map s) pt (rb_limit bid) (rb_qty bid)\<rparr>)"
      using assms(1) by (simp add: books_width_def)
    then show ?thesis using micro_withdraw(1) by simp
  next
    case (micro_trigger i p l bs)
    then show ?thesis using assms(1) by (simp add: books_width_def)
  next
    case (micro_flush ev ev')
    then show ?thesis using flush_width [OF assms(1,2), of ev] by simp
  next
    case (micro_clear ev ev')
    then show ?thesis using clear_width [OF assms(1) floor, of ev] by simp
  next
    case (micro_cancel ev ev')
    define m where "m = fold turn_away_pending (window_bids s) (s\<lparr>status := status.Cancelled, window := None\<rparr>, ev)"
    have "booked_width m" unfolding m_def using assms(1) by (intro fold_width turn_away_width) (simp_all add: books_width_def)
    then have "booked_width (withdrawn_all NotLive m)"
      unfolding withdrawn_all_def by (intro fold_width turn_away_width) (simp_all add: books_width_def)
    then show ?thesis using micro_cancel(3) by (simp add: m_def)
  qed
qed

section \<open>Reachable states\<close>

definition accounted :: "auction_state \<Rightarrow> bool" where
  "accounted s \<longleftrightarrow> books_width s \<and> dated s \<and> prices_width s \<and> lots_width s"

interpretation widths: machine_invariant "\<lambda>_. True" accounted
proof
  fix c
  show "accounted (new_state c)"
    by (simp add: accounted_def books_width_def values_ok_def dated_def seqs_of_def prices_width_def new_state_def
        window_bids_def ladder.bids_empty lots_width_def ladder_new_total)
next
  fix s sq t assume a: "accounted s" "seq_accepted s sq"
  have "seqs_of (s\<lparr>last_seq := Some sq, now := t\<rparr>) = seqs_of s" by (rule seqs_cong) simp_all
  then have "dated (s\<lparr>last_seq := Some sq, now := t\<rparr>)"
    using a by (fastforce simp: accounted_def dated_def seq_accepted_def seq_next_def u64_checked_add_def split: if_splits)
  then show "accounted (s\<lparr>last_seq := Some sq, now := t\<rparr>)"
    using a(1) by (simp add: accounted_def books_width_def prices_width_def lots_width_def)
next
  fix s t ev assume a: "accounted s" "shape_at t s"
  have "dated (fst (flush_window (s, ev)))"
    using a(1) seqs_flush [OF a(2), of ev] flush_frame [OF a(2), of ev] by (auto simp: accounted_def dated_def)
  then show "accounted (fst (flush_window (s, ev)))"
    using a flush_width prices_flush lots_flush by (simp add: accounted_def)
next
  fix s cmd s' assume a: "accounted s" "shape s" "micro cmd s s'" "cmd_width cmd"
  have "dated s'"
    using a(1) seqs_micro [OF a(3,2)] micro_frame [OF a(3,2)] by (fastforce simp: accounted_def dated_def)
  then show "accounted s'" using a books_micro [OF _ a(2,3,4)] prices_micro [OF _ a(2,3)] lots_micro [OF _ a(2,3)]
    by (simp add: accounted_def)
qed

text \<open>The widths of a state, field by field.\<close>

definition fill_width :: "fill \<Rightarrow> bool" where
  "fill_width f \<longleftrightarrow> u64_ok (f_id f) \<and> u64_ok (f_seq f) \<and> u64_ok (f_qty f) \<and> i64_ok (f_price f)"

definition resting_width :: "resting_bid \<Rightarrow> bool" where
  "resting_width b \<longleftrightarrow> u64_ok (rb_seq b) \<and> u64_ok (rb_qty b) \<and> i64_ok (rb_limit b)"

definition pending_width :: "pending_bid \<Rightarrow> bool" where
  "pending_width b \<longleftrightarrow> u64_ok (pb_seq b) \<and> u64_ok (pb_qty b) \<and> i64_ok (pb_priority b) \<and> i64_ok (pb_reserve_price b) \<and>
     pred_option i64_ok (pb_resting_limit b)"

definition window_fields_width :: "open_window \<Rightarrow> bool" where
  "window_fields_width w \<longleftrightarrow> u64_ok (w_index w) \<and> i64_ok (w_price w) \<and> list_all pending_width (w_bids w)"

definition ladder_width :: "price_ladder \<Rightarrow> bool" where
  "ladder_width l \<longleftrightarrow> u64_ok (total_qty l) \<and> list_all (\<lambda>e. i64_ok (fst e) \<and> list_all resting_width (snd e)) (levels l)"

primrec schedule_kind_width :: "schedule_kind \<Rightarrow> bool" where
  "schedule_kind_width (Stepped d z) \<longleftrightarrow> u64_ok d \<and> i64_ok z"
| "schedule_kind_width (Linear r) \<longleftrightarrow> i64_ok r"

definition config_width :: "auction_config \<Rightarrow> bool" where
  "config_width c \<longleftrightarrow> u64_ok (total_supply c) \<and> i64_ok (start_price c) \<and> i64_ok (floor_price c) \<and>
     schedule_kind_width (ps_kind (schedule c)) \<and> u64_ok (batch_window c) \<and> u64_ok (price_tolerance c)"

definition state_width :: "auction_state \<Rightarrow> bool" where
  "state_width s \<longleftrightarrow> config_width (config s) \<and> u64_ok (supply_remaining s) \<and> pred_option i64_ok (clearing_price s) \<and>
     list_all fill_width (fills s) \<and> u64_ok (next_fill_id s) \<and> ladder_width (resting s) \<and>
     pred_option window_fields_width (window s) \<and> values_ok outcome_width (outcomes s) \<and>
     values_ok coll_width (collateral_map s) \<and> pred_option u64_ok (last_seq s) \<and> u64_ok (now s)"

text \<open>No level is empty and every bid is on the level of its limit, so the bids bound the levels' prices.\<close>

lemma levels_width:
  assumes "ladder_ok l" and "\<forall>b \<in> set (ladder_bids l). resting_width b"
  shows "list_all (\<lambda>e. i64_ok (fst e) \<and> list_all resting_width (snd e)) (levels l)"
  unfolding list_all_iff
proof
  fix e assume e: "e \<in> set (levels l)"
  have ne: "snd e \<noteq> []" and at: "\<forall>b \<in> set (snd e). rb_limit b = fst e"
    using assms(1) e by (auto simp: ladder_ok_def levels_ok_def)
  have w: "\<forall>b \<in> set (snd e). resting_width b" using assms(2) e by (auto simp: ladder_bids_def)
  then have "i64_ok (fst e)" using at hd_in_set [OF ne] by (auto simp: resting_width_def)
  then show "i64_ok (fst e) \<and> (\<forall>b \<in> set (snd e). resting_width b)" using w by blast
qed

lemma fill_in_total: "f \<in> set fs \<Longrightarrow> f_qty f \<le> filled_qty fs"
  by (simp add: filled_qty_def member_le_sum_list)

lemma accounted_width:
  assumes "accounted s" and "shape s" and "units_ok s" and "pred_option u64_ok (last_seq s)" and "config_width (config s)"
  shows "state_width s"
proof -
  have sq: "q \<in> seqs_of s \<Longrightarrow> u64_ok q" for q
    using assms(1,4) u64_ok_mono by (fastforce simp: accounted_def dated_def)
  have t: "filled_qty (fills s) + supply_remaining s = total_supply (config s)" "u64_ok (total_supply (config s))"
    using assms(2,3) by (simp_all add: units_defs shape_at_def config_ok_def)
  have n: "length (fills s) \<le> filled_qty (fills s)"
    using assms(3) by (intro length_le_qty) (simp add: units_defs)
  then have nxt: "u64_ok (next_fill_id s)" using t assms(3) by (simp add: units_defs u64_ok_def)
  have "f_id f < length (fills s)" if "f \<in> set (fills s)" for f
  proof -
    have "f_id f \<in> set (map f_id (fills s))" using that by simp
    moreover have "map f_id (fills s) = [0..<length (fills s)]" using assms(3) by (simp add: units_defs)
    ultimately show ?thesis by (simp del: set_map)
  qed
  then have "fill_width f" if f: "f \<in> set (fills s)" for f
    using f fill_in_total [OF f] n t sq [of "f_seq f"] assms(1)
    by (fastforce simp: fill_width_def u64_ok_def seqs_of_def accounted_def prices_width_def)
  moreover have "resting_width b" if "b \<in> set (ladder_bids (resting s))" for b
    using that assms(2) sq [of "rb_seq b"] by (auto simp: resting_width_def seqs_of_def shape_at_def ladder_shape_def resting_ok_def)
  then have "ladder_width (resting s)"
    using assms(1,2) levels_width [of "resting s"]
    by (simp add: ladder_width_def accounted_def lots_width_def shape_at_def ladder_shape_def)
  moreover have "window_fields_width w" if w: "window s = Some w" for w
  proof -
    have "(w_index w, w_price w) = window_bounds s (now s)" and b: "\<forall>b \<in> set (w_bids w). pending_ok (w_price w) b"
      using assms(2) w by (simp_all add: shape_at_def window_shape_def)
    then have "w_index w = fst (window_bounds s (now s))" by (metis fst_conv)
    then have "u64_ok (w_index w)"
      using assms(2) by (simp add: window_bounds_def Let_def shape_at_def u64_ok_mono [OF _ div_le_dividend])
    moreover have "pending_width b" if "b \<in> set (w_bids w)" for b
      using that b sq [of "pb_seq b"] w
      by (cases "pb_resting_limit b") (auto simp: pending_width_def pending_ok_def bid_ok_def seqs_of_def window_bids_def)
    ultimately show ?thesis using window_width [OF assms(2) w] by (simp add: window_fields_width_def list_all_iff)
  qed
  moreover have "pred_option i64_ok (clearing_price s)"
    using assms(1) by (cases "clearing_price s") (auto simp: accounted_def prices_width_def)
  ultimately show ?thesis
    using assms nxt by (auto simp: state_width_def list_all_iff shape_at_def accounted_def books_width_def pred_option_def)
qed

lemma run_last_seq: "run log s = Some (s', ev) \<Longrightarrow> pred_option u64_ok (last_seq s) \<Longrightarrow>
    list_all (u64_ok \<circ> fst) log \<Longrightarrow> log_width log \<Longrightarrow> shape s \<Longrightarrow> pred_option u64_ok (last_seq s')"
proof (induction log s arbitrary: s' ev rule: run.induct)
  case (2 sq ts cmd log s)
  obtain s1 e1 e2 where a: "apply_cmd sq ts cmd s = Some (s1, e1)" and r: "run log s1 = Some (s', e2)"
    using "2.prems"(1) by (auto split: option.splits)
  have "shape s1 \<and> last_seq s1 = Some sq" using shape_apply [OF a "2.prems"(5)] "2.prems"(4) by auto
  then show ?case using "2.IH" [OF a refl r] "2.prems" by simp
qed simp

end
