(* ===== verification/Projection.thy ===== *)
theory Projection
  imports Runs
begin

text \<open>
  Event sourcing: what a reader of the event stream knows. \<open>event.rs\<close> documents what every event says; \<open>hear\<close>
  takes each at its word and keeps a book of the public part of the auction: status, supply left, clearing price,
  fills, and the last thing said about each idempotency key. The lemmas below show that the events every operation
  of the state machine emits tell all it does to that book, so a read model (the planned projector, or a client that starts
  from a snapshot) never has to look into the engine.
\<close>

section \<open>The book\<close>

record book =
  bk_status :: status
  bk_supply :: qty
  bk_clearing :: "price option"
  bk_fills :: "fill list"
  bk_outcomes :: "idempotency_key \<rightharpoonup> outcome"

definition book_of :: "auction_state \<Rightarrow> book" where
  "book_of s = \<lparr>bk_status = status s, bk_supply = supply_remaining s, bk_clearing = clearing_price s,
     bk_fills = fills s, bk_outcomes = outcomes s\<rparr>"

definition say :: "idempotency_key \<Rightarrow> outcome \<Rightarrow> book \<Rightarrow> book" where
  "say k x b = b\<lparr>bk_outcomes := (bk_outcomes b)(k \<mapsto> x)\<rparr>"

definition move_fill :: "u64 \<Rightarrow> price \<Rightarrow> fill list \<Rightarrow> fill list" where
  "move_fill i p fs = map (\<lambda>f. if f_id f = i then f\<lparr>f_price := p\<rparr> else f) fs"

text \<open>An unknown bid is refused without an outcome, and a duplicate only repeats one.\<close>

fun hear :: "event \<Rightarrow> book \<Rightarrow> book" where
  "hear (Opened p q) b = b\<lparr>bk_status := Live\<rparr>"
| "hear (CollateralSet pt lim) b = b"
| "hear (event.Queued k pt q p) b = say k (outcome.Queued q) b"
| "hear (Rested k pt q l) b = say k (outcome.Resting q) b"
| "hear (RestingCancelled k pt q) b = say k outcome.Cancelled b"
| "hear (event.Filled f) b = say (f_key f) (outcome.Filled (f_qty f) (f_price f))
     (b\<lparr>bk_supply := bk_supply b - f_qty f, bk_fills := bk_fills b @ [f]\<rparr>)"
| "hear (event.Rejected k r) b = (if r = UnknownBid then b else say k (outcome.Rejected r) b)"
| "hear (Duplicate k x) b = b"
| "hear (Repriced i from p) b =
     (case find (\<lambda>f. f_id f = i) (bk_fills b) of
        None \<Rightarrow> b
      | Some f \<Rightarrow> say (f_key f) (outcome.Filled (f_qty f) p) (b\<lparr>bk_fills := move_fill i p (bk_fills b)\<rparr>))"
| "hear (event.Cleared p sold left) b = b\<lparr>bk_status := status.Cleared, bk_clearing := Some p\<rparr>"
| "hear event.Cancelled b = b\<lparr>bk_status := status.Cancelled\<rparr>"

section \<open>Telling\<close>

text \<open>The events that \<open>ev'\<close> has beyond \<open>ev\<close> lead from the book \<open>b\<close> to the book \<open>b'\<close>.\<close>

definition leads :: "event list \<Rightarrow> event list \<Rightarrow> book \<Rightarrow> book \<Rightarrow> bool" where
  "leads ev ev' b b' \<longleftrightarrow> (\<exists>es. ev' = ev @ es \<and> fold hear es b = b')"

definition tells :: "machine \<Rightarrow> machine \<Rightarrow> bool" where
  "tells m m' \<longleftrightarrow> leads (snd m) (snd m') (book_of (fst m)) (book_of (fst m'))"

lemma leads_refl [simp]: "leads ev ev b b' \<longleftrightarrow> b' = b"
  by (auto simp: leads_def)

lemma leads_one [simp]: "leads ev (ev @ [e]) b b' \<longleftrightarrow> b' = hear e b"
  by (auto simp: leads_def)

lemma leads_trans: "leads e1 e2 b1 b2 \<Longrightarrow> leads e2 e3 b2 b3 \<Longrightarrow> leads e1 e3 b1 b3"
  by (auto simp: leads_def)

lemma tells_refl [simp]: "tells m m"
  by (simp add: tells_def)

lemma tells_trans: "tells m1 m2 \<Longrightarrow> tells m2 m3 \<Longrightarrow> tells m1 m3"
  unfolding tells_def by (rule leads_trans)

section \<open>The loops\<close>

abbreviation with_outcomes :: "(idempotency_key \<rightharpoonup> outcome) \<Rightarrow> book \<Rightarrow> book" where
  "with_outcomes x b \<equiv> b\<lparr>bk_outcomes := x\<rparr>"

lemma leads_turn_away_pending:
  "registered (register_of m) (pending_entries bs + E) \<Longrightarrow>
     leads (snd m) (snd (fold turn_away_pending bs m)) (with_outcomes (register_of m) b)
       (with_outcomes (register_of (fold turn_away_pending bs m)) b)"
proof (induction bs arbitrary: m)
  case (Cons x bs)
  have pre: "registered (register_of m) (add_mset (pb_key x, snd (pending_entry x)) (pending_entries bs + E))"
    using Cons.prems by (simp add: pending_entry_def [of x])
  have r: "register_of (turn_away_pending x m) = (register_of m)(pb_key x \<mapsto> outcome.Rejected NotLive)"
    using registered_fresh_key [OF pre] by (simp add: turn_away_register merge_pending)
  have "leads (snd m) (snd (turn_away_pending x m)) (with_outcomes (register_of m) b)
      (with_outcomes (register_of (turn_away_pending x m)) b)"
    unfolding r by (cases m) (simp add: say_def)
  moreover have "registered (register_of (turn_away_pending x m)) (pending_entries bs + E)"
    unfolding r using registered_close [OF pre] by simp
  ultimately show ?case using leads_trans Cons.IH by fastforce
qed simp

lemma leads_turn_away_resting:
  "registered (register_of m) (resting_entries bs + E) \<Longrightarrow> r \<noteq> UnknownBid \<Longrightarrow>
     leads (snd m) (snd (fold (turn_away_resting r) bs m)) (with_outcomes (register_of m) b)
       (with_outcomes (register_of (fold (turn_away_resting r) bs m)) b)"
proof (induction bs arbitrary: m)
  case (Cons x bs)
  have pre: "registered (register_of m) (add_mset (rb_key x, outcome.Resting (rb_qty x)) (resting_entries bs + E))"
    using Cons.prems by (simp add: resting_entry_def [of x])
  have r: "register_of (turn_away_resting r x m) = (register_of m)(rb_key x \<mapsto> outcome.Rejected r)"
    using registered_fresh_key [OF pre] by (simp add: turn_away_register)
  have "leads (snd m) (snd (turn_away_resting r x m)) (with_outcomes (register_of m) b)
      (with_outcomes (register_of (turn_away_resting r x m)) b)"
    unfolding r using Cons.prems(2) by (cases m) (simp add: say_def)
  moreover have "registered (register_of (turn_away_resting r x m)) (resting_entries bs + E)"
    unfolding r using registered_close [OF pre] by simp
  ultimately show ?case using leads_trans Cons.IH Cons.prems(2) by fastforce
qed simp

text \<open>Settlement: the supply the reader counts down is the sum of the shares, whatever the state holds already.\<close>

lemma leads_settle:
  assumes "registered (register_of m) (pending_entries (map fst bas) + E)"
  shows "leads (snd m) (snd (fold (settle_plain p) bas m))
    (b\<lparr>bk_supply := x + sum_list (map snd bas), bk_fills := fills (fst m), bk_outcomes := register_of m\<rparr>)
    (b\<lparr>bk_supply := x, bk_fills := fills (fst (fold (settle_plain p) bas m)),
       bk_outcomes := register_of (fold (settle_plain p) bas m)\<rparr>)"
  using assms
proof (induction bas arbitrary: m E)
  case (Cons ba bas)
  obtain c a where ba: "ba = (c, a)" by (cases ba)
  let ?D = "pending_entries (map fst bas) + E" and ?m = "settle_plain p ba m"
  let ?out = "if a = 0 then outcome.Rejected SupplyExhausted else outcome.Filled a p"
  have pre: "registered (register_of m) (add_mset (pb_key c, snd (pending_entry c)) ?D)"
    using Cons.prems by (simp add: ba pending_entry_def [of c])
  have r: "register_of ?m = (register_of m)(pb_key c \<mapsto> ?out)"
    using registered_fresh_key [OF pre] by (simp add: ba settle_register merge_pending)
  have "leads (snd m) (snd ?m)
      (b\<lparr>bk_supply := x + sum_list (map snd (ba # bas)), bk_fills := fills (fst m), bk_outcomes := register_of m\<rparr>)
      (b\<lparr>bk_supply := x + sum_list (map snd bas), bk_fills := fills (fst ?m), bk_outcomes := register_of ?m\<rparr>)"
    unfolding r by (cases m) (simp add: ba Let_def say_def set_outcome_def add.assoc)
  moreover have "\<exists>F. registered (register_of ?m) (pending_entries (map fst bas) + F)"
  proof (cases "a = 0")
    case True
    then show ?thesis using registered_close [OF pre, of ?out] by (auto simp: r)
  next
    case False
    then have "registered (register_of ?m) (pending_entries (map fst bas) + add_mset (pb_key c, ?out) E)"
      using registered_update [OF pre, of ?out] by (simp add: r)
    then show ?thesis by blast
  qed
  ultimately show ?case using leads_trans Cons.IH by fastforce
qed simp

text \<open>Repricing: a fill that is already at the clearing price is not mentioned, and needs no mention.\<close>

lemma move_fill_once:
  assumes "distinct (map f_id (fs @ f # gs))"
  shows "find (\<lambda>x. f_id x = f_id f) (fs @ f # gs) = Some f"
    and "move_fill (f_id f) p (fs @ f # gs) = fs @ f\<lparr>f_price := p\<rparr> # gs"
proof -
  have other: "\<forall>x \<in> set fs. f_id x \<noteq> f_id f" "\<forall>x \<in> set gs. f_id x \<noteq> f_id f"
    using assms by (auto simp: image_iff)
  then show "find (\<lambda>x. f_id x = f_id f) (fs @ f # gs) = Some f" by (induction fs) auto
  show "move_fill (f_id f) p (fs @ f # gs) = fs @ f\<lparr>f_price := p\<rparr> # gs"
    using other by (simp add: move_fill_def map_idI)
qed

lemma leads_reprice_fill:
  assumes "register_of m (f_key f) = Some (outcome.Filled (f_qty f) (f_price f))" and "distinct (map f_id (fs @ f # gs))"
  shows "leads (snd m) (snd (snd (reprice_fill p f m)))
    (b\<lparr>bk_fills := fs @ f # gs, bk_outcomes := register_of m\<rparr>)
    (b\<lparr>bk_fills := fs @ f\<lparr>f_price := p\<rparr> # gs, bk_outcomes := register_of (snd (reprice_fill p f m))\<rparr>)"
proof -
  have r: "register_of (snd (reprice_fill p f m)) = (register_of m)(f_key f \<mapsto> outcome.Filled (f_qty f) p)"
    by (simp add: reprice_register assms(1) quote_at_def)
  show ?thesis
  proof (cases "f_price f = p")
    case True
    then have "(register_of m)(f_key f \<mapsto> outcome.Filled (f_qty f) p) = register_of m" using assms(1) by auto
    moreover have "snd (snd (reprice_fill p f m)) = snd m" using True by (cases m) (simp add: Let_def)
    moreover have "f\<lparr>f_price := p\<rparr> = f" using True by (cases f) simp
    ultimately show ?thesis by (simp add: r)
  next
    case False
    then have "snd (snd (reprice_fill p f m)) = snd m @ [Repriced (f_id f) (f_price f) p]" by (cases m) (simp add: Let_def)
    then show ?thesis by (simp add: r move_fill_once [OF assms(2)] say_def)
  qed
qed

lemma leads_reprice:
  assumes "registered (register_of m) (fill_entries fs + E)" and "distinct (map f_id (gs @ fs))"
  shows "leads (snd m) (snd (snd (reprice_fills p fs m)))
    (b\<lparr>bk_fills := gs @ fs, bk_outcomes := register_of m\<rparr>)
    (b\<lparr>bk_fills := gs @ cleared_fills p fs, bk_outcomes := register_of (snd (reprice_fills p fs m))\<rparr>)"
  using assms
proof (induction fs arbitrary: m E gs)
  case Nil
  show ?case by (simp add: cleared_fills_def)
next
  case (Cons f fs)
  let ?m = "snd (reprice_fill p f m)" and ?E = "add_mset (f_key f, outcome.Filled (f_qty f) p) E"
  have pre: "registered (register_of m) (add_mset (f_key f, outcome.Filled (f_qty f) (f_price f)) (fill_entries fs + E))"
    using Cons.prems(1) by (simp add: fill_entry_def [of f])
  have k: "register_of m (f_key f) = Some (outcome.Filled (f_qty f) (f_price f))" using registered_fresh_key [OF pre] by simp
  have "registered (register_of ?m) (fill_entries fs + ?E)"
    using registered_update [OF pre, of "outcome.Filled (f_qty f) p"] by (simp add: reprice_register k quote_at_def)
  from Cons.IH [OF this, of "gs @ [f\<lparr>f_price := p\<rparr>]"] Cons.prems(2)
  have "leads (snd ?m) (snd (snd (reprice_fills p fs ?m)))
    (b\<lparr>bk_fills := gs @ f\<lparr>f_price := p\<rparr> # fs, bk_outcomes := register_of ?m\<rparr>)
    (b\<lparr>bk_fills := gs @ cleared_fills p (f # fs), bk_outcomes := register_of (snd (reprice_fills p fs ?m))\<rparr>)"
    by (simp add: cleared_fills_def)
  with leads_reprice_fill [OF k Cons.prems(2)] show ?case
    unfolding reprice_fills_Cons snd_conv by (rule leads_trans)
qed

section \<open>The operations\<close>

lemma leads_clear:
  assumes "booked s" and "window s = None" and "ladder_ok (resting s)" and "distinct (map f_id (fills s))"
  shows "tells (s, ev) (clear p (s, ev))"
proof -
  let ?s0 = "s\<lparr>status := status.Cleared, clearing_price := Some p\<rparr>" and ?R = "ladder_bids (resting s)"
  obtain fs s1 e1 where r: "reprice_fills p (fills s) (?s0, ev) = (fs, (s1, e1))" by (metis prod_cases3)
  define m2 where "m2 = (s1\<lparr>fills := fs, resting := fst (drain_all (resting s))\<rparr>, e1)"
  define m3 where "m3 = fold (turn_away_resting Unfilled) ?R m2"
  have fs: "fs = cleared_fills p (fills s)" and a: "only_accounts ?s0 s1"
    using reprice_fills_value [of p "fills s" "(?s0, ev)"] reprice_fills_accounts [of "(?s0, ev)" p "fills s"] r
    by (simp_all add: cleared_fills_def)
  have reg: "registered (register_of (?s0, ev)) (fill_entries (fills s) + resting_entries ?R)"
    using assms(1,2) by (simp add: booked_def entries_def window_bids_def register_of_def)
  have 1: "leads ev e1 (book_of s)
      (book_of s\<lparr>bk_fills := fs, bk_outcomes := outcomes s1\<rparr>)"
    using leads_reprice [OF reg, of "[]" p "book_of s"] assms(4) r by (simp add: fs register_of_def book_of_def)
  have "registered (register_of m2) (resting_entries ?R + fill_entries fs)"
    using registered_reprice [OF reg, of p] r by (simp add: m2_def register_of_def fs add.commute)
  from leads_turn_away_resting [OF this, of Unfilled "book_of s\<lparr>bk_fills := fs\<rparr>"]
  have 2: "leads e1 (snd m3) (book_of s\<lparr>bk_fills := fs, bk_outcomes := outcomes s1\<rparr>)
      (book_of s\<lparr>bk_fills := fs, bk_outcomes := outcomes (fst m3)\<rparr>)"
    by (simp add: m3_def m2_def register_of_def)
  have m: "clear p (s, ev) = (fst m3, snd m3 @ [event.Cleared p (total_filled (fst m3)) (supply_remaining (fst m3))])"
    using r a ladder.fired_all [OF assms(3)]
    by (simp add: clear.simps Let_def m3_def m2_def only_accounts_def case_prod_beta)
  have 3: "book_of (fst m3) = book_of s\<lparr>bk_status := status.Cleared, bk_clearing := Some p,
      bk_fills := fs, bk_outcomes := outcomes (fst m3)\<rparr>"
    using clear_frame [of p s ev] m by (simp add: book_of_def fs)
  have "leads (snd m3) (snd (clear p (s, ev))) (book_of s\<lparr>bk_fills := fs, bk_outcomes := outcomes (fst m3)\<rparr>)
      (book_of (fst (clear p (s, ev))))"
    by (simp add: m 3)
  from leads_trans [OF leads_trans [OF 1 2] this] show ?thesis by (simp add: tells_def)
qed

lemma leads_flush:
  assumes "booked s" and "units_ok s" and "shape_at t s"
  shows "tells (s, ev) (flush_window (s, ev))"
  using assms(3)
proof (cases rule: flush_shape_cases [where ev = ev])
  case none
  then show ?thesis by simp
next
  case (live w allocs rem ex s1 e1)
  let ?p = "w_price w" and ?bids = "sort_bids (w_bids w)" and ?s0 = "s\<lparr>window := None, supply_remaining := rem\<rparr>"
  let ?bas = "zip ?bids allocs" and ?R = "resting_entries (ladder_bids (resting s))"
  have lad: "ladder_ok (resting s)" and u: "u64_ok (supply_remaining s)"
    using assms(3) by (simp_all add: shape_at_def ladder_shape_def)
  have fr: "fills s1 = fills s @ new_fills ?p (next_fill_id s) ?bas" "window s1 = None" "resting s1 = resting s"
    using live(7) by (simp_all add: settles_def)
  have "\<forall>b \<in> set ?bids. bid_ok b" using live(3) by (simp add: window_ok_def)
  from match_levels_spec [OF this u live(4)] have "length ?bids = length allocs" by (blast dest: list_all2_lengthD)
  then have "pending_entries (map fst ?bas) = pending_entries (window_bids s)"
    by (simp add: pending_entries_mset [of ?bids "w_bids w"] window_bids_def live(1))
  then have reg: "registered (register_of (?s0, ev)) (pending_entries (map fst ?bas) + (fill_entries (fills s) + ?R))"
    using assms(1) by (simp add: booked_def entries_def register_of_def ac_simps)
  have b1: "booked s1"
    using registered_settle [OF reg, of ?p "next_fill_id s"] live(6) fr
    by (simp add: booked_def register_of_def entries_def window_bids_def ac_simps)
  have "supply_remaining s = rem + sum_list (map snd ?bas)" using match_supply [OF live(3) u live(4)] by simp
  then have t1: "tells (s, ev) (s1, e1)"
    using leads_settle [OF reg, where p = ?p and b = "book_of s" and x = rem] live(6,7)
    by (simp add: tells_def book_of_def register_of_def settles_def)
  show ?thesis
  proof (cases ex)
    case True
    have "units_ok (fst (clear ?p (s1, e1)))" using units_flush [OF assms(2,3), of ev] True live(8) by simp
    then have "distinct (map f_id (fills s1))"
      by (simp add: units_defs clear_frame cleared_fills_def comp_def)
    with leads_clear [OF b1 fr(2)] lad fr(3) show ?thesis using tells_trans [OF t1] True live(8) by simp
  qed (use t1 live(8) in simp)
qed

text \<open>What the operations rely on, and keep.\<close>

definition sound :: "auction_state \<Rightarrow> bool" where
  "sound s \<longleftrightarrow> booked s \<and> units_ok s \<and> shape s"

lemma sound_micro: "sound s \<Longrightarrow> micro cmd s s' \<Longrightarrow> cmd_width cmd \<Longrightarrow> sound s'"
  using booked_micro [of s cmd s'] shape_micro [of cmd s s'] units.inv_micro [of s cmd s'] by (simp add: sound_def)

lemma sound_flush: "sound s \<Longrightarrow> tells (s, ev) (flush_window (s, ev)) \<and> sound (fst (flush_window (s, ev)))"
  using leads_flush shape_flush booked_flush units_flush flush_frame by (auto simp: sound_def)

lemma leads_reject: "outcomes s key = None \<Longrightarrow> r \<noteq> UnknownBid \<Longrightarrow> tells (s, ev) (reject key r (s, ev))"
  by (simp add: tells_def book_of_def say_def outcomes_set)

lemma reserve_book: "reserve pt p q s = (s', ok) \<Longrightarrow> book_of s' = book_of s \<and> outcomes s' = outcomes s"
  using reserve_only_accounts [of pt p q s s' ok] by (simp add: book_of_def only_accounts_def)

lemma leads_short:
  "reserve pt p q s = (s', ok) \<Longrightarrow> outcomes s key = None \<Longrightarrow> tells (s, ev) (reject key InsufficientCollateral (s', ev))"
  using reserve_book [of pt p q s s' ok] by (simp add: tells_def book_of_def say_def outcomes_set)

lemma leads_take:
  assumes "sound s" and "outcomes s key = None" and "q \<noteq> 0" and "u64_ok q" and "i64_ok x"
    and "accepts_bids (status s)" and "last_seq s = Some sq"
  shows "tells (s, ev) (on_take sq (now s) pt key q (clock_price (config s) (now s)) x (s, ev))"
proof (cases "price_abs_diff (clock_price (config s) (now s)) x > price_tolerance (config s)")
  case True
  then show ?thesis using leads_reject [OF assms(2)] by (simp del: reject.simps)
next
  case False
  obtain i p where wb: "window_bounds s (now s) = (i, p)" by fastforce
  obtain s1 ok where r: "reserve pt p q s = (s1, ok)" by fastforce
  note bk = reserve_book [OF r]
  show ?thesis
  proof (cases ok)
    case ok: False
    show ?thesis using leads_short [OF r assms(2)] r ok wb False by (simp del: reject.simps)
  next
    case True
    let ?s2 = "set_outcome key (outcome.Queued q) (push_pending i p (take_bid sq pt key q p) s1)"
    let ?ev = "ev @ [event.Queued key pt q p]"
    have "tells (s, ev) (?s2, ?ev)"
      using bk assms(2) by (simp add: tells_def book_of_def say_def outcomes_set)
    moreover have "micro (SubmitBid pt key q (Take x)) s ?s2"
      using micro_take [OF refl assms(2,3,6) _ wb _ assms(7), of x] r True False by simp
    then have "sound ?s2" using sound_micro [OF assms(1)] assms(4,5) by simp
    ultimately have "tells (s, ev) (flush_window (?s2, ?ev))" using sound_flush tells_trans by blast
    with \<open>tells (s, ev) (?s2, ?ev)\<close> show ?thesis
      using r True False wb by (simp add: take_bid_def [symmetric] Let_def)
  qed
qed

lemma leads_rest:
  assumes "outcomes s key = None"
  shows "tells (s, ev) (on_rest sq pt key q clock limit (s, ev))"
proof (cases "limit > clock")
  case True
  then show ?thesis using leads_reject [OF assms] by (simp del: reject.simps)
next
  case False
  obtain s1 ok where r: "reserve pt limit q s = (s1, ok)" by fastforce
  note bk = reserve_book [OF r]
  show ?thesis
  proof (cases ok)
    case ok: False
    show ?thesis using leads_short [OF r assms] r ok False by (simp del: reject.simps)
  qed (use r False bk assms in \<open>simp add: tells_def book_of_def say_def outcomes_set\<close>)
qed

lemma leads_bid:
  assumes "sound s" and "cmd_width (SubmitBid pt key q kind)" and "last_seq s = Some sq"
  shows "tells (s, ev) (on_bid sq (now s) pt key q kind (s, ev))"
proof (cases "outcomes s key")
  case None
  consider "q = 0" | "\<not> accepts_bids (status s)" | "q \<noteq> 0" "accepts_bids (status s)" by blast
  then show ?thesis
  proof cases
    case 3
    then show ?thesis
      using None leads_take [OF assms(1) None _ _ _ _ assms(3), of q _ ev pt] leads_rest [OF None] assms(2)
      by (cases kind) (simp_all add: qty_is_zero_def del: on_take.simps on_rest.simps)
  qed (use None leads_reject [OF None] in \<open>simp_all add: qty_is_zero_def del: reject.simps\<close>)
qed (simp add: tells_def)

lemma leads_cancel_resting:
  assumes "sound s"
  shows "tells (s, ev) (on_cancel_resting pt key (s, ev))"
proof -
  have lad: "ladder_ok (resting s)" using assms by (simp add: sound_def shape_at_def ladder_shape_def)
  obtain l found where l: "ladder_remove pt key (resting s) = (l, found)" by fastforce
  show ?thesis
  proof (cases found)
    case None
    then show ?thesis using l by (cases "outcomes s key") (simp_all add: tells_def book_of_def Let_def)
  next
    case (Some bid)
    have "rb_key bid = key" and "mset (ladder_bids (resting s)) = add_mset bid (mset (ladder_bids l))"
      using ladder.withdraw_Some [OF lad, of pt key bid] ladder.withdraw_conserves [OF lad, of pt key bid] l Some by simp_all
    then have "entries s = add_mset (key, outcome.Resting (rb_qty bid)) (entries (s\<lparr>resting := l\<rparr>))"
      by (simp add: entries_def resting_entry_def [of bid] window_bids_def)
    then have "outcomes s key = Some (outcome.Resting (rb_qty bid))"
      using registered_fresh_key assms by (fastforce simp: sound_def booked_def)
    then show ?thesis using l Some by (simp add: tells_def book_of_def say_def outcomes_set)
  qed
qed

lemma leads_cancel:
  assumes "sound s"
  shows "tells (s, ev) (on_cancel (s, ev))"
proof (cases "is_terminal (status s)")
  case False
  let ?s = "s\<lparr>status := status.Cancelled, window := None\<rparr>" and ?R = "ladder_bids (resting s)"
  define m where "m = fold turn_away_pending (window_bids s) (?s, ev)"
  define m2 where "m2 = ((fst m)\<lparr>resting := fst (drain_all (resting s))\<rparr>, snd m)"
  define m3 where "m3 = fold (turn_away_resting NotLive) ?R m2"
  have lad: "ladder_ok (resting s)" using assms by (simp add: sound_def shape_at_def ladder_shape_def)
  have a: "only_accounts ?s (fst m)" using turn_away_pendings by (simp add: m_def)
  have a3: "only_accounts (fst m2) (fst m3)" using turn_away_restings [of "fst m2" NotLive ?R "snd m2"] by (simp add: m3_def)
  have reg: "registered (register_of (?s, ev)) (pending_entries (window_bids s) + (resting_entries ?R + fill_entries (fills s)))"
    using assms by (simp add: sound_def booked_def entries_def register_of_def ac_simps)
  have 1: "leads ev (snd m) (book_of s) (book_of s\<lparr>bk_outcomes := register_of m\<rparr>)"
    using leads_turn_away_pending [OF reg, of "book_of s"] by (simp add: m_def register_of_def book_of_def)
  have "registered (register_of m2) (resting_entries ?R + fill_entries (fills s))"
    using registered_turn_away_pending [OF reg] by (simp add: m2_def m_def register_of_def)
  from leads_turn_away_resting [OF this, of NotLive "book_of s"]
  have 2: "leads (snd m) (snd m3) (book_of s\<lparr>bk_outcomes := register_of m\<rparr>) (book_of s\<lparr>bk_outcomes := register_of m3\<rparr>)"
    by (simp add: m3_def m2_def register_of_def)
  have "(case window s of None \<Rightarrow> (s\<lparr>status := status.Cancelled\<rparr>, ev)
      | Some w \<Rightarrow> fold turn_away_pending (w_bids w) (s\<lparr>status := status.Cancelled, window := None\<rparr>, ev)) = m"
    by (cases "window s") (simp_all add: m_def window_bids_def)
  then have e: "on_cancel (s, ev) = (fst m3, snd m3 @ [event.Cancelled])"
    using False a ladder.fired_all [OF lad] by (simp add: only_accounts_def m3_def m2_def case_prod_beta Let_def)
  have "leads (snd m3) (snd (on_cancel (s, ev))) (book_of s\<lparr>bk_outcomes := register_of m3\<rparr>) (book_of (fst (on_cancel (s, ev))))"
    unfolding e using a a3 by (simp add: book_of_def register_of_def only_accounts_def m2_def)
  from leads_trans [OF leads_trans [OF 1 2] this] show ?thesis by (simp add: tells_def)
qed simp

lemma leads_tick:
  assumes "sound s"
  shows "tells (s, ev) (on_tick (now s) (s, ev))"
proof (cases "accepts_bids (status s)")
  case True
  obtain i p where wb: "window_bounds s (now s) = (i, p)" by fastforce
  obtain l bs where l: "drain_triggered (clock_price (config s) (now s)) (resting s) = (l, bs)" by fastforce
  define s1 where "s1 = fold (trigger i p) bs (s\<lparr>resting := l\<rparr>)"
  define m2 where "m2 = (if batch_window (config s) = 0 then flush_window (s1, ev) else (s1, ev))"
  let ?m3 = "flush_window m2"
  have s1: "sound s1" using sound_micro [OF assms micro_trigger [OF refl True wb l]] by (simp add: s1_def)
  have t1: "tells (s, ev) (s1, ev)" by (simp add: tells_def book_of_def s1_def)
  have 2: "tells (s, ev) m2 \<and> sound (fst m2)" using t1 s1 sound_flush [OF s1, of ev] tells_trans by (auto simp: m2_def)
  have 3: "tells (s, ev) ?m3 \<and> sound (fst ?m3) \<and> window (fst ?m3) = None"
    using 2 sound_flush [of "fst m2" "snd m2"] shape_flush [of "now (fst m2)" "fst m2" "snd m2"] tells_trans [of "(s, ev)" m2 ?m3]
    by (auto simp: sound_def)
  have "tells ?m3 (clear q ?m3)" for q
    using leads_clear [of "fst ?m3" "snd ?m3" q] 3 by (simp add: sound_def shape_at_def ladder_shape_def units_defs)
  then have 4: "tells (s, ev) (clear q ?m3)" for q using 3 tells_trans by blast
  show ?thesis
    using True 2 3 4 unfolding on_tick.simps Let_def wb l prod.case s1_def [symmetric]
    unfolding case_prod_beta m2_def [symmetric] prod.collapse by (simp add: m2_def [symmetric] s1_def)
qed simp

lemma leads_dispatch:
  assumes "sound s" and "cmd_width cmd" and "last_seq s = Some sq"
  shows "tells (s, ev) (dispatch sq (now s) cmd (s, ev))"
proof (cases cmd)
  case Open
  then show ?thesis by (simp add: tells_def book_of_def)
next
  case (SetCollateral pt lim)
  then show ?thesis by (simp add: tells_def book_of_def)
qed (use assms leads_bid leads_cancel_resting leads_tick leads_cancel in
    \<open>simp_all del: on_bid.simps on_cancel_resting.simps on_tick.simps on_cancel.simps\<close>)

section \<open>Logs\<close>

lemma sound_advanced:
  assumes "sound s" and "u64_ok ts" and "seq_accepted s sq"
  shows "tells (s, []) (advanced sq ts s) \<and> sound (fst (advanced sq ts s))"
proof
  have st: "booked (stamped sq ts s)" "units_ok (stamped sq ts s)" "shape_at (now s) (stamped sq ts s)"
    using assms(1,3) booking.inv_stamp units.inv_stamp shape_stamped by (simp_all add: sound_def stamped_def)
  have "tells (s, []) (stamped sq ts s, [])" by (simp add: tells_def book_of_def stamped_def)
  then show "tells (s, []) (advanced sq ts s)"
    using leads_flush [OF st, of "[]"] tells_trans by (auto simp: advanced_def split: option.splits)
  show "sound (fst (advanced sq ts s))"
    using assms shape_advanced booking.inv_advanced units.inv_advanced unfolding sound_def by blast
qed

lemma leads_apply:
  assumes "apply_cmd sq ts cmd s = Some (s', ev)" and "sound s" and "u64_ok ts" and "cmd_width cmd"
  shows "tells (s, []) (s', ev) \<and> sound s'"
proof -
  obtain s1 e1 where a: "advanced sq ts s = (s1, e1)" by fastforce
  have sq: "seq_accepted s sq" and m: "(s', ev) = dispatch sq (max ts (now s)) cmd (s1, e1)"
    using assms(1) a by (simp_all add: apply_cmd_Some)
  have adv: "tells (s, []) (s1, e1)" "sound s1" using sound_advanced [OF assms(2,3) sq] a by simp_all
  have "now s1 = max ts (now s)" "last_seq s1 = Some sq" using shape_advanced [of s ts sq] assms(2,3) a by (simp_all add: sound_def)
  then have "tells (s1, e1) (s', ev)" using leads_dispatch [OF adv(2) assms(4), of sq e1] m by simp
  moreover have "sound s'"
    using booking.inv_apply [OF assms(1)] units.inv_apply [OF assms(1)] shape_apply [OF assms(1)] assms(2-4)
    unfolding sound_def by blast
  ultimately show ?thesis using tells_trans [OF adv(1)] by simp
qed

lemma leads_run:
  "run log s = Some (s', ev) \<Longrightarrow> sound s \<Longrightarrow> log_width log \<Longrightarrow> fold hear ev (book_of s) = book_of s' \<and> sound s'"
proof (induction log arbitrary: s ev)
  case (Cons e log)
  obtain sq ts cmd where e: "e = (sq, ts, cmd)" by (cases e)
  obtain s1 e1 e2 where a: "apply_cmd sq ts cmd s = Some (s1, e1)" and r: "run log s1 = Some (s', e2)" and ev: "ev = e1 @ e2"
    using Cons.prems(1) by (auto simp: e split: option.splits)
  have "fold hear e1 (book_of s) = book_of s1" and "sound s1"
    using leads_apply [OF a Cons.prems(2)] Cons.prems(3) by (simp_all add: e tells_def leads_def)
  then show ?case using Cons.IH [OF r] Cons.prems(3) by (simp add: ev)
qed simp

lemma sound_new: "config_ok c \<Longrightarrow> sound (new_state c)"
  by (simp add: sound_def booking.inv_start units.inv_start shape_new)

end
