(* ===== verification/Wal_Files.thy ===== *)
theory Wal_Files
  imports Wal_Replay
begin

text \<open>
  The log as it lies in its directory, among snapshots and whatever else is there: \<open>Wal::open\<close>
  and \<open>read_all\<close> of \<open>crates/auction-wal/src/wal.rs\<close> with the listing by \<open>segments\<close>, which only finds names of
  the form \<open>wal-\<close>, eight characters, \<open>.log\<close>.

  \<open>Wal_Log\<close> and the theories above it work on the list of segment files in index order, \<open>log_dir\<close>. Here that list
  is shown to be an abstraction of the directory (\<open>log_dir_of\<close>): opening a directory does to its segments exactly what
  opening the list does, errors included, and touches no other file. So what a log reads back from its list it
  reads back from the directory, while the segment numbers have eight digits.
\<close>

section \<open>Reading and opening a directory\<close>

definition manifest_name :: string where
  "manifest_name = ''manifest.json''"

definition log_dir_of :: "directory \<Rightarrow> log_dir" where
  "log_dir_of dir = \<lparr>manifest = map_of dir manifest_name, files = segments dir\<rparr>"

definition read_all_dir :: "decoder \<Rightarrow> checksum \<Rightarrow> directory \<Rightarrow> wal_error + log_record list" where
  "read_all_dir dec crc dir = read_all dec crc (segments dir)"

definition last_seq_in_dir :: "decoder \<Rightarrow> checksum \<Rightarrow> directory \<Rightarrow> wal_error + seq option" where
  "last_seq_in_dir dec crc dir =
     (case read_all_dir dec crc dir of
        Inl e \<Rightarrow> Inl e
      | Inr rs \<Rightarrow> Inr (if rs = [] then None else Some (lr_seq (last rs))))"

definition check_manifest_dir ::
  "json_reader \<Rightarrow> json_writer \<Rightarrow> auction_config \<Rightarrow> directory \<Rightarrow> wal_error + directory" where
  "check_manifest_dir from_json to_json c dir =
     (case read_manifest from_json (log_dir_of dir) of
        Inr existing \<Rightarrow> if existing = c then Inr dir else Inl ManifestMismatch
      | Inl NoManifest \<Rightarrow> Inr (put_entry manifest_name (to_json c) dir)
      | Inl e \<Rightarrow> Inl e)"

definition content_of :: "string \<Rightarrow> directory \<Rightarrow> byte list" where
  "content_of name dir = (case map_of dir name of None \<Rightarrow> [] | Some bytes \<Rightarrow> bytes)"

text \<open>\<open>truncate_torn_tail\<close> on the file of that name, if there is one, and opening it with \<open>create(true)\<close>.\<close>

definition truncate_file :: "decoder \<Rightarrow> checksum \<Rightarrow> string \<Rightarrow> directory \<Rightarrow> wal_error + directory" where
  "truncate_file dec crc name dir =
     (case map_of dir name of
        None \<Rightarrow> Inr dir
      | Some content \<Rightarrow>
          (case truncate_torn_tail dec crc content of
             Inl e \<Rightarrow> Inl e
           | Inr kept \<Rightarrow> Inr (if kept = content then dir else put_entry name kept dir)))"

definition create_file :: "string \<Rightarrow> directory \<Rightarrow> directory" where
  "create_file name dir = (if map_of dir name = None then put_entry name [] dir else dir)"

definition open_segments ::
  "decoder \<Rightarrow> checksum \<Rightarrow> u64 \<Rightarrow> nat \<Rightarrow> directory \<Rightarrow> wal_error + (directory \<times> wal)" where
  "open_segments dec crc limit on_disk dir =
     (let existing = segments dir;
          index = (if existing = [] then 0 else fst (last existing));
          path = segment_name index
      in case last_seq_in_dir dec crc dir of
           Inl e \<Rightarrow> Inl e
         | Inr found \<Rightarrow>
             (case truncate_file dec crc path dir of
                Inl e \<Rightarrow> Inl e
              | Inr shortened \<Rightarrow>
                  let dir' = create_file path shortened; kept = content_of path dir'
                  in Inr (dir',
                      \<lparr>sealed = segments (remove_entry path dir'), active = kept, active_file = index,
                       synced = (if kept = content_of path dir then min on_disk (length kept) else length kept),
                       active_index = index, active_bytes = length kept, appended = found, durable = found,
                       segment_bytes = limit\<rparr>)))"

definition wal_open_dir ::
  "json_reader \<Rightarrow> json_writer \<Rightarrow> decoder \<Rightarrow> checksum \<Rightarrow> auction_config \<Rightarrow> u64 \<Rightarrow> nat \<Rightarrow> directory \<Rightarrow>
   wal_error + (directory \<times> wal)" where
  "wal_open_dir from_json to_json dec crc c limit on_disk dir =
     (case check_manifest_dir from_json to_json c dir of
        Inl e \<Rightarrow> Inl e
      | Inr dir \<Rightarrow> open_segments dec crc limit on_disk dir)"

section \<open>Names\<close>

text \<open>
  A directory as the log writes it: no name twice, and every file that \<open>segments\<close> recognizes has the name that
  \<open>segment_path\<close> gives its number. (\<open>str::parse\<close> also takes \<open>wal-+0000007.log\<close> for number 7.)
\<close>

definition well_named :: "directory \<Rightarrow> bool" where
  "well_named dir \<longleftrightarrow> distinct (map fst dir) \<and>
     list_all (\<lambda>e. case segment_index (fst e) of None \<Rightarrow> True | Some i \<Rightarrow> fst e = segment_name i) dir"

lemma signed_name_is_listed: "segment_index ''wal-+0000007.log'' = Some 7" "segment_name 7 = ''wal-00000007.log''"
  by code_simp+

lemma well_namedD:
  assumes "well_named dir" and "(name, b) \<in> set dir" and "segment_index name = Some i"
  shows "name = segment_name i"
  using assms by (fastforce simp: well_named_def list_all_iff)

lemma parse_digits_less: "parse_digits limit cs acc = Some n \<Longrightarrow> n < (acc + 1) * 10 ^ length cs"
proof (induction cs arbitrary: acc)
  case (Cons c cs)
  let ?d = "of_char c - 48 :: nat"
  have d: "?d < 10" and p: "parse_digits limit cs (acc * 10 + ?d) = Some n"
    using Cons.prems by (auto simp: Let_def split: if_splits)
  have "n < (acc * 10 + ?d + 1) * 10 ^ length cs" by (rule Cons.IH [OF p])
  also have "\<dots> \<le> ((acc + 1) * 10) * 10 ^ length cs" using d by (intro mult_le_mono1) simp
  finally show ?case by (simp add: algebra_simps)
qed simp

lemma segment_index_less: "segment_index name = Some i \<Longrightarrow> i < 100000000"
proof -
  assume i: "segment_index name = Some i"
  then obtain digits where d: "length digits = 8" "parse_unsigned 4294967295 digits = Some i"
    by (auto simp: segment_index_def split: option.splits if_splits)
  then obtain c cs where c: "digits = c # cs" by (cases digits) auto
  have "i < 10 ^ length digits"
  proof (cases "c = CHR ''+'' \<and> cs \<noteq> []")
    case True
    then have "i < 10 ^ length cs" using d(2) parse_digits_less [of _ cs 0 i] by (simp add: parse_unsigned_def c)
    then show ?thesis by (simp add: c)
  next
    case False
    then have "parse_digits 4294967295 digits 0 = Some i" using d(2) by (auto simp: parse_unsigned_def c split: if_splits)
    from parse_digits_less [OF this] show ?thesis by simp
  qed
  then show ?thesis using d(1) by simp
qed

lemma manifest_is_no_segment [simp]: "segment_index manifest_name = None"
  by (simp add: segment_index_def manifest_name_def strip_prefix_def)

lemma segment_name_inj: "i < 100000000 \<Longrightarrow> j < 100000000 \<Longrightarrow> segment_name i = segment_name j \<longleftrightarrow> i = j"
  using segment_index_name_aux by (metis option.inject)

section \<open>The listing\<close>

lemma sorted_by_index_unique:
  fixes xs ys :: "(nat \<times> 'a) list"
  assumes "sorted_wrt (<) (map fst xs)" and "sorted_wrt (<) (map fst ys)" and "set xs = set ys"
  shows "xs = ys"
proof -
  have "map fst xs = map fst ys"
    using assms by (intro sorted_distinct_set_unique) (auto simp: strict_sorted_iff)
  moreover have "inj_on fst (set xs \<union> set ys)" using assms(1,3) by (simp add: strict_sorted_iff distinct_map)
  ultimately show ?thesis by (simp add: inj_on_map_eq_map)
qed

text \<open>For a well-named directory the listing is determined by which named files there are.\<close>

lemma set_segments:
  "set (segments dir) = {(i, b). \<exists>name. (name, b) \<in> set dir \<and> segment_index name = Some i}"
proof -
  have "set (List.map_filter (\<lambda>e. map_option (\<lambda>i. (i, snd e)) (segment_index (fst e))) dir) =
      {(i, b). \<exists>name. (name, b) \<in> set dir \<and> segment_index name = Some i}"
  proof (induction dir)
    case (Cons e dir)
    then show ?case by (cases "segment_index (fst e)"; cases e) auto
  qed simp
  then show ?thesis by (simp add: segments_def)
qed

lemma set_segments_named:
  assumes "well_named dir"
  shows "set (segments dir) = {(i, b). (segment_name i, b) \<in> set dir \<and> i < 100000000}"
  unfolding set_segments using well_namedD [OF assms] segment_index_name_aux segment_index_less by blast

lemma distinct_indices:
  assumes "well_named dir"
  shows "distinct (List.map_filter (\<lambda>e. segment_index (fst e)) dir)"
  using assms
proof (induction dir)
  case (Cons e dir)
  have wf: "well_named dir" using Cons.prems by (simp add: well_named_def)
  have "i \<notin> set (List.map_filter (\<lambda>e. segment_index (fst e)) dir)" if "segment_index (fst e) = Some i" for i
  proof
    assume "i \<in> set (List.map_filter (\<lambda>e. segment_index (fst e)) dir)"
    then obtain e' where e': "e' \<in> set dir" "segment_index (fst e') = Some i" by (auto simp: List.map_filter_def)
    have "fst e = fst e'"
      using well_namedD [OF Cons.prems, of "fst e" "snd e" i] well_namedD [OF Cons.prems, of "fst e'" "snd e'" i] that e' by simp
    then show False using Cons.prems e'(1) by (auto simp: well_named_def)
  qed
  then show ?case using Cons.IH [OF wf] by (simp add: List.map_filter_simps split: option.split)
qed (simp add: List.map_filter_simps)

lemma segments_sorted:
  assumes "well_named dir"
  shows "sorted_wrt (<) (map fst (segments dir))"
proof -
  let ?fs = "List.map_filter (\<lambda>e. map_option (\<lambda>i. (i, snd e)) (segment_index (fst e))) dir"
  have "map fst ?fs = List.map_filter (\<lambda>e. segment_index (fst e)) dir"
    by (induction dir) (simp_all split: option.split)
  then have "distinct (map fst ?fs)" using distinct_indices [OF assms] by simp
  then have "distinct (map fst (segments dir))" by (simp add: segments_def distinct_map)
  then show ?thesis by (simp add: strict_sorted_iff segments_def)
qed

lemma segments_are:
  assumes "well_named dir" and "sorted_wrt (<) (map fst fs)"
    and "\<And>i b. (i, b) \<in> set fs \<longleftrightarrow> (segment_name i, b) \<in> set dir \<and> i < 100000000"
  shows "segments dir = fs"
  using assms(3) by (intro sorted_by_index_unique segments_sorted assms) (auto simp: set_segments_named [OF assms(1)])

section \<open>Changing one file\<close>

lemma set_remove_entry [simp]: "set (remove_entry name dir) = {e \<in> set dir. fst e \<noteq> name}"
  by (auto simp: remove_entry_def)

lemma map_of_remove_entry: "map_of (remove_entry name dir) other = (if other = name then None else map_of dir other)"
  by (induction dir) (auto simp: remove_entry_def)

lemma map_of_put_entry [simp]: "map_of (put_entry name b dir) other = (if other = name then Some b else map_of dir other)"
  by (simp add: put_entry_def map_of_remove_entry)

lemma well_named_remove [simp]: "well_named dir \<Longrightarrow> well_named (remove_entry name dir)"
  by (auto simp: well_named_def list_all_iff remove_entry_def distinct_map_filter)

lemma well_named_put:
  assumes "well_named dir" and "segment_index name = None \<or> (\<exists>i < 100000000. name = segment_name i)"
  shows "well_named (put_entry name b dir)"
proof -
  have "well_named (remove_entry name dir)" using assms(1) by simp
  then show ?thesis
    using assms(2) segment_index_name_aux by (fastforce simp: well_named_def put_entry_def list_all_iff)
qed

lemma segments_put_other:
  assumes "well_named dir" and "segment_index name = None"
  shows "segments (put_entry name b dir) = segments dir"
proof (rule segments_are [OF well_named_put [OF assms(1)] segments_sorted [OF assms(1)]])
  show "segment_index name = None \<or> (\<exists>i < 100000000. name = segment_name i)" using assms(2) by simp
  fix i c
  show "(i, c) \<in> set (segments dir) \<longleftrightarrow> (segment_name i, c) \<in> set (put_entry name b dir) \<and> i < 100000000"
    using assms(2) segment_index_name_aux [of i] by (auto simp: set_segments_named [OF assms(1)] put_entry_def)
qed

lemma segments_remove:
  assumes "well_named dir" and "i < 100000000"
  shows "segments (remove_entry (segment_name i) dir) = filter (\<lambda>f. fst f \<noteq> i) (segments dir)"
proof (rule segments_are)
  show "well_named (remove_entry (segment_name i) dir)" using assms(1) by simp
  show "sorted_wrt (<) (map fst (filter (\<lambda>f. fst f \<noteq> i) (segments dir)))"
    using segments_sorted [OF assms(1)] by (simp add: sorted_wrt_map sorted_wrt_filter)
  show "(j, b) \<in> set (filter (\<lambda>f. fst f \<noteq> i) (segments dir)) \<longleftrightarrow>
      (segment_name j, b) \<in> set (remove_entry (segment_name i) dir) \<and> j < 100000000" for j b
    using segment_name_inj [of j i] assms(2) by (auto simp: set_segments_named [OF assms(1)])
qed

lemma segments_put:
  assumes "well_named dir" and "i < 100000000" and "list_all (\<lambda>f. fst f < i) fs"
    and "segments (remove_entry (segment_name i) dir) = fs"
  shows "segments (put_entry (segment_name i) b dir) = fs @ [(i, b)]"
proof (rule segments_are)
  have wf: "well_named (remove_entry (segment_name i) dir)" using assms(1) by simp
  show "well_named (put_entry (segment_name i) b dir)" using assms(1,2) by (intro well_named_put) auto
  show "sorted_wrt (<) (map fst (fs @ [(i, b)]))"
    using segments_sorted [OF wf] assms(3) unfolding assms(4) by (auto simp: sorted_wrt_append list_all_iff)
  have fs: "set fs = {(j, c). (segment_name j, c) \<in> set dir \<and> segment_name j \<noteq> segment_name i \<and> j < 100000000}"
    using set_segments_named [OF wf] unfolding assms(4) by auto
  show "(j, c) \<in> set (fs @ [(i, b)]) \<longleftrightarrow> (segment_name j, c) \<in> set (put_entry (segment_name i) b dir) \<and> j < 100000000" for j c
    using segment_name_inj [of j i] assms(2) by (auto simp: fs put_entry_def)
qed

text \<open>The file that is opened is the last of the listing, or a new one numbered 0.\<close>

lemma segments_last:
  assumes "well_named dir" and "segments dir = fs @ [(i, c)]"
  shows "i < 100000000" and "segments (remove_entry (segment_name i) dir) = fs"
    and "map_of dir (segment_name i) = Some c" and "list_all (\<lambda>f. fst f < i) fs"
proof -
  have "(i, c) \<in> set (segments dir)" using assms(2) by simp
  then have i: "(segment_name i, c) \<in> set dir" "i < 100000000" by (simp_all add: set_segments_named [OF assms(1)])
  then show "i < 100000000" and "map_of dir (segment_name i) = Some c" using assms(1) by (simp_all add: well_named_def)
  show less: "list_all (\<lambda>f. fst f < i) fs"
    using segments_sorted [OF assms(1)] unfolding assms(2) by (auto simp: sorted_wrt_append list_all_iff)
  then show "segments (remove_entry (segment_name i) dir) = fs"
    unfolding segments_remove [OF assms(1) i(2)] assms(2) by (auto simp: list_all_iff filter_id_conv)
qed

lemma segments_none:
  assumes "well_named dir" and "segments dir = []"
  shows "segments (remove_entry (segment_name 0) dir) = []" and "map_of dir (segment_name 0) = None"
proof -
  show "segments (remove_entry (segment_name 0) dir) = []" using segments_remove [OF assms(1), of 0] assms(2) by simp
  have "(segment_name 0, c) \<notin> set dir" for c
  proof
    assume "(segment_name 0, c) \<in> set dir"
    then have "(0, c) \<in> set (segments dir)" by (simp add: set_segments_named [OF assms(1)])
    then show False using assms(2) by simp
  qed
  then show "map_of dir (segment_name 0) = None" by (meson map_of_SomeD not_Some_eq)
qed

section \<open>The directory refines the list\<close>

lemma content_of_put [simp]: "content_of name (put_entry name b dir) = b"
  by (simp add: content_of_def)

lemma remove_put_entry [simp]: "remove_entry name (put_entry name b dir) = remove_entry name dir"
  by (auto simp: remove_entry_def put_entry_def)

lemma segment_name_not_manifest: "i < 100000000 \<Longrightarrow> segment_name i \<noteq> manifest_name"
  using segment_index_name_aux by fastforce

lemma log_dir_of_manifest:
  assumes "well_named dir"
  shows "log_dir_of (put_entry manifest_name b dir) = (log_dir_of dir)\<lparr>manifest := Some b\<rparr>"
  using segments_put_other [OF assms] by (simp add: log_dir_of_def)

lemma check_manifest_dir_refines:
  assumes "well_named dir"
  shows "check_manifest from_json to_json c (log_dir_of dir) =
      map_sum id log_dir_of (check_manifest_dir from_json to_json c dir)"
    and "check_manifest_dir from_json to_json c dir = Inr dir' \<Longrightarrow> well_named dir' \<and>
       (\<forall>name. name \<noteq> manifest_name \<longrightarrow> map_of dir' name = map_of dir name)"
  using assms well_named_put [OF assms, of manifest_name "to_json c"]
  by (auto simp: check_manifest_def check_manifest_dir_def write_manifest_def log_dir_of_manifest [OF assms]
      split: sum.splits wal_error.splits if_splits)

text \<open>
  Opening an empty listing creates the file numbered 0; otherwise the last file of the listing is cut off where its
  records end.
\<close>

lemma read_no_bytes: "truncate_torn_tail dec crc [] = Inr []"
  by (simp add: truncate_torn_tail_def read_segment_def read_from.simps)

definition opened :: "u64 \<Rightarrow> nat \<Rightarrow> (nat \<times> byte list) list \<Rightarrow> nat \<Rightarrow> byte list \<Rightarrow> byte list \<Rightarrow> seq option \<Rightarrow> wal" where
  "opened limit on_disk fs i content kept found =
     \<lparr>sealed = fs, active = kept, active_file = i,
      synced = (if kept = content then min on_disk (length kept) else length kept), active_index = i,
      active_bytes = length kept, appended = found, durable = found, segment_bytes = limit\<rparr>"

lemma last_seq_in_dir_segments: "last_seq_in_dir dec crc dir = last_seq_in dec crc (segments dir)"
  by (simp add: last_seq_in_dir_def last_seq_in_def read_all_dir_def)

lemma open_segments_first:
  assumes "well_named dir" and "segments dir = []"
  shows "open_segments dec crc limit on_disk dir =
    map_sum id (\<lambda>found. (put_entry (segment_name 0) [] dir, opened limit on_disk [] 0 [] [] found))
      (last_seq_in dec crc [])"
  by (simp add: open_segments_def last_seq_in_dir_segments assms(2) truncate_file_def create_file_def
      segments_none [OF assms] content_of_def opened_def Let_def split: sum.splits)

lemma open_segments_last:
  assumes "well_named dir" and "segments dir = fs @ [(i, content)]"
  shows "open_segments dec crc limit on_disk dir =
    (case last_seq_in dec crc (segments dir) of
       Inl e \<Rightarrow> Inl e
     | Inr found \<Rightarrow> map_sum id
         (\<lambda>kept. (if kept = content then dir else put_entry (segment_name i) kept dir, opened limit on_disk fs i content kept found))
         (truncate_torn_tail dec crc content))"
proof -
  have "content_of (segment_name i) dir = content" by (simp add: content_of_def segments_last(3) [OF assms])
  then show ?thesis
    by (simp add: open_segments_def last_seq_in_dir_segments assms(2) truncate_file_def create_file_def
        segments_last [OF assms] opened_def Let_def split: sum.splits)
qed

lemma open_segments_refines:
  assumes "well_named dir"
  shows "open_log dec crc limit on_disk (segments dir) = map_sum id snd (open_segments dec crc limit on_disk dir)"
  using open_segments_first [OF assms] open_segments_last [OF assms] read_no_bytes [of dec crc]
  by (cases "segments dir" rule: rev_cases) (auto simp: open_log_def opened_def Let_def split: sum.splits)

lemma open_segments_files:
  assumes "well_named dir" and "open_segments dec crc limit on_disk dir = Inr (dir', w)"
  shows "well_named dir'" and "segments dir' = disk_files w"
    and "\<And>name. segment_index name = None \<Longrightarrow> map_of dir' name = map_of dir name"
proof -
  let ?touched = "\<lambda>i kept. put_entry (segment_name i) kept dir"
  consider "segments dir = []" | fs i content where "segments dir = fs @ [(i, content)]"
    by (cases "segments dir" rule: rev_cases) auto
  then have "well_named dir' \<and> segments dir' = disk_files w \<and>
      (\<exists>i < 100000000. \<exists>kept. dir' = dir \<or> dir' = ?touched i kept)"
  proof cases
    case 1
    have "segments (?touched 0 []) = [(0, [])]"
      using segments_put [OF assms(1) _ _ segments_none(1) [OF assms(1) 1]] by simp
    moreover have "well_named (?touched 0 [])" by (intro well_named_put assms(1) disjI2 exI [of _ 0]) simp
    moreover have "dir' = ?touched 0 []" "disk_files w = [(0, [])]"
      using assms(2) open_segments_first [OF assms(1) 1]
      by (auto simp: opened_def disk_files_def map_sum_def split: sum.splits)
    ultimately show ?thesis by (metis zero_less_numeral)
  next
    case 2
    note l = segments_last [OF assms(1) 2]
    obtain kept found where k: "dir' = (if kept = content then dir else ?touched i kept)"
      "w = opened limit on_disk fs i content kept found"
      using assms(2) open_segments_last [OF assms(1) 2] by (auto simp: map_sum_def split: sum.splits)
    have "segments (?touched i kept) = fs @ [(i, kept)]" by (rule segments_put [OF assms(1) l(1,4,2)])
    moreover have "well_named (?touched i kept)" using l(1) by (intro well_named_put assms(1)) auto
    ultimately show ?thesis using k 2 l(1) assms(1) by (auto simp: opened_def disk_files_def)
  qed
  then show "well_named dir'" and "segments dir' = disk_files w"
    and "segment_index name = None \<Longrightarrow> map_of dir' name = map_of dir name" for name
    using segment_index_name_aux by auto
qed

text \<open>\<open>Wal::open\<close> on a directory is \<open>wal_open\<close> on its abstraction, in every case.\<close>

lemma wal_open_dir_refines:
  assumes "well_named dir"
  shows "wal_open from_json to_json dec crc c limit on_disk (log_dir_of dir) =
    map_sum id (\<lambda>(dir', w). (log_dir_of dir', w)) (wal_open_dir from_json to_json dec crc c limit on_disk dir)"
proof (cases "check_manifest_dir from_json to_json c dir")
  case (Inl e)
  then show ?thesis by (simp add: wal_open_def wal_open_dir_def check_manifest_dir_refines(1) [OF assms])
next
  case (Inr d)
  have wf: "well_named d" using check_manifest_dir_refines(2) [OF assms Inr] by simp
  have files: "files (log_dir_of d) = segments d" by (simp add: log_dir_of_def)
  have "wal_open from_json to_json dec crc c limit on_disk (log_dir_of dir) =
      map_sum id (\<lambda>w. ((log_dir_of d)\<lparr>files := disk_files w\<rparr>, w)) (open_log dec crc limit on_disk (segments d))"
    using Inr by (simp add: wal_open_def check_manifest_dir_refines(1) [OF assms] files split: sum.splits)
  moreover have "(log_dir_of d)\<lparr>files := disk_files w\<rparr> = log_dir_of d'"
    if "open_segments dec crc limit on_disk d = Inr (d', w)" for d' w
    using open_segments_files [OF wf that] by (simp add: log_dir_of_def)
  ultimately show ?thesis
    using Inr open_segments_refines [OF wf, of dec crc limit on_disk]
    by (cases "open_segments dec crc limit on_disk d") (auto simp: wal_open_dir_def)
qed

section \<open>What a power loss leaves\<close>

text \<open>
  The directory holds the segments \<open>fs\<close> under their names, and any other files, in whatever order the
  operating system lists them.
\<close>

definition named_files :: "(nat \<times> byte list) list \<Rightarrow> directory" where
  "named_files fs = map (\<lambda>(i, b). (segment_name i, b)) fs"

definition holds_segments :: "directory \<Rightarrow> (nat \<times> byte list) list \<Rightarrow> bool" where
  "holds_segments dir fs \<longleftrightarrow> distinct (map fst dir) \<and>
     mset (filter (\<lambda>e. segment_index (fst e) \<noteq> None) dir) = mset (named_files fs)"

lemma in_named_files: "e \<in> set (named_files fs) \<longleftrightarrow> (\<exists>i b. (i, b) \<in> set fs \<and> e = (segment_name i, b))"
  by (force simp: named_files_def)

lemma holds_segments_listed:
  assumes "holds_segments dir fs" and "sorted_wrt (<) (map fst fs)" and "list_all (\<lambda>f. fst f < 100000000) fs"
  shows "well_named dir" and "segments dir = fs"
proof -
  have less: "i < 100000000" if "(i, b) \<in> set fs" for i b using that assms(3) by (auto simp: list_all_iff)
  have segs: "e \<in> set dir \<and> segment_index (fst e) \<noteq> None \<longleftrightarrow> (\<exists>i b. (i, b) \<in> set fs \<and> e = (segment_name i, b))" for e
    using mset_eq_setD [of "filter (\<lambda>e. segment_index (fst e) \<noteq> None) dir" "named_files fs"] assms(1)
      in_named_files [of e fs] by (auto simp: holds_segments_def)
  have "case segment_index (fst e) of None \<Rightarrow> True | Some i \<Rightarrow> fst e = segment_name i" if e: "e \<in> set dir" for e
  proof (cases "segment_index (fst e)")
    case (Some j)
    then obtain i b where "(i, b) \<in> set fs" "e = (segment_name i, b)" using segs [of e] e by auto
    then show ?thesis using segment_index_name_aux [OF less, of i b] by simp
  qed simp
  then show wf: "well_named dir" using assms(1) by (simp add: well_named_def holds_segments_def list_all_iff)
  have "(i, b) \<in> set fs \<longleftrightarrow> (segment_name i, b) \<in> set dir \<and> i < 100000000" for i b
  proof
    assume i: "(i, b) \<in> set fs"
    then show "(segment_name i, b) \<in> set dir \<and> i < 100000000" using segs [of "(segment_name i, b)"] less [OF i] by blast
  next
    assume i: "(segment_name i, b) \<in> set dir \<and> i < 100000000"
    then have "segment_index (segment_name i) = Some i" by (simp add: segment_index_name_aux)
    then obtain j where j: "(j, b) \<in> set fs" "segment_name i = segment_name j" using segs [of "(segment_name i, b)"] i by auto
    then show "(i, b) \<in> set fs" using i segment_name_inj [OF _ less [OF j(1)], of i] by simp
  qed
  then show "segments dir = fs" by (rule segments_are [OF wf assms(2)])
qed

text \<open>The files of a log are numbered in order.\<close>

definition files_ordered :: "wal \<Rightarrow> bool" where
  "files_ordered w \<longleftrightarrow> sorted_wrt (<) (map fst (disk_files w)) \<and> active_file w \<le> active_index w"

lemma append_files_ordered:
  assumes "wal_append enc crc io r w = (w', e)" and "files_ordered w"
  shows "files_ordered w'"
proof -
  have rotate: "files_ordered (fst (rotate out w))" for out
    using assms(2) by (cases out) (auto simp: files_ordered_def disk_files_def sorted_wrt_append)
  have "files_ordered (v\<lparr>active := a, active_bytes := b, appended := p\<rparr>) \<and> files_ordered (v\<lparr>active := a\<rparr>)"
    if "files_ordered v" for v a b p
    using that by (simp add: files_ordered_def disk_files_def sorted_wrt_append)
  with rotate [of "fst io"] assms show ?thesis
    by (auto simp: wal_append_def append_checked_def split: option.splits sum.splits if_splits prod.splits write_io.splits)
qed

lemma history_files_ordered: "log_history enc dec crc w rs \<Longrightarrow> files_ordered w"
proof (induction rule: log_history.induct)
  case (log_new limit w)
  then show ?case
    by (auto simp: open_log_def last_seq_in_def read_all_def read_no_bytes files_ordered_def disk_files_def)
next
  case (log_append w rs io r w')
  then show ?case using append_files_ordered by blast
next
  case (log_sync w rs io w' d)
  then show ?case by (auto simp: wal_sync_def files_ordered_def disk_files_def Let_def split: if_splits)
next
  case (log_restart w rs n rs' limit w')
  then show ?case
    by (auto simp: open_log_def crash_def files_ordered_def disk_files_def Let_def split: sum.splits)
qed

lemma history_listed:
  assumes "log_history enc dec crc w rs" and "active_file w < 100000000" and "holds_segments dir (crash n w)"
  shows "well_named dir" and "segments dir = crash n w"
proof -
  have sorted: "sorted_wrt (<) (map fst (crash n w))"
    using history_files_ordered [OF assms(1)] by (simp add: files_ordered_def disk_files_def crash_def)
  then have "list_all (\<lambda>f. fst f < 100000000) (crash n w)"
    using assms(2) by (auto simp: crash_def sorted_wrt_append list_all_iff)
  then show "well_named dir" and "segments dir = crash n w"
    using holds_segments_listed [OF assms(3) sorted] by simp_all
qed

lemma wal_open_dir_known:
  assumes "well_named dir" and "map_of dir manifest_name = Some m" and "from_json m = Inr c"
  shows "wal_open_dir from_json to_json dec crc c limit on_disk dir = open_segments dec crc limit on_disk dir"
  using assms by (simp add: wal_open_dir_def check_manifest_dir_def read_manifest_def log_dir_of_def)

text \<open>The theories on snapshots reason on the definitions of these operations.\<close>

declare set_remove_entry [simp del] map_of_put_entry [simp del] remove_put_entry [simp del] content_of_put [simp del]

end
