(* ===== verification/Handles.thy ===== *)
theory Handles
  imports Restart
begin

text \<open>
  What the handles of the two threads offer to their users: \<open>Committer\<close> in \<open>crates/auction-wal/src/commit.rs\<close>,
  \<open>AuctionHandle\<close> in \<open>ingress.rs\<close>, and the two public ways to open an auction in \<open>engine.rs\<close>.
\<close>

section \<open>The committer\<close>

definition watermark_new :: "seq option \<Rightarrow> mark_state" where
  "watermark_new mark = MarkLive mark"

definition committer_queue_depth :: "commit_sys \<Rightarrow> nat" where
  "committer_queue_depth cs = length (cs_queue cs)"

definition committer_durable_seq :: "commit_sys \<Rightarrow> seq option" where
  "committer_durable_seq cs = mark_durable (cs_mark cs)"

definition wait_durable :: "seq \<Rightarrow> commit_sys \<Rightarrow> wait_result" where
  "wait_durable sq cs = wait_for sq (cs_mark cs)"

text \<open>\<open>Committer::commit\<close>: submit, and then wait; \<open>meanwhile\<close> is what the commit thread does until the waiter looks.\<close>

definition commit_record :: "(commit_sys \<Rightarrow> commit_sys) \<Rightarrow> log_record \<Rightarrow> commit_sys \<Rightarrow> wal_error + commit_sys \<times> wait_result" where
  "commit_record meanwhile record cs =
     (let sq = lr_seq record in
      case submit_record record cs of
        Inl e \<Rightarrow> Inl e
      | Inr cs \<Rightarrow> (let cs = meanwhile cs in Inr (cs, wait_durable sq cs)))"

text \<open>When \<open>commit\<close> returns successfully the record survives a power loss, at that moment or later.\<close>

lemma steps_submitted: "(commit_step enc crc describe)\<^sup>*\<^sup>* cs cs' \<Longrightarrow> prefix (cs_submitted cs) (cs_submitted cs')"
proof (induction rule: rtranclp_induct)
  case (step y z)
  from step(2) have "prefix (cs_submitted y) (cs_submitted z)"
  proof cases
    case (step_submit r)
    then show ?thesis by (auto simp: submit_record_def split: if_splits)
  qed (simp_all add: send_stop_def writer_round_def writer_drain_def commit_batch_def Let_def split: list.splits msg.splits prod.splits option.splits)
  with step(3) show ?case by (rule prefix_order.trans)
qed simp

lemma commit_record_durable:
  assumes "codec_ok enc dec crc" and "commit_inv enc dec crc cs" and "\<not> queue_full cs"
    and "gapless (cs_submitted cs @ [record])"
    and "\<And>cs. (commit_step enc crc describe)\<^sup>*\<^sup>* cs (meanwhile cs)"
    and "commit_record meanwhile record cs = Inr (cs', Released)"
    and "(commit_step enc crc describe)\<^sup>*\<^sup>* cs' later" and "synced (cs_wal later) \<le> n"
  shows "\<exists>kept. read_all dec crc (crash n (cs_wal later)) = Inr kept \<and> record \<in> set kept"
proof -
  obtain cs1 where s: "submit_record record cs = Inr cs1" "cs' = meanwhile cs1"
    and wait: "wait_for (lr_seq record) (cs_mark cs') = Released"
    using assms(6) by (auto simp: commit_record_def Let_def wait_durable_def split: sum.splits)
  have steps: "(commit_step enc crc describe)\<^sup>*\<^sup>* cs1 later" using assms(5) [of cs1] assms(7) s(2) by simp
  have "commit_step enc crc describe cs cs1" using step_submit [OF assms(3) s(1) assms(4)] .
  then have "commit_inv enc dec crc later"
    using commit_inv_steps [OF steps assms(1) commit_inv_step [OF _ assms(1,2)]] by blast
  moreover have "record \<in> set (cs_submitted later)"
    using steps_submitted [OF steps] s(1) by (auto simp: submit_record_def dest: set_mono_prefix split: if_splits)
  moreover have "wait_for (lr_seq record) (cs_mark later) = Released"
    using assms(7) by (induction rule: rtranclp_induct) (use wait in simp, blast intro: commit_step_released)
  ultimately show ?thesis using commit_crash [OF _ assms(1,8)] by blast
qed

section \<open>The cost of a sync\<close>

text \<open>
  \<open>measure_sync_cost\<close> syncs as often as \<open>ios\<close> has outcomes and divides the time that took. The number of samples is cast to 32 bits
  first; \<open>None\<close> is the panic of a division by zero.
\<close>

primrec sync_samples :: "bool list \<Rightarrow> wal \<Rightarrow> wal \<times> wal_error option" where
  "sync_samples [] w = (w, None)"
| "sync_samples (io # ios) w =
     (case wal_sync io w of Inl e \<Rightarrow> (w, Some e) | Inr (w', _) \<Rightarrow> sync_samples ios w')"

definition measure_sync_cost :: "bool list \<Rightarrow> nat \<Rightarrow> wal \<Rightarrow> (wal \<times> (wal_error + nat)) option" where
  "measure_sync_cost ios elapsed w =
     (case sync_samples ios w of
        (w, Some e) \<Rightarrow> Some (w, Inl e)
      | (w, None) \<Rightarrow>
          (let n = max (length ios) 1 mod 2 ^ 32
           in if n = 0 then None else Some (w, Inr (elapsed div n))))"

lemma sync_samples_result:
  "sync_samples ios w =
     ((if \<exists>rest. ios = True # rest then w\<lparr>synced := length (active w), durable := appended w\<rparr> else w),
      if list_all (\<lambda>io. io) ios then None else Some Io)"
proof (induction ios arbitrary: w)
  case (Cons io ios)
  then show ?case by (cases io) (auto simp: wal_sync_def)
qed simp

lemma measure_sync_cost_result:
  assumes "ios \<noteq> []" and "list_all (\<lambda>io. io) ios" and "length ios < 2 ^ 32"
  shows "measure_sync_cost ios elapsed w =
    Some (w\<lparr>synced := length (active w), durable := appended w\<rparr>, Inr (elapsed div length ios))"
  using assms by (cases ios) (auto simp: measure_sync_cost_def sync_samples_result Let_def max_def)

text \<open>The cast loses the samples of a measurement of four thousand million syncs, which then divides by zero.\<close>

lemma measure_sync_cost_panics: "measure_sync_cost (replicate (2 ^ 32) True) elapsed w = None"
  by (simp add: measure_sync_cost_def sync_samples_result list_all_length)

section \<open>The ingress\<close>

definition handle_depth :: "submission list \<Rightarrow> nat" where
  "handle_depth rx = length rx"

definition handle_capacity :: "nat option \<Rightarrow> nat" where
  "handle_capacity bound = (case bound of Some n \<Rightarrow> n | None \<Rightarrow> u64_max)"

text \<open>The bound is kept: whatever is offered, the backlog is never more than the capacity.\<close>

lemma offer_within_capacity:
  "offer depth gone sub rx = Inr rx' \<Longrightarrow> handle_depth rx' = handle_depth rx + 1 \<and> handle_depth rx' \<le> handle_capacity (Some depth)"
  by (auto simp: offer_def handle_depth_def handle_capacity_def split: if_splits)

section \<open>The auction\<close>

definition outcome_of :: "auction_state \<Rightarrow> idempotency_key \<Rightarrow> outcome option" where
  "outcome_of s key = outcomes s key"

definition auction_view :: "system \<Rightarrow> view" where
  "auction_view sy = ar_view (sy_acks sy)"

definition auction_open ::
  "json_reader \<Rightarrow> json_writer \<Rightarrow> decoder \<Rightarrow> checksum \<Rightarrow> snapshot_decoder \<Rightarrow> engine_options \<Rightarrow> int \<Rightarrow> nat \<Rightarrow>
   auction_config \<Rightarrow> log_dir \<Rightarrow> directory \<Rightarrow> wal_error + (log_dir \<times> system)" where
  "auction_open from_json to_json dec crc sdec options instant on_disk c d dir =
     open_inner from_json to_json dec crc sdec options instant None on_disk c d dir"

definition auction_open_replicated ::
  "json_reader \<Rightarrow> json_writer \<Rightarrow> decoder \<Rightarrow> checksum \<Rightarrow> snapshot_decoder \<Rightarrow> engine_options \<Rightarrow> int \<Rightarrow> standby \<Rightarrow> nat \<Rightarrow>
   auction_config \<Rightarrow> log_dir \<Rightarrow> directory \<Rightarrow> wal_error + (log_dir \<times> system)" where
  "auction_open_replicated from_json to_json dec crc sdec options instant replica on_disk c d dir =
     open_inner from_json to_json dec crc sdec options instant (Some replica) on_disk c d dir"

end
