(* ===== verification/Unit_Tests.thy ===== *)
theory Unit_Tests
  imports Handles Replication "HOL-Library.Char_ord" "HOL-Library.List_Lexorder"
begin

text \<open>
  The unit tests of the sources, run on the model: every \<open>#[test]\<close> of the modules is a definition with the source's
  name, and the lemmas say that it passes. What a test leaves to chance or to another crate is an argument here:
  \<open>fresh n\<close> is the n-th identifier that \<open>ParticipantId::new\<close> generates, and the serializer and the checksum are
  those of the log. So a test that compares random identifiers, or that flips a bit and expects the checksum to notice, passes for
  every instance with that property, which its lemma names.
\<close>

section \<open>\<open>auction-proto\<close>\<close>

definition sequence_is_gapless_and_increasing :: bool where
  "sequence_is_gapless_and_increasing \<longleftrightarrow>
     fold (\<lambda>expected s. case s of None \<Rightarrow> None
         | Some s \<Rightarrow> (case seq_next s of None \<Rightarrow> None | Some s \<Rightarrow> if s = expected then Some s else None))
       [1..<101] (Some seq_start) \<noteq> None"

definition consideration_rejects_overflow_instead_of_wrapping :: bool where
  "consideration_rejects_overflow_instead_of_wrapping \<longleftrightarrow>
     checked_mul_qty i64_max 2 = None \<and> checked_mul_qty 100 3 = Some 300"

definition fill_never_exceeds_available :: bool where
  "fill_never_exceeds_available \<longleftrightarrow> min_with 500 10 = 10 \<and> min_with 5 10 = 5"

definition oversubtraction_floors_at_zero_rather_than_wrapping :: bool where
  "oversubtraction_floors_at_zero_rather_than_wrapping \<longleftrightarrow> u64_saturating_sub 3 9 = 0"

definition clock_price_stays_within_published_bounds :: bool where
  "clock_price_stays_within_published_bounds \<longleftrightarrow>
     clamp_to 5 10 100 = Some 10 \<and> clamp_to 500 10 100 = Some 100 \<and> clamp_to 50 10 100 = Some 50"

definition bids_within_one_window_share_an_index :: bool where
  "bids_within_one_window_share_an_index \<longleftrightarrow>
     (let width = from_millis 1 in
      window_index 0 width = 0 \<and> window_index 999999 width = 0 \<and> window_index 1000000 width = 1)"

definition zero_width_disables_batching :: bool where
  "zero_width_disables_batching \<longleftrightarrow> window_index 7 0 = 7 \<and> window_index 8 0 = 8"

lemmas proto_tests = sequence_is_gapless_and_increasing_def consideration_rejects_overflow_instead_of_wrapping_def
  fill_never_exceeds_available_def oversubtraction_floors_at_zero_rather_than_wrapping_def
  clock_price_stays_within_published_bounds_def bids_within_one_window_share_an_index_def zero_width_disables_batching_def

section \<open>The schedule\<close>

definition stepped_fixture :: price_schedule where
  "stepped_fixture = the (stepped 1000 100 (from_secs 1) 10)"

definition linear_fixture :: price_schedule where
  "linear_fixture = the (linear 1000 100 10)"

definition stepped_price_holds_flat_within_a_step :: bool where
  "stepped_price_holds_flat_within_a_step \<longleftrightarrow>
     (let s = stepped_fixture in
      price_at s 0 = 1000 \<and> price_at s (from_millis 999) = 1000 \<and>
      price_at s (from_secs 1) = 990 \<and> price_at s (from_millis 1999) = 990 \<and> price_at s (from_secs 2) = 980)"

definition linear_price_falls_continuously_with_subsecond_precision :: bool where
  "linear_price_falls_continuously_with_subsecond_precision \<longleftrightarrow>
     (let s = linear_fixture in
      price_at s 0 = 1000 \<and> price_at s (from_millis 100) = 999 \<and> price_at s (from_secs 1) = 990 \<and>
      price_at s (from_secs 10) = 900)"

definition price_never_falls_below_the_floor :: bool where
  "price_never_falls_below_the_floor \<longleftrightarrow>
     list_all (\<lambda>s. price_at s (from_secs 90) = 100 \<and> price_at s (from_secs 100000) = 100 \<and> price_at s u64_max = 100)
       [stepped_fixture, linear_fixture]"

definition price_is_monotonically_non_increasing :: bool where
  "price_is_monotonically_non_increasing \<longleftrightarrow>
     list_all (\<lambda>s. fold (\<lambda>t (prev, ok). (price_at s t, ok \<and> price_at s t \<le> prev))
         (map from_secs [0..<120]) (i64_max, True) = (price_at s (from_secs 119), True))
       [stepped_fixture, linear_fixture]"

definition time_to_reach_lands_at_or_below_the_target :: bool where
  "time_to_reach_lands_at_or_below_the_target \<longleftrightarrow>
     list_all (\<lambda>s. list_all (\<lambda>target. case time_to_reach s target of None \<Rightarrow> False | Some t \<Rightarrow> price_at s t \<le> target)
         [1000, 995, 990, 500, 101, 100])
       [stepped_fixture, linear_fixture]"

definition time_to_reach_is_the_earliest_such_instant :: bool where
  "time_to_reach_is_the_earliest_such_instant \<longleftrightarrow>
     (let s = stepped_fixture in
      case time_to_reach s 990 of None \<Rightarrow> False | Some t \<Rightarrow> t = from_secs 1 \<and> price_at s (t - 1) > 990)"

definition a_target_below_the_floor_is_never_reached :: bool where
  "a_target_below_the_floor_is_never_reached \<longleftrightarrow>
     list_all (\<lambda>s. time_to_reach s 99 = None) [stepped_fixture, linear_fixture]"

definition a_flat_schedule_never_moves :: bool where
  "a_flat_schedule_never_moves \<longleftrightarrow>
     (case linear 500 100 0 of
        None \<Rightarrow> False
      | Some s \<Rightarrow> price_at s (from_secs 10000) = 500 \<and> time_to_reach s 499 = None \<and> time_to_reach s 500 = Some 0)"

definition at_floor_reports_the_end_of_the_clock :: bool where
  "at_floor_reports_the_end_of_the_clock \<longleftrightarrow>
     (let s = stepped_fixture in \<not> at_floor s (from_secs 10) \<and> at_floor s (from_secs 90))"

section \<open>Commands, configuration and the ladder\<close>

definition a_resting_bid_competes_at_its_limit_not_the_clock :: bool where
  "a_resting_bid_competes_at_its_limit_not_the_clock \<longleftrightarrow>
     (let clock = 900 in
      priority_price (Take 900) clock = 900 \<and> priority_price (bid_kind.Resting 950) clock = 950)"

definition defaults_match_the_rules_document :: "auction_id \<Rightarrow> bool" where
  "defaults_match_the_rules_document fresh_id \<longleftrightarrow>
     (let c = new_config fresh_id 100 stepped_fixture in
      batch_window c = from_millis 1 \<and> price_tolerance c = 10)"

definition bid_fixture :: "participant_id \<Rightarrow> seq \<Rightarrow> price \<Rightarrow> qty \<Rightarrow> resting_bid" where
  "bid_fixture fresh_id sq limit q =
     \<lparr>rb_seq = sq, rb_participant = fresh_id, rb_key = IdempotencyKey (of_nat sq), rb_qty = q, rb_limit = limit\<rparr>"

definition only_bids_the_clock_has_reached_are_triggered :: "(nat \<Rightarrow> participant_id) \<Rightarrow> bool" where
  "only_bids_the_clock_has_reached_are_triggered fresh \<longleftrightarrow>
     (let l = ladder_insert (bid_fixture (fresh 0) 1 900 10) ladder_new;
          l = ladder_insert (bid_fixture (fresh 1) 2 800 10) l;
          l = ladder_insert (bid_fixture (fresh 2) 3 700 10) l;
          (l, fired) = drain_triggered 800 l
      in length fired = 2 \<and> rb_limit (fired ! 0) = 900 \<and> rb_limit (fired ! 1) = 800 \<and>
         ladder_len l = 1 \<and> total_qty l = 10)"

definition ties_at_a_price_resolve_in_arrival_order :: "(nat \<Rightarrow> participant_id) \<Rightarrow> bool" where
  "ties_at_a_price_resolve_in_arrival_order fresh \<longleftrightarrow>
     (let l = ladder_insert (bid_fixture (fresh 0) 5 900 1) ladder_new;
          l = ladder_insert (bid_fixture (fresh 1) 6 900 1) l;
          l = ladder_insert (bid_fixture (fresh 2) 7 900 1) l;
          (l, fired) = drain_triggered 900 l
      in map rb_seq fired = [5, 6, 7])"

definition a_partial_fill_keeps_its_place_at_the_front :: "(nat \<Rightarrow> participant_id) \<Rightarrow> bool" where
  "a_partial_fill_keeps_its_place_at_the_front fresh \<longleftrightarrow>
     (let l = ladder_insert (bid_fixture (fresh 0) 1 900 10) ladder_new;
          early = bid_fixture (fresh 1) 0 900 4;
          early = early\<lparr>rb_qty := 4\<rparr>;
          l = ladder_requeue early l;
          (l, fired) = drain_triggered 900 l
      in rb_seq (fired ! 0) = 0 \<and> rb_qty (fired ! 0) = 4)"

definition cancelling_frees_the_units_and_prunes_the_level :: "(nat \<Rightarrow> participant_id) \<Rightarrow> bool" where
  "cancelling_frees_the_units_and_prunes_the_level fresh \<longleftrightarrow>
     (let b = bid_fixture (fresh 0) 1 900 10;
          l = ladder_insert b ladder_new;
          (l', found) = ladder_remove (rb_participant b) (rb_key b) l;
          (l'', again) = ladder_remove (rb_participant b) (rb_key b) l'
      in total_qty l = 10 \<and> found \<noteq> None \<and> total_qty l' = 0 \<and> ladder_is_empty l' \<and> again = None)"

definition a_cancel_from_the_wrong_participant_does_nothing :: "(nat \<Rightarrow> participant_id) \<Rightarrow> bool" where
  "a_cancel_from_the_wrong_participant_does_nothing fresh \<longleftrightarrow>
     (let b = bid_fixture (fresh 0) 1 900 10;
          l = ladder_insert b ladder_new;
          (l', found) = ladder_remove (fresh 1) (rb_key b) l
      in found = None \<and> ladder_len l' = 1)"

section \<open>The log\<close>

definition sample_record :: "seq \<Rightarrow> log_record" where
  "sample_record sq = \<lparr>lr_seq = sq, lr_ts = from_millis sq, lr_cmd = SetCollateral (ParticipantId (of_nat sq)) 10000\<rparr>"

definition a_record_survives_a_round_trip :: "encoder \<Rightarrow> decoder \<Rightarrow> checksum \<Rightarrow> bool" where
  "a_record_survives_a_round_trip enc dec crc \<longleftrightarrow>
     (case encode_into enc crc (sample_record 7) [] of
        Inl e \<Rightarrow> False
      | Inr buf \<Rightarrow>
          (case decode dec crc buf of
             Record record consumed \<Rightarrow> record = sample_record 7 \<and> consumed = length buf
           | _ \<Rightarrow> False))"

text \<open>The two loops over \<open>0..5\<close>: encode, then decode from where the last record ended.\<close>

definition pack :: "encoder \<Rightarrow> checksum \<Rightarrow> seq list \<Rightarrow> wal_error + byte list" where
  "pack enc crc sqs = fold (\<lambda>i buf. case buf of Inl e \<Rightarrow> Inl e | Inr buf \<Rightarrow> encode_into enc crc (sample_record i) buf) sqs (Inr [])"

fun unpacks :: "decoder \<Rightarrow> checksum \<Rightarrow> seq list \<Rightarrow> byte list \<Rightarrow> nat \<Rightarrow> nat option" where
  "unpacks dec crc [] buf at = Some at"
| "unpacks dec crc (i # is) buf at =
     (case decode dec crc (drop at buf) of
        Record record consumed \<Rightarrow> if record = sample_record i then unpacks dec crc is buf (at + consumed) else None
      | _ \<Rightarrow> None)"

definition records_pack_back_to_back :: "encoder \<Rightarrow> decoder \<Rightarrow> checksum \<Rightarrow> bool" where
  "records_pack_back_to_back enc dec crc \<longleftrightarrow>
     (case pack enc crc [0..<5] of Inl e \<Rightarrow> False | Inr buf \<Rightarrow> unpacks dec crc [0..<5] buf 0 = Some (length buf))"

definition a_truncated_record_reads_as_incomplete_at_every_cut :: "encoder \<Rightarrow> decoder \<Rightarrow> checksum \<Rightarrow> bool" where
  "a_truncated_record_reads_as_incomplete_at_every_cut enc dec crc \<longleftrightarrow>
     (case encode_into enc crc (sample_record 1) [] of
        Inl e \<Rightarrow> False
      | Inr buf \<Rightarrow> list_all (\<lambda>cut. decode dec crc (take cut buf) = Incomplete) [0..<length buf])"

definition flip :: "nat \<Rightarrow> byte list \<Rightarrow> byte list" where
  "flip i buf = buf[i := xor (buf ! i) 128]"

definition a_flipped_bit_in_the_payload_is_caught :: "encoder \<Rightarrow> decoder \<Rightarrow> checksum \<Rightarrow> bool" where
  "a_flipped_bit_in_the_payload_is_caught enc dec crc \<longleftrightarrow>
     (case encode_into enc crc (sample_record 3) [] of
        Inl e \<Rightarrow> False
      | Inr buf \<Rightarrow> decode dec crc (flip header_len buf) = Incomplete)"

definition not_a_record :: "byte list" where
  "not_a_record = map (\<lambda>c. of_nat (of_char c)) ''this is not a log record''"

definition intact_bytes_we_cannot_read_are_not_mistaken_for_an_end_of_log :: "decoder \<Rightarrow> checksum \<Rightarrow> bool" where
  "intact_bytes_we_cannot_read_are_not_mistaken_for_an_end_of_log dec crc \<longleftrightarrow>
     (let payload = not_a_record;
          buf = [];
          buf = buf @ to_le_bytes (length payload);
          buf = buf @ to_le_bytes (crc payload);
          buf = buf @ payload
      in case decode dec crc buf of Malformed why \<Rightarrow> True | _ \<Rightarrow> False)"

definition a_garbage_length_does_not_become_a_giant_allocation :: "decoder \<Rightarrow> checksum \<Rightarrow> bool" where
  "a_garbage_length_does_not_become_a_giant_allocation dec crc \<longleftrightarrow>
     (let buf = replicate header_len 0;
          buf = to_le_bytes 4294967295 @ drop 4 buf
      in decode dec crc buf = Incomplete)"

definition segment_names_sort_lexically_into_numeric_order :: bool where
  "segment_names_sort_lexically_into_numeric_order \<longleftrightarrow>
     (let a = segment_name 2; b = segment_name 10 in a < b \<and> a = ''wal-00000002.log'')"

definition only_well_formed_segment_names_are_recognised :: bool where
  "only_well_formed_segment_names_are_recognised \<longleftrightarrow>
     segment_index ''wal-00000007.log'' = Some 7 \<and> segment_index ''wal-7.log'' = None \<and>
     segment_index ''snapshot-00000007.snap'' = None \<and> segment_index ''wal-0000000x.log'' = None"

definition snapshot_names_sort_newest_first_by_sequence :: bool where
  "snapshot_names_sort_newest_first_by_sequence \<longleftrightarrow>
     (let name = snapshot_name 42 in
      name = ''snapshot-00000000000000000042.snap'' \<and> snapshot_seq name = Some 42 \<and>
      (let a = snapshot_name 9; b = snapshot_name 10 in a < b))"

definition a_partial_file_is_not_mistaken_for_a_snapshot :: bool where
  "a_partial_file_is_not_mistaken_for_a_snapshot \<longleftrightarrow>
     snapshot_seq ''snapshot-00000000000000000042.snap.partial'' = None"

section \<open>The engine\<close>

text \<open>\<open>instant\<close> is the monotonic clock at the first reading and \<open>later\<close> at the second.\<close>

definition a_resumed_clock_continues_where_the_last_command_left_off :: "int \<Rightarrow> int \<Rightarrow> bool" where
  "a_resumed_clock_continues_where_the_last_command_left_off instant later \<longleftrightarrow>
     (let clock = clock_resume instant (from_secs 30); n = clock_now clock later
      in from_secs 30 \<le> n \<and> n < from_secs 31)"

definition the_window_deadline_is_the_end_of_the_current_window_not_a_width_from_now :: bool where
  "the_window_deadline_is_the_end_of_the_current_window_not_a_width_from_now \<longleftrightarrow>
     (let width = from_millis 1; n = 4666666 in
      window_close n width = Some 5000000 \<and> window_close 5000000 width = Some 6000000)"

definition batching_off_means_no_window_deadline :: bool where
  "batching_off_means_no_window_deadline \<longleftrightarrow> window_close 7 0 = None"

definition a_full_queue_sheds_rather_than_blocking :: bool where
  "a_full_queue_sheds_rather_than_blocking \<longleftrightarrow>
     (case submit 2 False Tick [] of
        Inl e \<Rightarrow> False
      | Inr rx \<Rightarrow>
          (case submit 2 False Tick rx of
             Inl e \<Rightarrow> False
           | Inr rx \<Rightarrow> handle_depth rx = 2 \<and> submit 2 False Tick rx = Inl (Busy reject_reason.Busy) \<and> handle_depth rx = 2))"

definition a_dead_engine_is_reported_as_stopped_not_as_busy :: bool where
  "a_dead_engine_is_reported_as_stopped_not_as_busy \<longleftrightarrow>
     (case submit 1 True Tick [] of Inl (EngineStopped why) \<Rightarrow> True | _ \<Rightarrow> False)"

definition replication_config :: auction_config where
  "replication_config = new_config (AuctionId 3) 100 stepped_fixture"

text \<open>The thread of the standby runs until the waiter looks; by then it has applied what is queued.\<close>

definition a_standby_confirms_only_what_it_has_applied :: bool where
  "a_standby_confirms_only_what_it_has_applied \<longleftrightarrow>
     (let replica = replica_start (new_state replication_config);
          record = \<lparr>lr_seq = 0, lr_ts = 0, lr_cmd = Open\<rparr>;
          replica = replica_send record replica
      in case standby_run (lp_queue replica) (lp_standby replica) of
           Inl e \<Rightarrow> False
         | Inr sb \<Rightarrow>
             (let replica = replica\<lparr>lp_queue := [], lp_standby := sb\<rparr> in
              replica_wait 0 (from_secs 5) [None, replica_confirmed_seq replica] = Inr () \<and>
              replica_confirmed_seq replica = Some 0 \<and> status (replica_state replica) = Live))"

definition a_silent_standby_is_declared_lost_rather_than_waited_on_forever :: "nat \<Rightarrow> bool" where
  "a_silent_standby_is_declared_lost_rather_than_waited_on_forever looks \<longleftrightarrow>
     (let replica = replica_start (new_state replication_config) in
      case replica_wait 0 (from_millis 50) (replicate looks (replica_confirmed_seq replica)) of
        Inl err \<Rightarrow> rl_seq err = 0
      | Inr u \<Rightarrow> False)"

section \<open>The tests pass\<close>

lemma proto_tests_pass:
  "sequence_is_gapless_and_increasing" "consideration_rejects_overflow_instead_of_wrapping"
  "fill_never_exceeds_available" "oversubtraction_floors_at_zero_rather_than_wrapping"
  "clock_price_stays_within_published_bounds" "bids_within_one_window_share_an_index" "zero_width_disables_batching"
  by code_simp+

lemma schedule_tests_pass:
  "stepped_price_holds_flat_within_a_step" "linear_price_falls_continuously_with_subsecond_precision"
  "price_never_falls_below_the_floor" "time_to_reach_lands_at_or_below_the_target"
  "time_to_reach_is_the_earliest_such_instant" "a_target_below_the_floor_is_never_reached"
  "a_flat_schedule_never_moves" "at_floor_reports_the_end_of_the_clock"
  by code_simp+

lemma fold_descends:
  assumes "\<And>x y. x \<in> set xs \<Longrightarrow> y \<in> set xs \<Longrightarrow> x \<le> y \<Longrightarrow> f y \<le> f x" and "sorted xs" and "\<forall>x \<in> set xs. f x \<le> (p :: int)"
  shows "fold (\<lambda>t (prev, ok). (f t, ok \<and> f t \<le> prev)) xs (p, True) = (last (p # map f xs), True)"
  using assms
proof (induction xs arbitrary: p)
  case (Cons x xs)
  have "fold (\<lambda>t (prev, ok). (f t, ok \<and> f t \<le> prev)) xs (f x, True) = (last (f x # map f xs), True)"
    using Cons.prems by (intro Cons.IH) auto
  then show ?case using Cons.prems(3) by simp
qed simp

lemma fixtures_ok: "schedule_ok stepped_fixture" "schedule_ok linear_fixture"
  by code_simp+

lemma from_secs_mono: "a \<le> b \<Longrightarrow> from_secs a \<le> from_secs b"
  by (auto simp: from_secs_def u64_saturating_mul_def)

lemma monotone_test_passes: "price_is_monotonically_non_increasing"
proof -
  have "fold (\<lambda>t (prev, ok). (price_at s t, ok \<and> price_at s t \<le> prev)) (map from_secs [0..<120]) (i64_max, True) =
      (price_at s (from_secs 119), True)" if s: "schedule_ok s" for s
  proof -
    have "price_at s t \<le> i64_max" for t
      using price_at_le_start [OF s, of t] s by (simp add: schedule_ok_def i64_ok_def)
    moreover have "sorted (map from_secs [0..<120])"
      by (rule sorted_map_mono) (auto intro: from_secs_mono simp: mono_on_def)
    moreover have "last (i64_max # map (price_at s) (map from_secs [0..<120])) = price_at s (from_secs 119)"
      by (simp add: last_map last_upt)
    ultimately show ?thesis
      using fold_descends [of "map from_secs [0..<120]" "price_at s" i64_max] price_at_descends [OF s] by simp
  qed
  then show ?thesis using fixtures_ok by (simp add: price_is_monotonically_non_increasing_def del: upt.simps)
qed

lemma ladder_tests_pass:
  "a_resting_bid_competes_at_its_limit_not_the_clock" "defaults_match_the_rules_document fresh_id"
  "only_bids_the_clock_has_reached_are_triggered fresh" "ties_at_a_price_resolve_in_arrival_order fresh"
  "a_partial_fill_keeps_its_place_at_the_front fresh" "cancelling_frees_the_units_and_prunes_the_level fresh"
  by code_simp+

lemma wrong_participant_test_passes: "fresh 0 \<noteq> fresh 1 \<Longrightarrow> a_cancel_from_the_wrong_participant_does_nothing fresh"
  by (simp add: a_cancel_from_the_wrong_participant_does_nothing_def bid_fixture_def ladder_remove_def ladder_insert_def
      ladder_new_def ladder_len_def)

text \<open>The tests of the log, for every codec that can encode the samples.\<close>

lemma round_trip_test_passes:
  assumes "codec_ok enc dec crc" and "encodable enc (sample_record 7)"
  shows "a_record_survives_a_round_trip enc dec crc"
proof -
  obtain p where p: "enc (sample_record 7) = Some p" using assms(2) by (auto simp: encodable_def)
  then show ?thesis
    using encode_into_frame [of enc "sample_record 7" p crc "[]"] payload_u32 codec_okD(1) [OF assms(1) p]
      decode_frame [OF assms(1) p, of "[]"]
    by (simp add: a_record_survives_a_round_trip_def)
qed

lemma pack_frames:
  assumes "codec_ok enc dec crc" and "\<forall>i \<in> set sqs. encodable enc (sample_record i)"
  shows "fold (\<lambda>i buf. case buf of Inl e \<Rightarrow> Inl e | Inr buf \<Rightarrow> encode_into enc crc (sample_record i) buf) sqs (Inr out) =
    Inr (out @ frames enc crc (map sample_record sqs))"
  using assms(2)
proof (induction sqs arbitrary: out)
  case (Cons i sqs)
  obtain p where p: "enc (sample_record i) = Some p" using Cons.prems by (auto simp: encodable_def)
  show ?case
    using Cons encode_into_frame [of enc "sample_record i" p crc out] payload_u32 codec_okD(1) [OF assms(1) p] p
    by (simp add: frame_def)
qed simp

lemma unpacks_frames:
  assumes "codec_ok enc dec crc" and "\<forall>i \<in> set sqs. encodable enc (sample_record i)"
  shows "unpacks dec crc sqs (out @ frames enc crc (map sample_record sqs)) (length out) =
    Some (length (out @ frames enc crc (map sample_record sqs)))"
  using assms(2)
proof (induction sqs arbitrary: out)
  case (Cons i sqs)
  obtain p where p: "enc (sample_record i) = Some p" using Cons.prems by (auto simp: encodable_def)
  show ?case
    using Cons.IH [of "out @ frame_of crc p"] Cons.prems decode_frame [OF assms(1) p] p
    by (simp add: add.assoc frame_def)
qed simp

lemma pack_test_passes:
  assumes "codec_ok enc dec crc" and "\<forall>i \<in> set [0..<5]. encodable enc (sample_record i)"
  shows "records_pack_back_to_back enc dec crc"
  using pack_frames [OF assms, of "[]"] unpacks_frames [OF assms, of "[]"]
  by (simp add: records_pack_back_to_back_def pack_def del: upt.simps)

lemma truncation_test_passes:
  assumes "codec_ok enc dec crc" and "encodable enc (sample_record 1)"
  shows "a_truncated_record_reads_as_incomplete_at_every_cut enc dec crc"
proof -
  obtain p where p: "enc (sample_record 1) = Some p" using assms(2) by (auto simp: encodable_def)
  have ok: "payload_ok p" "u32_ok (crc p)" using codec_okD [OF assms(1)] p by blast+
  have "decode dec crc (take cut (frame_of crc p)) = Incomplete" if "cut < length (frame_of crc p)" for cut
  proof (rule decode_torn [where crc = crc, OF ok])
    have "take cut (frame_of crc p) \<noteq> frame_of crc p" using arg_cong [of "take cut (frame_of crc p)" _ length] that by fastforce
    then show "strict_prefix (take cut (frame_of crc p)) (frame_of crc p)"
      by (simp add: strict_prefix_def take_is_prefix)
  qed
  then show ?thesis
    using encode_into_frame [where enc = enc and r = "sample_record 1" and crc = crc and out = "[]", OF p payload_u32 [OF ok(1)]]
    by (simp add: a_truncated_record_reads_as_incomplete_at_every_cut_def list_all_iff del: length_frame)
qed

lemma flip_test_passes:
  assumes "codec_ok enc dec crc" and "enc (sample_record 3) = Some p" and "crc (flip 0 p) \<noteq> crc p"
  shows "a_flipped_bit_in_the_payload_is_caught enc dec crc"
proof -
  have ok: "payload_ok p" "u32_ok (crc p)" using codec_okD [OF assms(1)] assms(2) by blast+
  have f: "flip header_len (frame_of crc p) = (to_le_bytes (length p) @ to_le_bytes (crc p)) @ flip 0 p"
    by (simp add: flip_def frame_of_def header_len_def list_update_append nth_append)
  have len: "length (flip 0 p) = length p" by (simp add: flip_def)
  have "decode dec crc ((to_le_bytes (length p) @ to_le_bytes (crc p)) @ flip 0 p) = Incomplete"
    using payload_u32 [OF ok(1)] ok(2) assms(3) len by (subst decode_header [of _ "length p" "crc p"]) (simp_all add: header_len_def)
  then have "decode dec crc (flip header_len (frame_of crc p)) = Incomplete" by (simp only: f)
  then show ?thesis
    using encode_into_frame [where enc = enc and r = "sample_record 3" and crc = crc and out = "[]", OF assms(2) payload_u32 [OF ok(1)]]
    by (simp add: a_flipped_bit_in_the_payload_is_caught_def)
qed

lemma unreadable_test_passes:
  assumes "u32_ok (crc not_a_record)" and "dec not_a_record = Inl why"
  shows "intact_bytes_we_cannot_read_are_not_mistaken_for_an_end_of_log dec crc"
proof -
  define payload where "payload = not_a_record"
  have ok: "payload_ok payload" by (simp add: payload_def not_a_record_def payload_ok_def max_record_len_def)
  have "decode dec crc (to_le_bytes (length payload) @ to_le_bytes (crc payload) @ payload) = Malformed why"
    using decode_header [of "to_le_bytes (length payload) @ to_le_bytes (crc payload) @ payload" "length payload" "crc payload" dec crc]
      payload_u32 [OF ok] ok assms by (simp add: payload_def [symmetric] payload_ok_def header_len_def)
  then show ?thesis by (simp add: payload_def [symmetric] intact_bytes_we_cannot_read_are_not_mistaken_for_an_end_of_log_def)
qed

lemma garbage_test_passes: "a_garbage_length_does_not_become_a_giant_allocation dec crc"
proof -
  have "from_le_bytes (to_le_bytes 4294967295) = 4294967295" by (rule from_to_le_bytes) (simp add: u32_ok_def)
  then show ?thesis
    by (simp add: a_garbage_length_does_not_become_a_giant_allocation_def decode_def header_len_def max_record_len_def)
qed

lemma name_tests_pass:
  "segment_names_sort_lexically_into_numeric_order" "only_well_formed_segment_names_are_recognised"
  "snapshot_names_sort_newest_first_by_sequence" "a_partial_file_is_not_mistaken_for_a_snapshot"
  by code_simp+

lemma clock_test_passes:
  "instant \<le> later \<Longrightarrow> later < instant + 1000000000 \<Longrightarrow>
     a_resumed_clock_continues_where_the_last_command_left_off instant later"
  by (simp add: a_resumed_clock_continues_where_the_last_command_left_off_def clock_resume_def clock_now_def from_secs_def
      u64_saturating_mul_def u64_max_def nat_less_iff nat_le_eq_zle le_nat_iff)

lemma engine_tests_pass:
  "the_window_deadline_is_the_end_of_the_current_window_not_a_width_from_now" "batching_off_means_no_window_deadline"
  "a_full_queue_sheds_rather_than_blocking" "a_dead_engine_is_reported_as_stopped_not_as_busy"
  "a_standby_confirms_only_what_it_has_applied"
  by code_simp+

lemma silent_standby_test_passes: "a_silent_standby_is_declared_lost_rather_than_waited_on_forever looks"
proof -
  have "replica_wait 0 t (replicate n None) = Inl \<lparr>rl_seq = 0, rl_timeout = t\<rparr>" for n t
    by (induction n) (simp_all add: replica_confirmed_def)
  then show ?thesis
    by (simp add: a_silent_standby_is_declared_lost_rather_than_waited_on_forever_def replica_start_def standby_start_def
        replica_confirmed_seq_def replica_get_def)
qed

section \<open>A codec for the samples\<close>

definition sample_enc :: encoder where
  "sample_enc r = (if lr_seq r < 256 \<and> r = sample_record (lr_seq r) then Some [of_nat (lr_seq r)] else None)"

definition sample_dec :: decoder where
  "sample_dec bytes = (case bytes of [b] \<Rightarrow> Inr (sample_record (unat b)) | _ \<Rightarrow> Inl ''not a record'')"

definition sample_crc :: checksum where
  "sample_crc bytes = (case bytes of [] \<Rightarrow> 0 | b # _ \<Rightarrow> unat b)"

lemma sample_codec_ok: "codec_ok sample_enc sample_dec sample_crc"
proof -
  have "unat (of_nat n :: byte) = n" if "n < 256" for n using that by (simp add: unat_of_nat)
  moreover have "unat (b :: byte) < 4294967296" for b using unsigned_less [where w = b and 'a = nat] by simp
  ultimately show ?thesis
    by (auto simp: codec_ok_def sample_enc_def sample_dec_def sample_crc_def max_record_len_def u32_ok_def
        split: if_splits list.splits)
qed

lemma sample_encodes: "i < 256 \<Longrightarrow> sample_enc (sample_record i) = Some [of_nat i]"
  by (simp add: sample_enc_def sample_record_def)

end
