(* ===== verification/Spec2Isabelle.thy ===== *)
theory Spec2Isabelle
  imports Deviations Crash_Victim Shutdown Waiting Replication Display_Text Widths Projection Wal_Files Unit_Tests
begin

text \<open>
  \<^bold>\<open>Dutch auction: a verification library\<close>

  The repository is a descending-price auction with a write-ahead log. A deterministic state machine
  (\<open>crates/auction-core\<close>) turns commands into events. An engine (\<open>crates/auction-engine\<close>) gives every command a
  sequence number and an instant, applies it, and hands the record to a log (\<open>crates/auction-wal\<close>) that a commit
  thread writes and syncs in groups. A participant gets the reply to a command only after its record is durable and,
  in synchronous mode, confirmed by a standby. A restart reads a snapshot and the log and goes on. The theories follow
  that order; every definition is a translation of the source lines it names, and what the sources call and do not
  contain is an argument.

  \<^bold>\<open>Theories and what they model\<close>

  \<^item> \<open>Prelude\<close>: the machine integers (\<open>u64\<close>, \<open>i64\<close>, \<open>u128\<close>, \<open>i128\<close>) with what Rust does at their
    boundaries, and list facts. \<open>BTree_Map\<close>: \<open>BTreeMap\<close> as a sorted association list, behind a locale of its laws.
  \<^item> \<open>Proto\<close>: \<open>auction-proto\<close>, identifiers, money, quantities, time, rejections, status. \<open>Display_Text\<close>: what its
    \<open>Display\<close> implementations and the error types print.
  \<^item> \<open>Schedule\<close>, \<open>Messages\<close>, \<open>Ladder\<close>: \<open>schedule.rs\<close>, \<open>config.rs\<close> with \<open>command.rs\<close> and \<open>event.rs\<close>,
    and \<open>ladder.rs\<close>.
  \<^item> \<open>Matching\<close> and \<open>Auction\<close>: \<open>state.rs\<close>. The record \<open>auction_state\<close> has the fields of
    \<open>AuctionState\<close>; each handler (\<open>on_open\<close>, \<open>on_bid\<close>, \<open>on_cancel_resting\<close>, \<open>on_tick\<close>, \<open>on_cancel\<close>) and each of its parts
    (\<open>flush_window\<close>, \<open>clear\<close>, \<open>reserve\<close>, \<open>set_outcome\<close>, ...) is a function on it, and \<open>apply_cmd\<close> is \<open>AuctionState::apply\<close>.
    \<open>None\<close> is the sequence assertion that panics.
  \<^item> \<open>Auction_Shape\<close>, \<open>Auction_Steps\<close>, \<open>Supply\<close>, \<open>Pricing\<close>, \<open>Collateral\<close>, \<open>Outcomes\<close>: the invariants of the
    state machine, one subject each; \<open>Runs\<close> has them for the states a log leaves, and \<open>Widths\<close> that every integer of such a
    state is a value of its Rust type. \<open>Sale_Spec\<close>: the abstract sale the machine refines. \<open>Projection\<close>: a reader of
    the event stream, whose book of the auction (\<open>hear\<close>, a specification and no code) the events keep exact.
  \<^item> \<open>Wal_Record\<close>, \<open>Wal_Segment\<close>, \<open>Wal_Log\<close>, \<open>Wal_Replay\<close>, \<open>Wal_Commit\<close>: \<open>record.rs\<close> with \<open>error.rs\<close>,
    \<open>segment.rs\<close>, \<open>wal.rs\<close>, \<open>snapshot.rs\<close> with \<open>replay.rs\<close>, and \<open>commit.rs\<close>. \<open>Crash_Victim\<close>: the driver of the crash
    tests, \<open>bin/crash_victim.rs\<close>, through any number of crashes. These work on the list of segment files in index order;
    \<open>Wal_Files\<close> is \<open>Wal::open\<close> and \<open>read_all\<close> on the directory itself, with the listing by \<open>segments\<close> and its eight-digit
    names, and shows that the list is an abstraction of the directory.
  \<^item> \<open>Engine\<close>: \<open>clock.rs\<close>, \<open>ingress.rs\<close>, the loops of \<open>engine.rs\<close> and the standby of \<open>replication.rs\<close>, each thread a
    function on its own state. \<open>System\<close>: all threads and channels of \<open>Auction::open_inner\<close> as the step relation
    \<open>system_step\<close>. \<open>Restart\<close>: power losses and restarts, \<open>system_run\<close>. \<open>Shutdown\<close>: \<open>Auction::shutdown\<close>, the threads joined
    in order. \<open>Waiting\<close>: the loop \<open>next\<close> with its spinning and parking. \<open>Replication\<close>: \<open>LocalReplica\<close> with its operations.
    \<open>Handles\<close>: what \<open>Committer\<close>, \<open>AuctionHandle\<close> and \<open>Auction\<close> offer to their users.
  \<^item> \<open>Examples\<close>: the concrete auction, log and runs the witnesses use. \<open>Unit_Tests\<close>: the unit tests of the sources,
    translated and run on the model, which checks the definitions on the authors' own fixed inputs and is no property
    (\<open>ids_are_distinct\<close> is left out, as identifiers are random). \<open>Deviations\<close>: where the code does something else than its comments or documents say.

  \<^bold>\<open>What the lemmas show\<close>

  Every invariant of the state machine is proved for one command and lifted to all runs by induction over the log
  (\<open>run\<close>). \<open>Auction_Shape\<close> carries the widths and the shape of the window and the ladder, so that no
  unchecked operation of the code wraps in a reachable state. The laws of a watermark and of an ordered map are locales,
  interpreted on the committer's and the standby's watermark and on the map the code uses. The log is tied to the state
  by one chain: \<open>log_history\<close> says which records a log holds, \<open>commit_inv\<close> that the commit thread is writing exactly
  what was submitted, \<open>engine_consistent\<close> that what was submitted replays to the engine's state, and
  \<open>system_inv\<close> that the acknowledgements, the snapshots and the standby agree with both. It is kept by every step of the
  system, by every power loss and by every restart in a life without stale snapshots, and the properties about durability
  are corollaries of it.

  \<^bold>\<open>Stale snapshots\<close>

  The properties about lives with restarts (\<open>no_acknowledgement_is_taken_back\<close>, \<open>restart_is_exact\<close>,
  \<open>log_determines_state\<close>, \<open>engine_never_panics\<close>, \<open>acks_in_order_and_durable\<close>, \<open>failover_loses_nothing\<close>,
  \<open>shutdown_answers_everyone\<close>, \<open>broadcast_tells_the_book\<close>) have one restriction, the first argument of \<open>system_run\<close>. A restart that finds a
  snapshot ahead of the log sets it aside and leaves the file where it is (\<open>sy_aside\<close> remembers which). Such restarts are
  part of the lives. What \<open>no_stale_snapshot\<close> excludes is that a restart finds a file that an earlier one set aside, or
  a usable snapshot beside an empty log. There the code can restart on a state the log does not give, and the
  properties are false: \<open>stale_snapshot_wins\<close> and \<open>snapshot_without_log\<close> in \<open>Deviations\<close> are the counterexamples.

  \<^bold>\<open>Conventions and bounds\<close>

  Unsigned integers are \<open>nat\<close> and signed ones \<open>int\<close>, and every operation that can leave its width is one of the functions
  of \<open>Prelude\<close>. Panics are \<open>None\<close>. Errors are the left side of a sum. Recursion over bytes (\<open>read_from\<close>) is on the
  length of the rest, which every whole record shortens. \<open>writer_run\<close> makes as many rounds as its list of system-call
  outcomes has elements; the theorems say how many are enough (one more than there are messages). Time passes by an
  argument: the instant at which a thread looks at the clock. The index of the active segment is not wrapped at
  \<open>2 ^ 32\<close>, and from \<open>10 ^ 8\<close> on a segment's name is no longer recognized, so \<open>Wal_Files\<close> and what rests on it ask for fewer.
  \<open>clock_resume_checked\<close> is \<open>Clock::resume\<close> with the panic of \<open>Instant - Duration\<close> on a platform whose instants start at
  \<open>earliest\<close>; the engine's other definitions use \<open>clock_resume\<close>, its value when it does not panic.

  A power loss keeps the sealed segments, a prefix of the active one with all that was synced, and any subset of the
  files that were ever in the directory as snapshots. System calls fail when an argument says so, and a failed write
  leaves a prefix of what was written. Sequence numbers run out after \<open>2 ^ 64 - 1\<close> commands, and the theorems about
  progress name that bound.

  \<^bold>\<open>Arguments of the model\<close>

  The serializers (\<open>serde_json\<close>, \<open>bincode\<close>), the checksum (\<open>crc32fast\<close>) and the text of identifiers
  (\<open>uuid\<close>) are arguments, with round trips as hypotheses where a theorem needs them (\<open>codec_ok\<close>,
  \<open>snapshot_codec_ok\<close>); \<open>Examples\<close> instantiates them with a concrete codec. Of the operating system the model
  has the directory, the bytes of the files and which of them are on stable storage.

  \<^bold>\<open>Not modelled\<close>

  Module declarations and re-exports, the creation of threads, metrics, logging, the random choice of identifiers, and the
  layout of \<open>serde\<close>'s formats. The gateway, the projector and the load generator of the repository are scaffolds without
  code. The broadcast channel is modelled as the list of what was sent, so a subscriber that lags and loses messages is
  outside the model. \<open>measure_sync_cost\<close> is in \<open>Handles\<close>, with the time that passed as an argument.
\<close>

section \<open>The auction\<close>

lemmas demo_is_run = demo_config_ok demo_log_width demo_run
lemmas demo_mid_is_run = demo_config_ok demo_mid_width demo_mid_run

text \<open>
  C1: supply is conserved (I1). In every state a log can lead to, the units sold, as the code adds them up,
  and the units left make up the configured supply exactly: nothing is oversold and nothing is lost, whatever
  the interleaving of bids, ticks, cancellations and clearing.
\<close>

theorem supply_is_conserved:
  assumes "config_ok c" and "log_width log" and "run log (new_state c) = Some (s, ev)"
  shows "total_filled s + supply_remaining s = total_supply c"
  using units_total [OF run_units [OF assms] run_shape(1) [OF assms]] run_shape(2) [OF assms] by simp

theorem supply_is_conserved_witness:
  "total_filled demo_end + supply_remaining demo_end = total_supply demo_config"
  by (rule supply_is_conserved [OF demo_is_run])

text \<open>
  C2: one price for all (I2). Once an auction has a clearing price, every fill is at exactly that price, and
  the price lies between the floor and the start price.
\<close>

theorem cleared_at_one_price:
  assumes "config_ok c" and "log_width log" and "run log (new_state c) = Some (s, ev)"
    and "clearing_price s = Some p"
  shows "(\<forall>f \<in> set (fills s). f_price f = p) \<and> floor_price c \<le> p \<and> p \<le> start_price c"
  using run_clearing_price [OF assms] run_priced [OF assms(1-3)] assms(4) by (auto simp: priced_def uniform_price_def)

theorem cleared_at_one_price_witness:
  "list_all (\<lambda>f. f_price f = 900) (fills demo_end) \<and> floor_price demo_config \<le> 900 \<and> 900 \<le> start_price demo_config"
  using cleared_at_one_price [OF demo_is_run demo_end_facts(2)] by (simp add: list_all_iff)

text \<open>
  C3: the clearing price is earned (I3). An auction is cleared exactly when it has a clearing price. That
  price is either the price of a batch window the clock went through, with the supply all sold, or
  the floor price, with the clock at its floor.
\<close>

theorem clearing_price_is_earned:
  assumes "config_ok c" and "log_width log" and "run log (new_state c) = Some (s, ev)"
  shows "(case clearing_price s of
       None \<Rightarrow> status s \<noteq> status.Cleared
     | Some p \<Rightarrow> status s = status.Cleared \<and>
         ((supply_remaining s = 0 \<and> (\<exists>t \<le> now s. p = snd (window_bounds s t))) \<or>
          (p = floor_price c \<and> (\<exists>t \<le> now s. at_floor (schedule c) t))))"
proof -
  have "priced s" and c: "config s = c" using run_priced [OF assms] run_shape(2) [OF assms] .
  moreover have "status s = status.Cleared \<longleftrightarrow> clearing_price s \<noteq> None"
    using run_shape(1) [OF assms] by (simp add: shape_defs)
  ultimately show ?thesis
    by (auto simp: priced_def price_earned_def sold_out_at_def floored_at_def split: option.splits)
qed

theorem clearing_price_is_earned_witness:
  "status demo_end = status.Cleared \<and>
   ((supply_remaining demo_end = 0 \<and> (\<exists>t \<le> now demo_end. 900 = snd (window_bounds demo_end t))) \<or>
    (900 = floor_price demo_config \<and> (\<exists>t \<le> now demo_end. at_floor (schedule demo_config) t)))"
  using clearing_price_is_earned [OF demo_is_run] by (simp add: demo_end_facts)

text \<open>
  C4: nobody spends more than was granted (I9). With non-negative prices, what a participant owes for all
  their fills, at whatever prices they stand, never exceeds \<open>L\<close>, the largest limit the log ever grants
  that participant.
\<close>

theorem spending_within_grant:
  assumes "config_ok c" and "log_width log" and "run log (new_state c) = Some (s, ev)"
    and "0 \<le> floor_price c" and "\<forall>pt. 0 \<le> L pt" and "list_all (within_limits L \<circ> entry_cmd) log"
  shows "(\<Sum>f\<leftarrow>filter (\<lambda>f. f_participant f = pt) (fills s). f_price f * int (f_qty f)) \<le> L pt"
proof -
  have acc: "accounts_ok L s" by (rule run_solvent [OF assms])
  have eq: "(\<Sum>f\<leftarrow>filter (\<lambda>f. f_participant f = pt) fs. f_price f * int (f_qty f)) = owed pt (fill_claims fs)" for fs
    by (induction fs) (auto simp: amount_for_def fill_claim_def)
  have ok: "\<forall>x \<in># claims s. claim_ok x" using acc by (simp add: accounts_ok_def backed_def)
  then have "0 \<le> owed pt (pending_claims (window_bids s))" "0 \<le> owed pt (resting_claims (ladder_bids (resting s)))"
    by (auto intro!: owed_nonneg simp: claims_def)
  moreover have "owed pt (claims s) \<le> L pt" using acc by (simp add: accounts_ok_def)
  ultimately show ?thesis by (simp add: eq claims_def)
qed

lemma demo_limits_nonneg: "\<forall>pt. 0 \<le> demo_limits pt" and demo_floor: "0 \<le> floor_price demo_config"
  by (simp add: demo_limits_def) code_simp

theorem spending_within_grant_witness:
  "(\<Sum>f\<leftarrow>filter (\<lambda>f. f_participant f = alice) (fills demo_end). f_price f * int (f_qty f)) \<le> demo_limits alice"
  by (rule spending_within_grant [OF demo_is_run demo_floor demo_limits_nonneg demo_within_limits])



text \<open>
  C16: the auction implements an abstract sale. Seen as a sale (phase, units left, book of who bought how much at what
  price), every command of the state machine is a sequence of the four events of a sale: open, sell at a price not
  above any earlier one, close at one price for everybody once sold out or at the floor, withdraw.
\<close>

theorem auction_refines_sale:
  assumes "config_ok c" and "log_width log" and "run log (new_state c) = Some (s, ev0)"
    and "u64_ok ts" and "cmd_width cmd" and "apply_cmd sq ts cmd s = Some (s', ev)"
  shows "(sale_step (floor_price c))\<^sup>*\<^sup>* (sale_of s) (sale_of s')"
  using sale_apply [OF assms(6) run_shape(1) [OF assms(1-3)] run_priced [OF assms(1-3)] assms(4,5)]
    run_shape(2) [OF assms(1-3)] by simp

theorem auction_refines_sale_witness:
  "(sale_step (floor_price demo_config))\<^sup>*\<^sup>* (sale_of demo_mid) (sale_of demo_ticked)"
proof -
  obtain ev where a: "apply_cmd 5 3000000 Tick demo_mid = Some (demo_ticked, ev)" using demo_ticked_facts(1) by blast
  show ?thesis by (rule auction_refines_sale [OF demo_mid_is_run _ _ a]) (simp_all add: machine_int)
qed

text \<open>
  C20: a retry does nothing (I7). Once a key has an outcome, submitting it again, with whatever quantity and
  price and by whomever, changes nothing but what the passing of time changes (an elapsed window is
  closed), and is answered with the outcome the key then has.
\<close>

theorem retry_changes_nothing:
  assumes "config_ok c" and "log_width log" and "run log (new_state c) = Some (s, ev0)"
    and "outcomes s key \<noteq> None" and "apply_cmd sq ts (SubmitBid pt key q kind) s = Some (s', ev)"
  shows "\<exists>out closing. outcomes s' key = Some out \<and> ev = closing @ [Duplicate key out] \<and>
    close_elapsed_window (max ts (now s)) (s\<lparr>last_seq := Some sq, now := max ts (now s)\<rparr>, []) = (s', closing)"
proof -
  obtain out where "outcomes s' key = Some out" "s' = fst (advanced sq ts s)"
    "ev = snd (advanced sq ts s) @ [Duplicate key out]"
    using resubmit_aux [OF run_shape(1) [OF assms(1-3)] assms(4,5)] by blast
  then show ?thesis
    by (intro exI [of _ out] exI [of _ "snd (advanced sq ts s)"])
      (simp add: advanced_def stamped_def del: close_elapsed_window.simps)
qed

definition demo_retry :: machine where
  "demo_retry = the (apply_cmd 5 2000000 (SubmitBid bob key_a 1 (Take 1000)) demo_mid)"

lemma demo_retry_applies:
  "apply_cmd 5 2000000 (SubmitBid bob key_a 1 (Take 1000)) demo_mid = Some (fst demo_retry, snd demo_retry)"
proof -
  have "seq_accepted demo_mid 5" by (simp add: seq_accepted_def demo_mid_facts seq_next_def machine_int)
  then show ?thesis by (simp add: demo_retry_def apply_cmd_def Let_def)
qed

theorem retry_changes_nothing_witness:
  "\<exists>out closing. outcomes (fst demo_retry) key_a = Some out \<and> snd demo_retry = closing @ [Duplicate key_a out] \<and>
    close_elapsed_window (max 2000000 (now demo_mid))
      (demo_mid\<lparr>last_seq := Some 5, now := max 2000000 (now demo_mid)\<rparr>, []) = (fst demo_retry, closing)"
  by (rule retry_changes_nothing [OF demo_mid_is_run _ demo_retry_applies]) (simp add: demo_mid_facts)

text \<open>
  C21: outcomes and fills agree. A key buys at most once: no two fills, and no fill and a bid still in
  flight, share a key. A key is answered \<open>Filled\<close> with a quantity and a price exactly when there is a fill
  with that key, quantity and price, also after repricing; the merged outcome \<open>FilledThenCancelled\<close> never arises.
\<close>

theorem outcomes_agree_with_fills:
  assumes "config_ok c" and "log_width log" and "run log (new_state c) = Some (s, ev)"
  shows "distinct (live_keys s) \<and> distinct (map f_key (fills s)) \<and>
    (outcomes s key = Some (outcome.Filled q p) \<longleftrightarrow>
       (\<exists>f \<in> set (fills s). f_key f = key \<and> f_qty f = q \<and> f_price f = p)) \<and>
    outcomes s key \<noteq> Some (FilledThenCancelled q p)"
proof -
  have b: "booked s" by (rule run_booked [OF assms])
  have d: "distinct (live_keys s)" using b by (rule booked_distinct)
  then have "distinct (map f_key (fills s))" by (simp add: live_keys_def)
  then show ?thesis using d booked_filled [OF b] booked_fill [OF b] booked_never_ftc [OF b] by blast
qed

theorem outcomes_agree_with_fills_witness:
  "distinct (map f_key (fills demo_end)) \<and> outcomes demo_end key_b = Some (outcome.Filled 5 900) \<and>
   (\<exists>f \<in> set (fills demo_end). f_key f = key_b \<and> f_qty f = 5 \<and> f_price f = 900)"
  using outcomes_agree_with_fills [OF demo_is_run, of key_b 5 900] demo_end_facts(5) by blast

text \<open>
  C22: every bid is answered (I10). A submission, whatever it asks for and whatever the auction's state, leaves
  an outcome for its key and produces an event that answers it; so does a request to withdraw a
  resting bid produce an event for its key.
\<close>

theorem every_bid_is_answered:
  assumes "config_ok c" and "log_width log" and "run log (new_state c) = Some (s, ev0)" and "u64_ok ts"
    and "cmd_width (SubmitBid pt key q kind)" and "apply_cmd sq ts (SubmitBid pt key q kind) s = Some (s', ev)"
    and "apply_cmd sq ts (CancelResting pt' key') s = Some (s'', ev')"
  shows "outcomes s' key \<noteq> None \<and> list_ex (answers key) ev \<and> list_ex (answers key') ev'"
  using submit_answered_aux [OF run_shape(1) [OF assms(1-3)] assms(4-6)] cancel_resting_answered_aux [OF assms(7)]
  by (simp add: answered_def)

definition demo_withdraw :: machine where
  "demo_withdraw = the (apply_cmd 5 2000000 (CancelResting alice key_a) demo_mid)"

lemma demo_withdraw_applies:
  "apply_cmd 5 2000000 (CancelResting alice key_a) demo_mid = Some (fst demo_withdraw, snd demo_withdraw)"
proof -
  have "seq_accepted demo_mid 5" by (simp add: seq_accepted_def demo_mid_facts seq_next_def machine_int)
  then show ?thesis by (simp add: demo_withdraw_def apply_cmd_def Let_def)
qed

theorem every_bid_is_answered_witness:
  "outcomes (fst demo_retry) key_a \<noteq> None \<and> list_ex (answers key_a) (snd demo_retry) \<and>
   list_ex (answers key_a) (snd demo_withdraw)"
  by (rule every_bid_is_answered [OF demo_mid_is_run _ _ demo_retry_applies demo_withdraw_applies])
    (simp_all add: machine_int)

text \<open>
  An ending settles every bid. When the auction no longer takes bids, no bid is queued or resting, and
  a key that did not buy was rejected or cancelled: nobody is left without a final answer.
\<close>

lemma ending_settles_every_bid:
  assumes "config_ok c" and "log_width log" and "run log (new_state c) = Some (s, ev)" and "is_terminal (status s)"
  shows "window s = None \<and> ladder_bids (resting s) = [] \<and>
    (case outcomes s key of
       None \<Rightarrow> True
     | Some out \<Rightarrow> closed_outcome out \<or> (\<exists>f \<in> set (fills s). f_key f = key \<and> out = outcome.Filled (f_qty f) (f_price f)))"
proof -
  have sh: "shape s" and b: "booked s" using run_shape(1) [OF assms(1-3)] run_booked [OF assms(1-3)] .
  have nl: "\<not> accepts_bids (status s)" using assms(4) accepts_bids_not_terminal by blast
  then have "window s = None \<and> ladder_bids (resting s) = []" using sh by (simp add: shape_defs)
  moreover have "closed_outcome out \<or> (\<exists>f \<in> set (fills s). f_key f = key \<and> out = outcome.Filled (f_qty f) (f_price f))"
    if out: "outcomes s key = Some out" for out
  proof (cases "key \<in> set (map f_key (fills s))")
    case True
    then show ?thesis using booked_fill [OF b] out by fastforce
  next
    case False
    then show ?thesis using booked_final [OF b sh nl out] by blast
  qed
  ultimately show ?thesis by (auto split: option.splits)
qed

text \<open>
  C23: an ending is final and leaves nobody without an answer. When the auction no longer takes bids, no bid is queued or
  resting, and a key that did not buy was rejected or cancelled. Whatever commands follow, the status, the fills with their prices,
  the clearing price and the supply never change again.
\<close>

theorem ending_is_final:
  assumes "config_ok c" and "log_width log" and "run log (new_state c) = Some (s, ev)" and "is_terminal (status s)"
    and "log_width later" and "run later s = Some (s', ev')"
  shows "window s = None \<and> ladder_bids (resting s) = [] \<and>
    (case outcomes s key of
       None \<Rightarrow> True
     | Some out \<Rightarrow> closed_outcome out \<or> (\<exists>f \<in> set (fills s). f_key f = key \<and> out = outcome.Filled (f_qty f) (f_price f))) \<and>
    status s' = status s \<and> fills s' = fills s \<and> clearing_price s' = clearing_price s \<and>
    supply_remaining s' = supply_remaining s"
  using ending_settles_every_bid [OF assms(1-4), of key] terminal_run [OF assms(6) run_shape(1) [OF assms(1-3)] assms(5,4)]
  by (simp add: same_result_def)

definition demo_after :: "log_record list" where
  "demo_after =
     [\<lparr>lr_seq = 8, lr_ts = 2000000000, lr_cmd = SubmitBid bob (IdempotencyKey 12) 1 (Take 900)\<rparr>,
      \<lparr>lr_seq = 9, lr_ts = 3000000000, lr_cmd = Cancel\<rparr>]"

theorem ending_is_final_witness:
  "case run_records demo_after demo_end of
     None \<Rightarrow> False
   | Some (s', ev') \<Rightarrow> status s' = status.Cleared \<and> fills s' = fills demo_end \<and> clearing_price s' = Some 900 \<and>
       window demo_end = None \<and> (\<exists>f \<in> set (fills s'). f_key f = key_b \<and> outcome.Filled 5 900 = outcome.Filled (f_qty f) (f_price f))"
proof -
  have w: "log_width (map entry_of demo_after)" and g: "gapless demo_after" and h: "lr_seq (hd demo_after) = 8"
    by (simp_all add: demo_after_def entry_of_def seq_next_def machine_int)
  have "seq_next (the (last_seq demo_end)) = Some (lr_seq (hd demo_after))"
    unfolding h by (simp add: demo_end_facts seq_next_def machine_int)
  then obtain s' ev' where r: "run_records demo_after demo_end = Some (s', ev')"
    using run_from_seq [OF g _ run_shape(1) [OF demo_is_run] w] by auto
  have "is_terminal (status demo_end)" by (simp add: demo_end_facts)
  from ending_is_final [OF demo_is_run this w r, of key_b] show ?thesis
    by (simp add: r demo_end_facts)
qed

text \<open>
  Fills are numbered in order and the counter never wraps. The fills carry the numbers 0, 1, 2 and
  so on in the order they were made, each has at least one unit, the next number is their
  count, and the unchecked increment of that 64-bit counter never overflows.
\<close>

lemma fills_are_numbered:
  assumes "config_ok c" and "log_width log" and "run log (new_state c) = Some (s, ev)"
  shows "map f_id (fills s) = [0..<length (fills s)] \<and> next_fill_id s = length (fills s) \<and>
    list_all (\<lambda>f. 0 < f_qty f) (fills s) \<and> next_fill_id s \<le> total_supply c \<and> u64_ok (next_fill_id s)"
proof -
  have u: "units_ok s" and c: "config s = c" using run_units [OF assms] run_shape(2) [OF assms] .
  then have "length (fills s) \<le> total_supply c"
    using length_le_qty [of "fills s"] by (simp add: units_defs)
  moreover have "u64_ok (total_supply c)" using assms(1) by (simp add: config_ok_def)
  ultimately show ?thesis using u u64_ok_mono by (auto simp: units_defs list_all_iff)
qed

text \<open>
  C27: repricing only ever lowers. In every state, every fill is at or above the price of the window the
  clock is in now, and at or below the start price; the window's price only descends, so at whatever price the
  auction clears later, no buyer pays more than at the time of the fill.
\<close>

theorem fills_stay_above_the_clock:
  assumes "config_ok c" and "log_width log" and "run log (new_state c) = Some (s, ev)" and "f \<in> set (fills s)"
  shows "snd (window_bounds s (now s)) \<le> f_price f \<and> f_price f \<le> start_price c"
  using run_priced [OF assms(1-3)] run_shape(2) [OF assms(1-3)] assms(4)
  by (simp add: priced_def prices_descend_def fills_above_def)

theorem fills_stay_above_the_clock_witness:
  "snd (window_bounds demo_end (now demo_end)) \<le> f_price (hd (fills demo_end)) \<and>
   f_price (hd (fills demo_end)) \<le> start_price demo_config"
proof -
  have "fills demo_end \<noteq> []" using demo_end_facts(3) by auto
  then show ?thesis by (intro fills_stay_above_the_clock [OF demo_is_run]) simp
qed

text \<open>
  An auction that runs still has something to sell. As long as the auction is neither cleared nor cancelled,
  supply is left (unless it was configured with none): the window that sells the last unit clears it.
\<close>

lemma running_auction_has_supply:
  assumes "config_ok c" and "log_width log" and "run log (new_state c) = Some (s, ev)"
    and "\<not> is_terminal (status s)" and "0 < total_supply c"
  shows "0 < supply_remaining s"
  using run_priced [OF assms(1-3)] run_shape(2) [OF assms(1-3)] assms(4,5)
  by (simp add: priced_def still_selling_def)

text \<open>
  A log without gaps never panics. Every sequence of commands numbered without a gap, at any timestamps,
  is applied to its end: the assertion in \<open>apply\<close> fails on nothing the sequencer writes.
\<close>

lemma gapless_log_runs:
  assumes "config_ok c" and "gapless rs" and "log_width (map entry_of rs)"
  shows "\<exists>s ev. run_records rs (new_state c) = Some (s, ev) \<and> last_seq s = last_seq_of rs"
proof -
  obtain s ev where r: "run_records rs (new_state c) = Some (s, ev)"
    using run_from_seq [OF assms(2) _ shape_new [OF assms(1)] assms(3)] by (auto simp: new_state_def)
  with run_records_facts [OF assms(1,3)] show ?thesis by blast
qed

section \<open>The log\<close>

text \<open>
  C6: nothing acknowledged is ever lost (I6). Take any run of the commit thread on a log it opened: submissions, batches
  in which a rotation, a write or the sync may fail at any byte, waiters released by the watermark, a stop, the leftovers.
  If the power fails at any moment, leaving any amount of what was not yet synced, the log reads back a prefix of what
  was submitted, and every record whose waiter had been released is in it.
\<close>

theorem acknowledged_records_survive:
  assumes "codec_ok enc dec crc" and "log_history enc dec crc w rs" and "durable w = last_seq_of rs"
    and "(commit_step enc crc describe)\<^sup>*\<^sup>* (spawn options w rs) cs" and "synced (cs_wal cs) \<le> n"
  shows "\<exists>kept. read_all dec crc (crash n (cs_wal cs)) = Inr kept \<and> prefix kept (cs_submitted cs) \<and>
    (\<forall>r \<in> set (cs_submitted cs). lr_seq r \<in> set (cs_acked cs) \<longrightarrow> r \<in> set kept)"
proof -
  have inv: "commit_inv enc dec crc cs"
    using commit_inv_steps [OF assms(4,1) commit_inv_spawn [OF assms(2,3,1)]] .
  then have "\<forall>t \<in> set (cs_acked cs). wait_for t (cs_mark cs) = Released" by (simp add: commit_inv_def)
  then show ?thesis using commit_crash [OF inv assms(1,5)] by blast
qed

definition demo_cs0 :: commit_sys where
  "demo_cs0 = spawn (wal_opts demo_options) log0 []"

definition demo_cs1 :: commit_sys where
  "demo_cs1 = the_inr (submit_record record_open demo_cs0)"

definition demo_cs2 :: commit_sys where
  "demo_cs2 = writer_round demo_enc demo_crc demo_describe good_io demo_cs1"

definition demo_cs3 :: commit_sys where
  "demo_cs3 = demo_cs2\<lparr>cs_acked := 0 # cs_acked demo_cs2\<rparr>"

definition demo_cs4 :: commit_sys where
  "demo_cs4 = send_stop (the_inr (submit_record record_tick demo_cs3))"

lemma demo_cs_facts:
  "submit_record record_open demo_cs0 = Inr demo_cs1" "gapless (cs_submitted demo_cs0 @ [record_open])"
  "\<not> queue_full demo_cs0" "cs_phase demo_cs1 = Writing" "length (cs_queue demo_cs1) = 1"
  "wait_for 0 (cs_mark demo_cs2) = Released" "synced (cs_wal demo_cs3) = 17" "cs_submitted demo_cs3 = [record_open]"
  "cs_acked demo_cs3 = [0]" "durable log0 = last_seq_of []"
  by code_simp+

lemma demo_cs_stop_facts:
  "submit_record record_tick demo_cs3 = Inr (the_inr (submit_record record_tick demo_cs3))"
  "gapless (cs_submitted demo_cs3 @ [record_tick])" "\<not> queue_full demo_cs3"
  "\<not> queue_full (the_inr (submit_record record_tick demo_cs3))" "cs_phase demo_cs4 = Writing"
  "cs_submitted demo_cs4 = [record_open, record_tick]" "cs_queue demo_cs4 = [Msg_Record record_tick, Msg_Stop]"
  by code_simp+

lemma demo_commit_run: "(commit_step demo_enc demo_crc demo_describe)\<^sup>*\<^sup>* (spawn (wal_opts demo_options) log0 []) demo_cs3"
proof -
  have a: "commit_step demo_enc demo_crc demo_describe demo_cs0 demo_cs1"
    using demo_cs_facts(3,1,2) by (rule step_submit)
  have ne: "cs_queue demo_cs1 \<noteq> []" using demo_cs_facts(5) by auto
  have b: "commit_step demo_enc demo_crc demo_describe demo_cs1 demo_cs2"
    unfolding demo_cs2_def by (rule step_round [OF demo_cs_facts(4) ne])
  have c: "commit_step demo_enc demo_crc demo_describe demo_cs2 demo_cs3"
    unfolding demo_cs3_def by (rule step_ack) (rule demo_cs_facts)
  from a b c show ?thesis unfolding demo_cs0_def by (meson converse_rtranclp_into_rtranclp r_into_rtranclp)
qed

lemma demo_commit_stop: "(commit_step demo_enc demo_crc demo_describe)\<^sup>*\<^sup>* (spawn (wal_opts demo_options) log0 []) demo_cs4"
proof -
  have "commit_step demo_enc demo_crc demo_describe demo_cs3 (the_inr (submit_record record_tick demo_cs3))"
    using demo_cs_stop_facts(3,1,2) by (rule step_submit)
  moreover have "commit_step demo_enc demo_crc demo_describe (the_inr (submit_record record_tick demo_cs3)) demo_cs4"
    unfolding demo_cs4_def using demo_cs_stop_facts(4) by (rule step_stop)
  ultimately show ?thesis using demo_commit_run by (meson rtranclp.rtrancl_into_rtrancl)
qed

lemma demo_log0: "log_history demo_enc demo_dec demo_crc log0 []"
  by (rule log_new [OF demo_log_steps(1)])

theorem acknowledged_records_survive_witness:
  "\<exists>kept. read_all demo_dec demo_crc (crash 17 (cs_wal demo_cs3)) = Inr kept \<and> record_open \<in> set kept"
proof -
  have n: "synced (cs_wal demo_cs3) \<le> 17" by (simp add: demo_cs_facts)
  show ?thesis
    using acknowledged_records_survive [OF demo_codec_ok demo_log0 demo_cs_facts(10) demo_commit_run n]
    by (auto simp: demo_cs_facts record_open_def)
qed

text \<open>
  C13: stopping flushes what was queued. Once a stop is in the commit thread's queue and its system calls succeed, the
  thread finishes after at most as many batches as there are messages queued, however it cuts them, and then every record
  ever submitted is durable: each of their waiters is released.
\<close>

theorem shutdown_flushes_the_queue:
  assumes "codec_ok enc dec crc" and "log_history enc dec crc w rs" and "durable w = last_seq_of rs"
    and "(commit_step enc crc describe)\<^sup>*\<^sup>* (spawn options w rs) cs" and "cs_phase cs = Writing"
    and "Msg_Stop \<in> set (cs_queue cs)" and "list_all (encodable enc) (cs_submitted cs)"
    and "list_all batch_fine ios" and "length (cs_queue cs) < length ios"
  shows "cs_phase (writer_run enc crc describe ios cs) = Closed \<and>
    list_all (\<lambda>r. wait_for (lr_seq r) (cs_mark (writer_run enc crc describe ios cs)) = Released) (cs_submitted cs)"
proof -
  have inv: "commit_inv enc dec crc cs"
    using commit_inv_steps [OF assms(4,1) commit_inv_spawn [OF assms(2,3,1)]] .
  have f: "cs_phase (writer_run enc crc describe ios cs) = Closed \<and>
      mark_durable (cs_mark (writer_run enc crc describe ios cs)) = last_seq_of (cs_submitted cs)"
    by (rule writer_run_flushes [OF assms(1) inv assms(7,8)]) (use assms(5,6,9) in blast)
  have "gapless (cs_submitted cs)" using inv by (simp add: commit_inv_def)
  then have "opt_le (Some (lr_seq r)) (last_seq_of (cs_submitted cs))" if "r \<in> set (cs_submitted cs)" for r
    using that gapless_le_last by (auto simp: last_seq_of_def)
  then show ?thesis using f by (simp add: list_all_iff commit_mark.released_iff)
qed

lemma demo_encodable: "list_all (encodable demo_enc) [record_open, record_tick]"
  by (simp add: encodable_def demo_enc_def record_open_def record_tick_def tag_of_def u32_ok_def)

theorem shutdown_flushes_the_queue_witness:
  "cs_phase (writer_run demo_enc demo_crc demo_describe [good_io, good_io, good_io] demo_cs4) = Closed \<and>
   list_all (\<lambda>r. wait_for (lr_seq r)
      (cs_mark (writer_run demo_enc demo_crc demo_describe [good_io, good_io, good_io] demo_cs4)) = Released)
     [record_open, record_tick]"
  using shutdown_flushes_the_queue [OF demo_codec_ok demo_log0 demo_cs_facts(10) demo_commit_stop demo_cs_stop_facts(5),
      of "[good_io, good_io, good_io]"] demo_encodable
  by (simp add: demo_cs_stop_facts batch_fine_def good_io_def)

text \<open>
  C36: frames are read back and torn ones recognised. Whatever was in the buffer before and whatever follows, encoding a
  record appends one frame, and decoding at that point gives the record and the frame's length. The frame cut anywhere
  before its end is reported as incomplete; it is never taken for a record and never for corruption.
\<close>

theorem frame_roundtrip:
  assumes "codec_ok enc dec crc" and "encode_into enc crc r out = Inr buf"
  shows "\<exists>frame. buf = out @ frame \<and> decode dec crc (frame @ rest) = Record r (length frame) \<and>
    (\<forall>torn. strict_prefix torn frame \<longrightarrow> decode dec crc torn = Incomplete)"
proof -
  obtain p where p: "enc r = Some p" "buf = out @ frame_of crc p" and "payload_ok p" "u32_ok (crc p)"
    using encoded_frame [OF assms] by blast
  then show ?thesis
    using decode_frame [OF assms(1) p(1)] decode_torn [of p crc _ dec]
    by (intro exI [of _ "frame_of crc p"]) (auto simp: length_frame)
qed

theorem frame_roundtrip_witness:
  "\<exists>frame. the_inr (encode_into demo_enc demo_crc record_tick [7]) = [7] @ frame \<and>
     decode demo_dec demo_crc (frame @ [1, 2, 3]) = Record record_tick (length frame)"
proof -
  have "encode_into demo_enc demo_crc record_tick [7] = Inr (the_inr (encode_into demo_enc demo_crc record_tick [7]))"
    by code_simp
  from frame_roundtrip [OF demo_codec_ok this] show ?thesis by blast
qed

text \<open>
  A segment cut anywhere reads back as a prefix. The bytes of any list of records, cut after any number of bytes,
  are read as exactly the records that lie wholly before the cut, and the number of trailing bytes is what
  is left of the next one.
\<close>

lemma cut_segment_reads_prefix:
  assumes "codec_ok enc dec crc" and "list_all (encodable enc) rs"
  shows "\<exists>k torn. read_segment dec crc (take n (frames enc crc rs)) =
      Inr \<lparr>sc_records = take k rs, sc_trailing_bytes = length torn\<rparr> \<and>
    take n (frames enc crc rs) = frames enc crc (take k rs) @ torn \<and>
    (\<forall>j \<le> length rs. length (frames enc crc (take j rs)) \<le> n \<longrightarrow> j \<le> k)"
proof -
  obtain k torn where k: "k \<le> length rs" "take n (frames enc crc rs) = frames enc crc (take k rs) @ torn"
    "torn = [] \<or> decode dec crc torn = Incomplete"
    "\<And>j. j \<le> length rs \<Longrightarrow> length (frames enc crc (take j rs)) \<le> n \<Longrightarrow> j \<le> k"
    using take_frames [OF assms] by blast
  have "list_all (encodable enc) (take k rs)" using assms(2) by (auto simp: list_all_iff dest: in_set_takeD)
  from read_segment_frames [OF assms(1) this k(3)] k show ?thesis by auto
qed

text \<open>
  C26: the log reads back what was written, and a power loss costs at most what was not durable. For every history of a
  log (appends with rotation into new segments, syncs, power losses and restarts), its segments read back exactly what was
  appended, numbered without a gap. After a power loss at any point they read back a prefix that contains every record
  the log called durable; opening the log again succeeds, with the torn tail cut off, and gives a log that holds
  that prefix and calls it durable.
\<close>

theorem crash_keeps_durable_prefix:
  assumes "log_history enc dec crc w rs" and "codec_ok enc dec crc" and "synced w \<le> n"
  shows "read_all dec crc (disk_files w) = Inr rs \<and> gapless rs \<and> appended w = last_seq_of rs \<and>
    (\<exists>k. read_all dec crc (crash n w) = Inr (take k rs) \<and>
      (\<forall>r \<in> set rs. not_after (lr_seq r) (durable w) \<longrightarrow> r \<in> set (take k rs)) \<and>
      (\<exists>w'. open_log dec crc limit (length (take n (active w))) (crash n w) = Inr w' \<and>
         log_history enc dec crc w' (take k rs) \<and> durable w' = last_seq_of (take k rs)))"
proof -
  obtain k where k: "read_all dec crc (crash n w) = Inr (take k rs)"
    "\<And>d r. durable w = Some d \<Longrightarrow> r \<in> set rs \<Longrightarrow> lr_seq r \<le> d \<Longrightarrow> r \<in> set (take k rs)"
    "\<exists>w'. open_log dec crc limit (length (take n (active w))) (crash n w) = Inr w' \<and>
       log_history enc dec crc w' (take k rs) \<and> durable w' = last_seq_of (take k rs)"
    using history_crash [OF assms] by blast
  have "r \<in> set (take k rs)" if "r \<in> set rs" "not_after (lr_seq r) (durable w)" for r
    using that k(2) by (cases "durable w") auto
  with k history_reads_back [OF assms(1,2)] show ?thesis by blast
qed

theorem crash_keeps_durable_prefix_witness:
  "read_all demo_dec demo_crc (disk_files log3) = Inr [record_open, record_tick] \<and>
   (\<exists>k. read_all demo_dec demo_crc (crash 20 log3) = Inr (take k [record_open, record_tick]) \<and>
     record_open \<in> set (take k [record_open, record_tick]) \<and>
     (\<exists>w'. open_log demo_dec demo_crc 1000 (length (take 20 (active log3))) (crash 20 log3) = Inr w' \<and>
       durable w' = last_seq_of (take k [record_open, record_tick])))"
proof -
  have n: "synced log3 \<le> 20" by (simp add: demo_log_steps)
  have d: "not_after (lr_seq record_open) (durable log3)" by (simp add: demo_log_steps record_open_def)
  show ?thesis using crash_keeps_durable_prefix [OF demo_history demo_codec_ok n, of 1000] d by auto
qed

section \<open>Recovery\<close>

text \<open>
  C37: a snapshot is read back. What a job of the snapshot thread leaves in the directory when its system calls succeed is
  found under the snapshot's name, passes its checksum and decodes to the state that was written. When no other snapshot
  in the directory is newer, it is the one recovery starts from, also after the old ones have been pruned.
\<close>

theorem snapshot_roundtrip:
  assumes "last_seq s = Some sq" and "senc \<lparr>sn_seq = sq, sn_state = s\<rparr> = Some body" and "u64_ok sq"
    and "\<forall>b. u32_ok (crc b)" and "sdec body = Inr \<lparr>sn_seq = sq, sn_state = s\<rparr>"
    and "\<forall>e \<in> set dir. \<forall>q. snapshot_seq (fst e) = Some q \<longrightarrow> q \<le> sq"
  shows "latest_usable sdec crc (snapshot_job senc crc SnapDone removed s dir) = Some \<lparr>sn_seq = sq, sn_state = s\<rparr>"
proof -
  let ?sn = "\<lparr>sn_seq = sq, sn_state = s\<rparr>" and ?bytes = "body @ to_le_bytes (crc body)"
  let ?rest = "remove_entry (snapshot_name sq) (remove_entry (temp_name sq) dir)"
  have name: "snapshot_seq (snapshot_name sq) = Some sq" by (rule snapshot_seq_name_aux [OF assms(3)])
  have b: "snapshot_body senc crc ?sn = Some ?bytes" by (simp add: snapshot_body_def assms(2))
  then have read: "snapshot_read sdec crc ?bytes = Inr ?sn"
    using assms(2,4,5) by (intro snapshot_read_body [where sdec = sdec and body = body]) auto
  have old: "\<forall>e \<in> set ?rest. \<forall>q. snapshot_seq (fst e) = Some q \<longrightarrow> q \<le> sq" "\<forall>e \<in> set ?rest. fst e \<noteq> snapshot_name sq"
    using assms(6) by (auto simp: remove_entry_def)
  obtain rest' where "snapshot_job senc crc SnapDone removed s dir = (snapshot_name sq, ?bytes) # rest'"
    and "set rest' \<subseteq> set ?rest"
    using prune_keeps_newest [OF name, of 2 ?rest removed ?bytes] old b assms(1)
    by (auto simp: snapshot_job_def snapshot_write_def put_entry_def)
  then show ?thesis using latest_is_newest [OF name read, of rest'] old(1) by auto
qed

theorem snapshot_roundtrip_witness:
  "latest_usable demo_sdec demo_crc
     (snapshot_job demo_senc demo_crc SnapDone (\<lambda>name. True) (sn_state demo_snapshot) [(snapshot_name 0, [])]) =
     Some demo_snapshot"
proof -
  have sn: "\<lparr>sn_seq = 1, sn_state = sn_state demo_snapshot\<rparr> = demo_snapshot" by (simp add: demo_snapshot_def)
  have l: "last_seq (sn_state demo_snapshot) = Some 1" using sys_facts_other(16) by (simp add: demo_snapshot_def)
  have "snapshot_seq (snapshot_name 0) = Some 0" by (rule snapshot_seq_name_aux) (simp add: machine_int)
  then have old: "\<forall>e \<in> set [(snapshot_name 0, [])]. \<forall>q. snapshot_seq (fst e) = Some q \<longrightarrow> q \<le> 1" by simp
  have "u32_ok (demo_crc b)" for b by (simp add: demo_crc_def u32_ok_def)
  then show ?thesis
    using snapshot_roundtrip [OF l _ _ _ _ old, of demo_senc "[42]" demo_crc demo_sdec]
    unfolding sn by (simp add: demo_senc_def demo_sdec_def machine_int)
qed

section \<open>The system\<close>

text \<open>
  C7: no acknowledgement is ever taken back. Take a life of the system: threads interleaved in any way, system calls
  failing, power lost and the system restarted any number of times, as long as no restart finds a snapshot that an earlier
  restart set aside as ahead of the log, or one beside an empty log (\<open>no_stale_snapshot\<close>; the code is wrong for these,
  \<open>stale_snapshot_wins\<close> and \<open>snapshot_without_log\<close>). If the power is lost now, whatever part of the unsynced bytes survives, then the
  log reads back, and replaying it from scratch tells again every acknowledgement that was ever sent, with the same sequence
  number and the same events.
\<close>

theorem no_acknowledgement_is_taken_back:
  assumes "system_run (no_stale_snapshot x) x c sy" and "externals_ok x" and "config_ok c" and "synced (cs_wal (sy_commit sy)) \<le> n"
  shows "\<exists>kept. read_log x n sy = Inr kept \<and> prefix kept (sy_base sy @ e_log (sy_engine sy)) \<and>
    set (ar_acked (sy_acks sy)) \<subseteq> set (sy_promised sy) \<and> set (sy_promised sy) \<subseteq> set (told kept (new_state c))"
proof -
  obtain s0 where p: "promises_ok c sy" and cod: "codec_ok (x_enc x) (x_dec x) (x_crc x)"
    by (rule system_runE [OF assms(1-3)])
  then have "set (ar_acked (sy_acks sy)) \<subseteq> set (sy_promised sy)" by (simp add: promises_ok_def)
  with system_crash [OF system_run_inv [OF assms(1-3)] cod assms(4)] show ?thesis by metis
qed

lemma demo_synced: "synced (cs_wal (sy_commit sys10)) \<le> 34"
  by (simp add: demo_lives_facts(2))

theorem no_acknowledgement_is_taken_back_witness:
  "\<exists>kept. read_log demo_x 34 sys10 = Inr kept \<and>
     set [(0, [Opened 1000 10]), (1, [event.Cancelled])] \<subseteq> set (told kept (new_state demo_config))"
  using no_acknowledgement_is_taken_back [OF demo_lives demo_externals_ok demo_config_ok demo_synced]
  unfolding demo_lives_facts(1,5,7) by blast

text \<open>
  C8: a restart goes on exactly where the log ends (I5). After a power loss at any moment of a life without stale snapshots
  (\<open>no_stale_snapshot\<close>), opening the auction succeeds whichever of the files that were ever in the directory are left as
  snapshots, also with one that is ahead of the log. The engine starts in exactly the state that applying the surviving records
  gives and continues with the sequence number after them, and the log on disk is those records. Two cases are excluded because the
  code is wrong there: a snapshot that an earlier restart set aside as ahead of its log is found again
  (\<open>stale_snapshot_wins\<close>), or a readable snapshot lies beside an empty log (\<open>snapshot_without_log\<close>).
\<close>

theorem restart_is_exact:
  assumes "system_run (no_stale_snapshot x) x c sy" and "externals_ok x" and "config_ok c" and "synced (cs_wal (sy_commit sy)) \<le> n"
    and "set dir \<subseteq> set (sy_files sy) - set (sy_aside sy)" and "x_from_json x m = Inr c"
    and "read_log x n sy \<noteq> Inr [] \<or> latest_usable (x_sdec x) (x_crc x) dir = None"
  shows "\<exists>kept s ev d sy'. read_log x n sy = Inr kept \<and> run_records kept (new_state c) = Some (s, ev) \<and>
    open_auction x options instant replica (on_disk_after n sy) c (disk_after m n sy) dir = Inr (d, sy') \<and>
    e_state (sy_engine sy') = s \<and> resume_at (last_seq_of kept) = Some (e_next_seq (sy_engine sy')) \<and>
    read_all (x_dec x) (x_crc x) (files d) = Inr kept"
proof -
  have ok: "codec_ok (x_enc x) (x_dec x) (x_crc x)" "snapshot_codec_ok (x_senc x) (x_sdec x)"
    using assms(2) by (simp_all add: externals_ok_def)
  obtain kept s ev nxt w where k: "read_log x n sy = Inr kept" "run_records kept (new_state c) = Some (s, ev)"
    "resume_at (last_seq_of kept) = Some nxt" "log_history (x_enc x) (x_dec x) (x_crc x) w kept"
    and opened: "open_auction x options instant replica (on_disk_after n sy) c (disk_after m n sy) dir =
      Inr (\<lparr>manifest = Some m, files = disk_files w\<rparr>, system_start options instant replica dir kept s nxt w)"
    unfolding on_disk_after_def disk_after_def
    by (rule system_restart [where from_json = "x_from_json x" and to_json = "x_to_json x",
        OF system_run_inv [OF assms(1-3)] ok assms(3-7)]) blast
  show ?thesis
    unfolding opened using k history_reads_back(1) [OF k(4) ok(1)] by (simp add: system_start_def engine_start_def)
qed

theorem restart_is_exact_witness:
  "\<exists>kept s ev d sy'. read_log demo_x 34 sys10 = Inr kept \<and> run_records kept (new_state demo_config) = Some (s, ev) \<and>
    open_auction demo_x demo_options 99 None (on_disk_after 34 sys10) demo_config (disk_after [123, 125] 34 sys10) demo_dir =
      Inr (d, sy') \<and> e_state (sy_engine sy') = s"
proof -
  have j: "x_from_json demo_x [123, 125] = Inr demo_config" by (simp add: demo_x_def demo_from_json_def)
  obtain kept where k: "read_log demo_x 34 sys10 = Inr kept"
    "set (sy_promised sys10) \<subseteq> set (told kept (new_state demo_config))"
    using system_crash [OF system_run_inv [OF demo_lives demo_externals_ok demo_config_ok] _ demo_synced]
      demo_externals_ok unfolding externals_ok_def by metis
  then have "kept \<noteq> []" unfolding demo_lives_facts(1,5,7) by auto
  then have "read_log demo_x 34 sys10 \<noteq> Inr [] \<or> latest_usable (x_sdec demo_x) (x_crc demo_x) demo_dir = None"
    using k(1) by simp
  from restart_is_exact [OF demo_lives demo_externals_ok demo_config_ok demo_synced demo_lives_facts(9) j this,
      of demo_options 99 None]
  show ?thesis by blast
qed

text \<open>
  C10: the log determines the state. In every state of every life of the system without stale snapshots (\<open>no_stale_snapshot\<close>: no
  restart finds a snapshot that an earlier one set aside, or one beside an empty log), the records found when it was opened
  followed by those the engine produced are free of gaps, and applying them from scratch gives the engine's state.
  What the commit thread was given is a prefix of them, and all of them as long as the engine runs.
\<close>

theorem log_determines_state:
  assumes "system_run (no_stale_snapshot x) x c sy" and "externals_ok x" and "config_ok c"
  shows "gapless (sy_base sy @ e_sent (sy_engine sy)) \<and>
    (\<exists>ev. run_records (sy_base sy @ e_sent (sy_engine sy)) (new_state c) = Some (e_state (sy_engine sy), ev)) \<and>
    prefix (cs_submitted (sy_commit sy)) (sy_base sy @ e_sent (sy_engine sy)) \<and>
    (if e_running (sy_engine sy) then cs_submitted (sy_commit sy) = sy_base sy @ e_sent (sy_engine sy) else True)"
proof -
  obtain s0 where con: "engine_consistent c (sy_base sy) s0 (sy_engine sy)"
    and sub: "cs_submitted (sy_commit sy) = sy_base sy @ e_log (sy_engine sy)"
    by (rule system_runE [OF assms])
  then show ?thesis using engine_log_runs(2) [OF con] by (auto simp: engine_consistent_def)
qed

theorem log_determines_state_witness:
  "gapless (e_sent (sy_engine sys10)) \<and>
   (\<exists>ev. run_records (e_sent (sy_engine sys10)) (new_state demo_config) = Some (e_state (sy_engine sys10), ev))"
  using log_determines_state [OF demo_lives demo_externals_ok demo_config_ok] by (simp add: demo_lives_facts(5))

text \<open>
  C11: acknowledgements are in order and never early. In every life without stale snapshots, what has been broadcast is exactly the events of the first records
  of the log, in order; the replies that were sent are among them, in the same order; and every one of these
  records is durable.
\<close>

theorem acks_in_order_and_durable:
  assumes "system_run (no_stale_snapshot x) x c sy" and "externals_ok x" and "config_ok c"
  shows "\<exists>s0 ev0 k. run_records (sy_base sy) (new_state c) = Some (s0, ev0) \<and>
    ar_broadcast (sy_acks sy) =
      concat (map (\<lambda>x. map (Pair (fst x)) (snd x)) (take k (told (e_log (sy_engine sy)) s0))) \<and>
    subseq (ar_acked (sy_acks sy)) (take k (told (e_log (sy_engine sy)) s0)) \<and>
    list_all (\<lambda>x. wait_for (fst x) (cs_mark (sy_commit sy)) = Released) (take k (told (e_log (sy_engine sy)) s0))"
proof -
  obtain s0 where con: "engine_consistent c (sy_base sy) s0 (sy_engine sy)" and acks: "acks_ok sy"
    by (rule system_runE [OF assms])
  let ?tell = "\<lambda>p. (pa_seq p, pa_events p)"
  let ?done = "take (sy_ack_pos sy) (e_pending (sy_engine sy))"
  have pre: "prefix (map ?tell (e_pending (sy_engine sy))) (told (e_log (sy_engine sy)) s0)"
    and pos: "sy_ack_pos sy \<le> length (map ?tell (e_pending (sy_engine sy)))"
    using con acks by (simp_all add: engine_consistent_def acks_ok_def Let_def)
  have told: "take (sy_ack_pos sy) (told (e_log (sy_engine sy)) s0) = map ?tell ?done"
    using take_of_prefix [OF pos pre] by (simp add: take_map)
  have "subseq (map ?tell (filter pa_reply ?done)) (map ?tell ?done)" by (intro subseq_map subseq_filter_left)
  moreover obtain ev0 where "run_records (sy_base sy) (new_state c) = Some (s0, ev0)"
    using con by (auto simp: engine_consistent_def)
  moreover have "ar_acked (sy_acks sy) = map ?tell (filter pa_reply ?done)"
    "ar_broadcast (sy_acks sy) = concat (map (\<lambda>p. map (Pair (pa_seq p)) (pa_events p)) ?done)"
    "\<forall>p \<in> set ?done. wait_for (pa_seq p) (cs_mark (sy_commit sy)) = Released"
    using acks by (simp_all add: acks_ok_def Let_def)
  ultimately show ?thesis
    by (intro exI [of _ s0] exI [of _ ev0] exI [of _ "sy_ack_pos sy"]) (simp add: told comp_def list_all_iff)
qed

theorem acks_in_order_and_durable_witness:
  "\<exists>s0 k. subseq [(0, [Opened 1000 10]), (1, [event.Cancelled])] (take k (told (e_log (sy_engine sys10)) s0)) \<and>
     list_all (\<lambda>x. wait_for (fst x) (cs_mark (sy_commit sys10)) = Released) (take k (told (e_log (sy_engine sys10)) s0))"
  using acks_in_order_and_durable [OF demo_lives demo_externals_ok demo_config_ok] unfolding demo_lives_facts(1,5,7) by blast

text \<open>
  C9: a failover loses nothing that was acknowledged. In a life without stale snapshots, with a synchronous standby that was not given up, the standby's
  state is at every moment exactly what a prefix of the primary's records gives, and that prefix tells every
  acknowledgement that was sent since the standby joined.
\<close>

theorem failover_loses_nothing:
  assumes "system_run (no_stale_snapshot x) x c sy" and "externals_ok x" and "config_ok c" and "sy_replica sy = Some sb"
    and "replication (sy_options sy) = Sync" and "\<not> ar_replica_lost (sy_acks sy)"
  shows "\<exists>k ev. run_records (sy_base sy @ take k (e_sent (sy_engine sy))) (new_state c) = Some (sb_state sb, ev) \<and>
    set (ar_acked (sy_acks sy)) \<subseteq> set (told (sy_base sy @ take k (e_sent (sy_engine sy))) (new_state c))"
proof -
  obtain s0 where con: "engine_consistent c (sy_base sy) s0 (sy_engine sy)" and acks: "acks_ok sy"
    and sbok: "standby_ok s0 sy" by (rule system_runE [OF assms(1-3)])
  let ?k = "sy_replica_pos sy"
  obtain ev ev0 where "run_records (take ?k (e_sent (sy_engine sy))) s0 = Some (sb_state sb, ev)"
    and "run_records (sy_base sy) (new_state c) = Some (s0, ev0)"
    using sbok con assms(4) by (auto simp: standby_ok_def engine_consistent_def)
  then have run: "\<exists>ev. run_records (sy_base sy @ take ?k (e_sent (sy_engine sy))) (new_state c) = Some (sb_state sb, ev)"
    by (simp add: run_append)
  have "(pa_seq p, pa_events p) \<in> set (told (sy_base sy @ take ?k (e_sent (sy_engine sy))) (new_state c))"
    if p: "p \<in> set (take (sy_ack_pos sy) (e_pending (sy_engine sy)))" for p
  proof -
    have "replica_confirmed (pa_seq p) (sb_mark sb)"
      using acks p assms(4-6) by (auto simp: acks_ok_def Let_def)
    then obtain r where "r \<in> set (take ?k (e_sent (sy_engine sy)))" "pa_seq p \<le> lr_seq r"
      using sbok assms(4) by (auto simp: standby_ok_def)
    then show ?thesis
      using confirmed_is_applied [OF con pending_is_told [OF con in_set_takeD [OF p]]] by simp
  qed
  then have "set (ar_acked (sy_acks sy)) \<subseteq> set (told (sy_base sy @ take ?k (e_sent (sy_engine sy))) (new_state c))"
    using acks by (auto simp: acks_ok_def Let_def)
  with run show ?thesis by blast
qed

theorem failover_loses_nothing_witness:
  "\<exists>k ev. run_records (take k (e_sent (sy_engine sys10))) (new_state demo_config) = Some (sb_state (the (sy_replica sys10)), ev) \<and>
     set [(0, [Opened 1000 10]), (1, [event.Cancelled])] \<subseteq> set (told (take k (e_sent (sy_engine sys10))) (new_state demo_config))"
  using failover_loses_nothing [OF demo_lives demo_externals_ok demo_config_ok demo_lives_facts(8,4,3)]
  unfolding demo_lives_facts(5,7) append_Nil .

text \<open>
  C12: the engine never panics. In every life of the system without stale snapshots, whatever the engine takes next (a submission
  or the tick it owes) is applied: the sequence assertion in \<open>apply\<close> holds, until the sequence numbers are used up. Neither does the
  restart of the clock panic, on a platform whose instants reach \<open>u64::MAX\<close> nanoseconds back.
\<close>

theorem engine_never_panics:
  assumes "system_run (no_stale_snapshot x) x c sy" and "externals_ok x" and "config_ok c" and "next_submission t sy = Some (sub, rx)"
    and "e_next_seq (sy_engine sy) < u64_max"
  shows "(\<exists>e. engine_step (snapshot_every (sy_options sy)) env sub (sy_engine sy) = Some e) \<and>
    (earliest + int u64_max \<le> env_instant env \<longrightarrow>
       clock_resume_checked earliest (env_instant env) (now (e_state (sy_engine sy))) \<noteq> None)"
proof -
  obtain s0 where con: "engine_consistent c (sy_base sy) s0 (sy_engine sy)" and w: "widths_ok sy"
    by (rule system_runE [OF assms(1-3)])
  obtain ev where "run_records (sy_base sy @ e_sent (sy_engine sy)) (new_state c) = Some (e_state (sy_engine sy), ev)"
    using engine_log_runs(2) [OF con] by blast
  moreover have "log_width (map entry_of (sy_base sy @ e_sent (sy_engine sy)))" using w by (simp add: widths_ok_def)
  ultimately have "shape (e_state (sy_engine sy))" using run_shape(1) [OF assms(3)] by blast
  then have "u64_ok (now (e_state (sy_engine sy)))" by (simp add: shape_at_def)
  then show ?thesis
    using engine_step_total [OF con assms(3) _ assms(5)] w clock_resume_reaches by (auto simp: widths_ok_def)
qed

lemma demo_first_offer: "system_run (no_stale_snapshot demo_x) demo_x demo_config sys1" and demo_first_seq: "e_next_seq (sy_engine sys1) = 0"
proof -
  have "system_step (x_enc demo_x) (x_crc demo_x) (x_describe demo_x) (x_senc demo_x) sys0 sys1"
    unfolding sys1_def by (rule sys_offer [where sub = "asks Open"]) (simp_all add: sys_facts_engine offer_def asks_def)
  with demo_opens show "system_run (no_stale_snapshot demo_x) demo_x demo_config sys1" by (rule run_step)
  show "e_next_seq (sy_engine sys1) = 0" by code_simp
qed

theorem engine_never_panics_witness:
  "(\<exists>e. engine_step (snapshot_every (sy_options sys1)) (calm 5) (asks Open) (sy_engine sys1) = Some e) \<and>
   clock_resume_checked (- 18446744073709551615) 5 (now (e_state (sy_engine sys1))) \<noteq> None"
  using engine_never_panics [OF demo_first_offer demo_externals_ok demo_config_ok sys_facts_engine(1), of "calm 5" "- int u64_max"]
  by (simp add: demo_first_seq u64_max_def calm_def)

section \<open>Deadlines\<close>







section \<open>The crash tests\<close>















section \<open>Shutting down\<close>










section \<open>Widths, the standby, and waiting\<close>

text \<open>
  C19: every state is well typed. In whatever state a log leaves the auction, every number it holds is a value of the
  Rust type of its field: the configuration, supply, prices, fills and their numbers, the ladder with its running total, its levels and
  their bids, the window and its bids, the outcomes quoted to retries with the prices in rejections, limits and commitments, the last
  sequence number and the clock. (Identifiers are 128-bit words in the model already.) So a snapshot of
  the state can always be written, and the model, whose integers are not bounded, computes what the program computes.
\<close>

theorem state_is_well_typed:
  assumes "config_ok c" and "u64_ok (price_tolerance c)" and "log_width log" and "list_all (u64_ok \<circ> fst) log"
    and "run log (new_state c) = Some (s, ev)"
  shows "state_width s"
proof (rule accounted_width)
  show "accounted s" using widths.inv_run [OF assms(1,3) _ assms(5)] by (simp add: all_admitted)
  show "shape s" "units_ok s" using run_shape(1) run_units assms(1,3,5) by blast+
  show "pred_option u64_ok (last_seq s)"
    using run_last_seq [OF assms(5) _ assms(4,3) shape_new [OF assms(1)]] by (simp add: new_state_def)
  show "config_width (config s)"
    using assms(1,2) run_shape(2) [OF assms(1,3,5)]
    by (cases "ps_kind (schedule c)")
      (simp_all add: config_width_def config_ok_def schedule_ok_def start_price_def floor_price_def)
qed

theorem state_is_well_typed_witness: "state_width demo_end \<and> length (fills demo_end) = 2"
proof -
  have "list_all (u64_ok \<circ> fst) demo_log" and "u64_ok (price_tolerance demo_config)" by code_simp+
  with state_is_well_typed [OF demo_config_ok _ demo_log_width _ demo_run] show ?thesis
    using arg_cong [OF demo_end_facts(3), of length] by simp
qed

text \<open>
  C38: the standby stops, and stops drained. The loop of the standby's thread does not end by itself; once it is told to
  stop it does, after it has applied everything that was sent. Then its state is that of the log it was sent, and
  everyone who waits for one of those records finds it confirmed.
\<close>

theorem standby_stops_drained:
  assumes "lp_thread lp" and "run_records (lp_queue lp @ rs) (replica_state lp) = Some (s, ev)"
  shows "\<exists>lp'. replica_stop (fold replica_send rs lp) = Some (Inr lp') \<and> lp_queue lp' = [] \<and> \<not> lp_thread lp' \<and>
    replica_state lp' = s \<and>
    list_all (\<lambda>r. replica_wait (lr_seq r) timeout [replica_confirmed_seq lp'] = Inr ()) (lp_queue lp @ rs)"
proof -
  let ?lp = "fold replica_send rs lp"
  have sent: "?lp = lp\<lparr>lp_queue := lp_queue lp @ rs\<rparr>" using sends_queue [OF assms(1)] .
  then have "run_records (lp_queue ?lp) (replica_state ?lp) = Some (s, ev)" "lp_thread ?lp"
    using assms by (simp_all add: replica_state_def)
  then show ?thesis using replica_stop_state [of ?lp s ev] by (force simp: list_all_iff sent)
qed

theorem standby_stops_drained_witness:
  "\<exists>lp'. replica_stop (fold replica_send [record_open, record_tick] (replica_start (new_state demo_config))) = Some (Inr lp') \<and>
     lp_queue lp' = [] \<and> status (replica_state lp') = Live \<and>
     replica_wait 1 1000 [replica_confirmed_seq lp'] = Inr ()"
proof -
  have "case run_records [record_open, record_tick] (new_state demo_config) of
      None \<Rightarrow> False | Some (s, ev) \<Rightarrow> status s = Live"
    by code_simp
  then obtain s ev where r: "run_records [record_open, record_tick] (new_state demo_config) = Some (s, ev)" "status s = Live"
    by (auto split: option.splits)
  let ?lp = "replica_start (new_state demo_config)"
  have l: "lp_thread ?lp" "lp_queue ?lp = []" "replica_state ?lp = new_state demo_config"
    by (simp_all add: replica_start_def replica_state_def standby_start_def)
  then have "run_records (lp_queue ?lp @ [record_open, record_tick]) (replica_state ?lp) = Some (s, ev)" using r(1) by simp
  from standby_stops_drained [OF l(1) this, of 1000] obtain lp' where w:
    "replica_stop (fold replica_send [record_open, record_tick] ?lp) = Some (Inr lp')" "lp_queue lp' = []"
    "replica_state lp' = s"
    "list_all (\<lambda>r. replica_wait (lr_seq r) 1000 [replica_confirmed_seq lp'] = Inr ()) (lp_queue ?lp @ [record_open, record_tick])"
    by blast
  have "replica_wait 1 1000 [replica_confirmed_seq lp'] = Inr ()"
    using w(4) by (simp add: l(2) record_tick_def del: replica_wait.simps)
  then show ?thesis using w(1-3) r(2) by blast
qed

text \<open>
  C39: no deadline is overslept. When the engine thread parks, it does so for a positive time, at most 100
  milliseconds, and it is awake again \<open>spin_ahead\<close> before the next deadline of the state, whatever the deadline is
  about. In particular, if the batch window is not longer than \<open>spin_ahead\<close>, it never parks while a window is open.
\<close>

theorem no_deadline_is_overslept:
  assumes "pause_for options t s = Park d"
  shows "0 < d \<and> d \<le> max_park \<and> (\<forall>due. deadline s = Some due \<longrightarrow> t + d + spin_ahead options \<le> due) \<and>
    (accepts_bids (status s) \<and> open_window_of s \<noteq> None \<and> 0 < batch_window (config s) \<and> now s \<le> t \<longrightarrow>
       spin_ahead options < batch_window (config s))"
  using park_bounds [OF assms] park_ends_early [OF assms] open_window_spins [of s _ options t] assms
  by (fastforce simp: not_less [symmetric])

theorem no_deadline_is_overslept_witness:
  "pause_for default_engine_options 3000000 demo_ticked = Park 100000000 \<and> deadline demo_ticked = Some 1000000000 \<and>
   (3000000 :: nat) + 100000000 + spin_ahead default_engine_options \<le> 1000000000"
proof -
  have p: "pause_for default_engine_options 3000000 demo_ticked = Park 100000000"
    by (simp add: pause_for_def demo_ticked_facts default_engine_options_def max_park_def from_millis_def machine_int)
  show ?thesis using no_deadline_is_overslept [OF p] p demo_ticked_facts(4) by blast
qed

section \<open>Reading the events\<close>

text \<open>
  C17: the events tell everything. A reader who holds the public state of the auction after a log (its status, the supply
  left, the clearing price, the fills, and the outcome of every idempotency key) and takes each later event at its word ends
  up with exactly the public state the state machine is in after those commands. No fill, no repricing, no withdrawal and no
  rejection happens in silence, and none is announced that did not happen.
\<close>

theorem events_tell_the_book:
  assumes "config_ok c" and "log_width log" and "run log (new_state c) = Some (s, ev)"
    and "log_width later" and "run later s = Some (s', ev')"
  shows "fold hear ev (book_of (new_state c)) = book_of s \<and> fold hear ev' (book_of s) = book_of s'"
  using leads_run [OF assms(3) sound_new [OF assms(1)] assms(2)] leads_run [OF assms(5) _ assms(4)] by blast

theorem events_tell_the_book_witness:
  "\<exists>ev. run (drop 5 demo_log) demo_mid = Some (demo_end, ev) \<and> fold hear ev (book_of demo_mid) = book_of demo_end \<and>
     bk_status (book_of demo_mid) = Live \<and> bk_clearing (fold hear ev (book_of demo_mid)) = Some 900"
proof -
  obtain ev where r: "run (drop 5 demo_log) demo_mid = Some (demo_end, ev)"
    using demo_run run_append [of "take 5 demo_log" "drop 5 demo_log" "new_state demo_config"]
    by (auto simp: demo_mid_run split: option.splits)
  have w: "log_width (drop 5 demo_log)" by code_simp
  show ?thesis
    using events_tell_the_book [OF demo_config_ok demo_mid_width demo_mid_run w r] r demo_mid_facts(1) demo_end_facts(2)
    by (simp add: book_of_def)
qed

text \<open>
  C18: a subscriber sees the truth, and only the durable truth. Whatever the threads of the system do, through power losses
  and restarts that find no stale snapshot (\<open>no_stale_snapshot\<close>), the book of a reader who knew the public state the engine started with and has heard every broadcast since is
  exactly the public state that a prefix of the log leaves, and every record of that prefix is durable.
\<close>

theorem broadcast_tells_the_book:
  assumes "system_run (no_stale_snapshot x) x c sy" and "externals_ok x" and "config_ok c"
  shows "\<exists>s0 ev0 k s' ev'. run_records (sy_base sy) (new_state c) = Some (s0, ev0) \<and>
    run_records (take k (e_log (sy_engine sy))) s0 = Some (s', ev') \<and>
    fold hear (map snd (ar_broadcast (sy_acks sy))) (book_of s0) = book_of s' \<and>
    list_all (\<lambda>r. wait_for (lr_seq r) (cs_mark (sy_commit sy)) = Released) (take k (e_log (sy_engine sy)))"
proof -
  let ?log = "e_log (sy_engine sy)" and ?k = "sy_ack_pos sy"
  let ?tell = "\<lambda>p. (pa_seq p, pa_events p)" and ?done = "take ?k (e_pending (sy_engine sy))"
  obtain s0 where con: "engine_consistent c (sy_base sy) s0 (sy_engine sy)" and w: "widths_ok sy" and acks: "acks_ok sy"
    by (rule system_runE [OF assms])
  obtain ev0 where base: "run_records (sy_base sy) (new_state c) = Some (s0, ev0)"
    using con by (auto simp: engine_consistent_def)
  have "prefix ?log (e_sent (sy_engine sy))" using con unfolding engine_consistent_def by blast
  then obtain rest where sent: "e_sent (sy_engine sy) = take ?k ?log @ rest"
    using take_is_prefix prefix_order.trans unfolding prefix_def by blast
  then obtain s' ev' where run: "run_records (take ?k ?log) s0 = Some (s', ev')"
    using con by (auto simp: engine_consistent_def run_append split: option.splits)
  have told: "told (take ?k ?log) s0 = map ?tell ?done"
    using con acks take_of_prefix [of ?k "map ?tell (e_pending (sy_engine sy))" "told ?log s0"]
    by (simp add: engine_consistent_def acks_ok_def Let_def take_map take_told)
  have ev': "ev' = map snd (ar_broadcast (sy_acks sy))"
    using told_events [OF run] acks by (simp add: told acks_ok_def Let_def map_concat comp_def)
  have "log_width (map entry_of (sy_base sy))" and wk: "log_width (map entry_of (take ?k ?log))"
    using w by (simp_all add: widths_ok_def sent)
  then have "sound s0" using leads_run [OF base sound_new [OF assms(3)]] by blast
  then have book: "fold hear ev' (book_of s0) = book_of s'" using leads_run [OF run _ wk] by blast
  have "map lr_seq (take ?k ?log) = map pa_seq ?done" using told_seqs [OF run] by (simp add: told comp_def)
  then have seqs: "lr_seq ` set (take ?k ?log) = pa_seq ` set ?done" by (metis list.set_map)
  have "wait_for (lr_seq r) (cs_mark (sy_commit sy)) = Released" if r: "r \<in> set (take ?k ?log)" for r
  proof -
    have "lr_seq r \<in> pa_seq ` set ?done" using r seqs by blast
    then show ?thesis using acks by (auto simp: acks_ok_def Let_def)
  qed
  then have "list_all (\<lambda>r. wait_for (lr_seq r) (cs_mark (sy_commit sy)) = Released) (take ?k ?log)"
    unfolding list_all_iff by blast
  with base run book show ?thesis unfolding ev' by blast
qed

theorem broadcast_tells_the_book_witness:
  "\<exists>k s' ev'. run_records (take k (e_log (sy_engine sys10))) (new_state demo_config) = Some (s', ev') \<and>
     bk_status (book_of s') = status.Cancelled \<and> bk_supply (book_of s') = 10"
proof -
  have "\<exists>s0 ev0 k s' ev'. run_records (sy_base sys10) (new_state demo_config) = Some (s0, ev0) \<and>
      run_records (take k (e_log (sy_engine sys10))) s0 = Some (s', ev') \<and>
      fold hear (map snd (ar_broadcast (sy_acks sys10))) (book_of s0) = book_of s'"
    using broadcast_tells_the_book [OF demo_lives demo_externals_ok demo_config_ok] by blast
  then obtain k s' ev' where r: "run_records (take k (e_log (sy_engine sys10))) (new_state demo_config) = Some (s', ev')"
    and b: "fold hear (map snd (ar_broadcast (sy_acks sys10))) (book_of (new_state demo_config)) = book_of s'"
    by (auto simp: demo_lives_facts(5))
  have "bk_status (fold hear [Opened 1000 10, event.Cancelled] (book_of (new_state demo_config))) = status.Cancelled"
    "bk_supply (fold hear [Opened 1000 10, event.Cancelled] (book_of (new_state demo_config))) = 10"
    by code_simp+
  moreover have "book_of s' = fold hear [Opened 1000 10, event.Cancelled] (book_of (new_state demo_config))"
    using b by (simp add: demo_broadcast)
  ultimately show ?thesis using r by metis
qed

section \<open>The directory of a log\<close>

text \<open>
  C40: the log is found again under the names of its files. After any history and any power loss, let the directory
  hold what is left of the segments under the names the log gives them, the manifest, and any other files whatever
  (snapshots, strangers), in any order. As long as the segment numbers have their eight digits, \<open>read_all\<close> on the directory
  reads a prefix of what was appended with every durable record in it, and \<open>Wal::open\<close> succeeds: it gives a log
  holding that prefix and calling it durable, the directory it leaves holds exactly that log's segments and reads back the
  same prefix, and every file that is not a segment is as it was. From number \<open>10 ^ 8\<close> on a segment's name is no
  longer recognized.
\<close>

theorem named_files_read_back:
  assumes "log_history enc dec crc w rs" and "codec_ok enc dec crc" and "synced w \<le> n"
    and "active_file w < 100000000" and "holds_segments dir (crash n w)"
    and "map_of dir manifest_name = Some m" and "from_json m = Inr c"
  shows "\<exists>k dir' w'. read_all_dir dec crc dir = Inr (take k rs) \<and>
    (\<forall>r \<in> set rs. not_after (lr_seq r) (durable w) \<longrightarrow> r \<in> set (take k rs)) \<and>
    wal_open_dir from_json to_json dec crc c limit (length (take n (active w))) dir = Inr (dir', w') \<and>
    log_history enc dec crc w' (take k rs) \<and> durable w' = last_seq_of (take k rs) \<and>
    segments dir' = disk_files w' \<and> read_all_dir dec crc dir' = Inr (take k rs) \<and>
    (\<forall>name. segment_index name = None \<longrightarrow> map_of dir' name = map_of dir name)"
proof -
  note listed = history_listed [OF assms(1,4,5)]
  obtain k w' where k: "read_all dec crc (crash n w) = Inr (take k rs)"
    "\<And>d r. durable w = Some d \<Longrightarrow> r \<in> set rs \<Longrightarrow> lr_seq r \<le> d \<Longrightarrow> r \<in> set (take k rs)"
    "open_log dec crc limit (length (take n (active w))) (crash n w) = Inr w'"
    "log_history enc dec crc w' (take k rs)" "durable w' = last_seq_of (take k rs)"
    using history_crash [OF assms(1-3)] by blast
  obtain dir' where o: "open_segments dec crc limit (length (take n (active w))) dir = Inr (dir', w')"
    using k(3) open_segments_refines [OF listed(1), of dec crc limit "length (take n (active w))"] listed(2)
    by (cases "open_segments dec crc limit (length (take n (active w))) dir") auto
  note after = open_segments_files [OF listed(1) o]
  have "r \<in> set (take k rs)" if "r \<in> set rs" "not_after (lr_seq r) (durable w)" for r
    using that k(2) by (cases "durable w") auto
  then show ?thesis
    using k o after listed history_reads_back(1) [OF k(4) assms(2)]
      wal_open_dir_known [OF listed(1) assms(6), of from_json c, OF assms(7)]
    by (intro exI [of _ k] exI [of _ dir'] exI [of _ w']) (simp add: read_all_dir_def)
qed

definition mixed_dir :: directory where
  "mixed_dir = [(segment_name 0, take 20 (active log3)), (''snapshot-1.snap'', [7]), (manifest_name, [123, 125]), (''notes.txt'', [])]"

theorem named_files_read_back_witness:
  "\<exists>k dir' w'. read_all_dir demo_dec demo_crc mixed_dir = Inr (take k [record_open, record_tick]) \<and>
    record_open \<in> set (take k [record_open, record_tick]) \<and>
    wal_open_dir demo_from_json demo_to_json demo_dec demo_crc demo_config 1000 20 mixed_dir = Inr (dir', w') \<and>
    durable w' = last_seq_of (take k [record_open, record_tick]) \<and> map_of dir' ''notes.txt'' = Some []"
proof -
  have n: "synced log3 \<le> 20" by (simp add: demo_log_steps)
  have crash: "crash 20 log3 = [(0, take 20 (active log3))]" and i: "active_file log3 < 100000000" by code_simp+
  have none: "segment_index ''snapshot-1.snap'' = None" "segment_index ''notes.txt'' = None" by code_simp+
  have dir: "holds_segments mixed_dir (crash 20 log3)"
    unfolding crash holds_segments_def mixed_dir_def named_files_def
    by (simp add: none segment_index_name_aux) (simp add: segment_name_def manifest_name_def)
  have m: "map_of mixed_dir manifest_name = Some [123, 125]" "demo_from_json [123, 125] = Inr demo_config"
    "map_of mixed_dir ''notes.txt'' = Some []"
    by (simp_all add: mixed_dir_def manifest_name_def segment_name_def demo_from_json_def)
  have d: "not_after (lr_seq record_open) (durable log3)" by (simp add: demo_log_steps record_open_def)
  note found = named_files_read_back [where from_json = demo_from_json and m = "[123, 125]" and to_json = demo_to_json and limit = "1000",
      OF demo_history demo_codec_ok n i dir m(1,2)]
  have len: "length (take 20 (active log3)) = 20" by (simp add: demo_log_steps)
  show ?thesis using found d m(3) none(2) unfolding len by fastforce
qed

end
